(* ===== verification/Prelude.thy ===== *)
theory Prelude
  imports Main "HOL-Library.Multiset"
begin

text \<open>
  Shared vocabulary of the development: fixed-width integer wrap-around, permutations of an index
  range, in-place list updates, enumeration loops, and the generic contract of a component that is
  driven by events and keeps an invariant. Every component theory imports this one.
\<close>

named_theorems batch_simps \<open>accessors and updates of batch results\<close>
named_theorems flow_simps \<open>send-credit arithmetic\<close>
named_theorems fold_simps \<open>header fold operations\<close>

text \<open>Go's byte slices and strings are sequences of 8-bit values; both are lists of characters.\<close>

type_synonym bytes = "char list"

subsection \<open>Fixed-width integers\<close>

text \<open>
  \<open>int32\<close> narrows a mathematical integer the way a Go conversion to \<open>int32\<close> does (two's complement,
  modulo \<open>2 ^ 32\<close>); \<open>uint32\<close> is the unsigned conversion.
\<close>

definition int32 :: "int \<Rightarrow> int" where
  "int32 x = (x + 2 ^ 31) mod 2 ^ 32 - 2 ^ 31"

definition uint32 :: "int \<Rightarrow> int" where
  "uint32 x = x mod 2 ^ 32"

definition maxInt64 :: int where
  "maxInt64 = 2 ^ 63 - 1"

definition in_int32 :: "int \<Rightarrow> bool" where
  "in_int32 x \<longleftrightarrow> - (2 ^ 31) \<le> x \<and> x < 2 ^ 31"

lemma int32_id [simp]: "in_int32 x \<Longrightarrow> int32 x = x"
  by (simp add: int32_def in_int32_def)

lemma in_int32_int32 [simp]: "in_int32 (int32 x)"
proof -
  have "0 \<le> (x + 2 ^ 31) mod 2 ^ 32" and "(x + 2 ^ 31) mod 2 ^ 32 < (2 ^ 32 :: int)"
    by simp_all
  then show ?thesis by (simp add: int32_def in_int32_def)
qed

lemma uint32_id [simp]: "0 \<le> x \<Longrightarrow> x < 2 ^ 32 \<Longrightarrow> uint32 x = x"
  by (simp add: uint32_def)

lemma zdiv_less:
  fixes a b c :: int
  assumes "0 < c" and "a < b * c"
  shows "a div c < b"
proof -
  have "a div c * c \<le> a" using assms(1) by (simp add: minus_mod_eq_div_mult [symmetric])
  with assms(2) have "a div c * c < b * c" by linarith
  then show ?thesis using assms(1) by simp
qed

text \<open>Comparing quotients first and remainders second compares the numbers.\<close>

lemma divmod_less_iff:
  fixes p q c :: int
  assumes "0 < c"
  shows "p div c < q div c \<or> (p div c = q div c \<and> p mod c < q mod c) \<longleftrightarrow> p < q"
proof (cases "p div c" "q div c" rule: linorder_cases)
  case less
  then have "\<not> q \<le> p" using zdiv_mono1 [of q p c] assms by auto
  with less show ?thesis by simp
next
  case equal
  then have "p < q \<longleftrightarrow> p mod c < q mod c"
    using div_mult_mod_eq [of p c] div_mult_mod_eq [of q c] by (metis add_less_cancel_left)
  with equal show ?thesis by simp
next
  case greater
  then have "\<not> p \<le> q" using zdiv_mono1 [of p q c] assms by auto
  with greater show ?thesis by simp
qed

subsection \<open>Permutations of an index range\<close>

definition is_perm :: "nat \<Rightarrow> nat list \<Rightarrow> bool" where
  "is_perm n xs \<longleftrightarrow> length xs = n \<and> distinct xs \<and> (\<forall>x\<in>set xs. x < n)"

lemma is_perm_length: "is_perm n xs \<Longrightarrow> length xs = n"
  by (simp add: is_perm_def)

lemma is_perm_distinct: "is_perm n xs \<Longrightarrow> distinct xs"
  by (simp add: is_perm_def)

lemma is_perm_set: "is_perm n xs \<Longrightarrow> set xs = {..<n}"
proof -
  assume p: "is_perm n xs"
  then have "set xs \<subseteq> {..<n}" by (auto simp: is_perm_def)
  moreover have "card (set xs) = card {..<n}"
    using p by (simp add: is_perm_def distinct_card)
  ultimately show ?thesis by (simp add: card_subset_eq)
qed

lemma is_perm_nth: "is_perm n xs \<Longrightarrow> i < n \<Longrightarrow> xs ! i < n"
  by (simp add: is_perm_def)

lemma is_perm_inj: "is_perm n xs \<Longrightarrow> i < n \<Longrightarrow> j < n \<Longrightarrow> xs ! i = xs ! j \<Longrightarrow> i = j"
  by (simp add: is_perm_def nth_eq_iff_index_eq)

lemma is_perm_surj:
  assumes "is_perm n xs" and "v < n"
  obtains i where "i < n" and "xs ! i = v"
proof -
  have "v \<in> set xs" using assms is_perm_set by auto
  then show ?thesis using that assms(1) by (auto simp: in_set_conv_nth is_perm_def)
qed

lemma is_permI:
  assumes "length xs = n" and "\<And>i. i < n \<Longrightarrow> xs ! i < n"
    and "\<And>i j. i < n \<Longrightarrow> j < n \<Longrightarrow> xs ! i = xs ! j \<Longrightarrow> i = j"
  shows "is_perm n xs"
  using assms by (fastforce simp: is_perm_def distinct_conv_nth in_set_conv_nth)

lemma is_perm_upt [simp]: "is_perm n [0..<n]"
  by (simp add: is_perm_def)

lemma mod_add_right_inj:
  fixes i j s n :: nat
  assumes "(i + s) mod n = (j + s) mod n" and "i < n" and "j < n"
  shows "i = j"
proof (rule ccontr)
  assume "i \<noteq> j"
  then consider "i < j" | "j < i" by linarith
  then show False
  proof cases
    case 1
    with assms(1) have "n dvd (j + s) - (i + s)" by (metis mod_eq_dvd_iff_nat add_le_mono1 less_imp_le)
    with 1 assms(3) show False by (auto dest: dvd_imp_le)
  next
    case 2
    with assms(1) have "n dvd (i + s) - (j + s)" by (metis mod_eq_dvd_iff_nat add_le_mono1 less_imp_le)
    with 2 assms(2) show False by (auto dest: dvd_imp_le)
  qed
qed

lemma is_perm_mset: "is_perm n xs \<Longrightarrow> mset ys = mset xs \<Longrightarrow> is_perm n ys"
  unfolding is_perm_def by (metis mset_eq_imp_distinct_iff set_mset_mset size_mset)

subsection \<open>Loops over indexed lists\<close>

text \<open>A loop \<open>for k, i := range idx { out[i] = f(k) }\<close>: later writes win, as in the source.\<close>

fun scatter_from :: "nat \<Rightarrow> (nat \<Rightarrow> 'a) \<Rightarrow> nat list \<Rightarrow> 'a list \<Rightarrow> 'a list" where
  "scatter_from k f [] out = out"
| "scatter_from k f (i # is) out = scatter_from (Suc k) f is (out[i := f k])"

lemma length_scatter_from [simp]: "length (scatter_from k f is out) = length out"
  by (induction "is" arbitrary: k out) auto

lemma scatter_from_notin: "j \<notin> set is \<Longrightarrow> scatter_from k f is out ! j = out ! j"
  by (induction "is" arbitrary: k out) auto

lemma scatter_from_nth:
  assumes "distinct is" and "m < length is" and "is ! m < length out"
  shows "scatter_from k f is out ! (is ! m) = f (k + m)"
  using assms
proof (induction "is" arbitrary: k m out)
  case Nil
  then show ?case by simp
next
  case (Cons i "is")
  show ?case
  proof (cases m)
    case 0
    with Cons.prems show ?thesis by (simp add: scatter_from_notin)
  next
    case (Suc m')
    with Cons.prems Cons.IH [of m' "out[i := f k]" "Suc k"] show ?thesis by simp
  qed
qed

lemma sum_list_update_add:
  fixes xs :: "nat list"
  shows "i < length xs \<Longrightarrow> sum_list (xs[i := xs ! i + d]) = sum_list xs + d"
proof (induction xs arbitrary: i)
  case (Cons x xs)
  then show ?case by (cases i) auto
qed simp

lemma in_set_update_cases: "x \<in> set (xs[i := y]) \<Longrightarrow> x = y \<or> x \<in> set xs"
  by (meson insertE set_update_subset_insert subsetD)

lemma insort_key_cong:
  "f x = g x \<Longrightarrow> (\<And>y. y \<in> set ys \<Longrightarrow> f y = g y) \<Longrightarrow> insort_key f x ys = insort_key g x ys"
  by (induction ys) auto

lemma sort_key_agree:
  "(\<And>y. y \<in> set ys \<Longrightarrow> f y = g y) \<Longrightarrow> sort_key f ys = sort_key g ys"
  by (induction ys) (auto intro!: insort_key_cong)

lemma strict_sorted_index_less:
  fixes f :: "'a \<Rightarrow> 'b::linorder"
  assumes "sorted_wrt (<) (map f xs)" and "k < length xs" and "l < length xs"
  shows "f (xs ! k) < f (xs ! l) \<longleftrightarrow> k < l"
proof -
  have mono: "f (xs ! i) < f (xs ! j)" if "i < j" "j < length xs" for i j
    using assms(1) that by (auto simp: sorted_wrt_iff_nth_less)
  show ?thesis
    using mono [of k l] mono [of l k] assms(2,3) by (cases k l rule: linorder_cases) auto
qed

subsection \<open>Components driven by events\<close>

text \<open>
  The contract every stateful component of the program satisfies: a start state, a transition per
  event, the events its callers may deliver, and an invariant that holds at the start and survives
  each such transition. Its client lemma is the one every run-level property needs.
\<close>

locale event_steps =
  fixes step :: "'s \<Rightarrow> 'e \<Rightarrow> 's"
    and admissible :: "'e \<Rightarrow> bool"
    and inv :: "'s \<Rightarrow> bool"
  assumes inv_step: "inv s \<Longrightarrow> admissible e \<Longrightarrow> inv (step s e)"
begin

lemma inv_foldl: "inv s \<Longrightarrow> list_all admissible es \<Longrightarrow> inv (foldl step s es)"
  by (induction es arbitrary: s) (auto intro: inv_step)

end

locale event_machine = event_steps step admissible inv
  for step :: "'s \<Rightarrow> 'e \<Rightarrow> 's" and admissible :: "'e \<Rightarrow> bool" and inv :: "'s \<Rightarrow> bool" +
  fixes start :: 's
  assumes inv_start: "inv start"
begin

lemma inv_run: "list_all admissible es \<Longrightarrow> inv (foldl step start es)"
  by (rule inv_foldl) (rule inv_start)

end

text \<open>The same contract for a component whose next step is not determined by its state.\<close>

locale transition_system =
  fixes initial :: "'s \<Rightarrow> bool"
    and trans :: "'s \<Rightarrow> 's \<Rightarrow> bool"
    and inv :: "'s \<Rightarrow> bool"
  assumes inv_initial: "initial s \<Longrightarrow> inv s"
    and inv_trans: "inv s \<Longrightarrow> trans s t \<Longrightarrow> inv t"
begin

lemma inv_reachable: "initial s \<Longrightarrow> trans\<^sup>*\<^sup>* s t \<Longrightarrow> inv t"
  by (erule rtranclp_induct) (auto intro: inv_initial inv_trans)

end

end
