(* ===== verification/BatchResult.thy ===== *)
theory BatchResult
  imports Prelude
begin

text \<open>
  The outcome of one batch (\<open>tth2/result.go\<close>): results, dense arrival ranks and the arrival order.
  \<open>newBatchResult\<close> turns the sparse HEADERS sequence numbers observed by the read pump into ranks,
  and \<open>FullArrivalOrder\<close> is the guard every tally relies on. Go panics are values of
  \<open>batch_panic\<close>. Slice indices are natural numbers, so the source's test for a negative index has
  no counterpart. A response body's \<open>SHA256\<close> field is the byte sequence that was written to the
  digest.
\<close>

record StreamError =
  StreamID :: int
  Code :: int

record ResponseBody =
  Captured :: bytes
  BytesReceived :: int
  SHA256 :: bytes

record Response =
  Status :: string
  StatusCode :: int
  Header :: "(string \<times> string list) list option"
  Trailer :: "(string \<times> string list) list option"
  ContentLength :: int
  Body :: ResponseBody

record Result =
  response :: "Response option"
  ArrivalRank :: int
  Reset :: "StreamError option"
  arrivalSeq :: int
  streamID :: int

record BatchResult =
  Connection :: int
  Results :: "Result list"
  ArrivalOrder :: "nat list"

datatype batch_panic =
    NegativeArrivalSequence
  | NeitherResponseNorReset
  | DuplicateArrivalSequence

definition CapturedComplete :: "ResponseBody \<Rightarrow> bool" where
  "CapturedComplete b \<longleftrightarrow> int (length (Captured b)) = BytesReceived b"

definition Arrived :: "Result \<Rightarrow> bool" where
  "Arrived r \<longleftrightarrow> response r \<noteq> None"

definition AllResponsesArrived :: "BatchResult \<Rightarrow> bool" where
  "AllResponsesArrived b \<longleftrightarrow> list_all Arrived (Results b)"

fun ranksMatch :: "Result list \<Rightarrow> nat \<Rightarrow> nat list \<Rightarrow> bool" where
  "ranksMatch rs rank [] \<longleftrightarrow> True"
| "ranksMatch rs rank (input # rest) \<longleftrightarrow>
     \<not> (input \<ge> length rs \<or> ArrivalRank (rs ! input) \<noteq> int rank) \<and> ranksMatch rs (Suc rank) rest"

definition FullArrivalOrder :: "BatchResult \<Rightarrow> nat list option" where
  "FullArrivalOrder b =
     (if \<not> AllResponsesArrived b \<or> length (ArrivalOrder b) \<noteq> length (Results b) then None
      else if \<not> ranksMatch (Results b) 0 (ArrivalOrder b) then None
      else Some (ArrivalOrder b))"

text \<open>The first loop: collect arrived indices, mark the others with rank \<open>-1\<close>, panic on malformed results.\<close>

fun collectOrder :: "nat \<Rightarrow> Result list \<Rightarrow> batch_panic + (Result list \<times> nat list)" where
  "collectOrder i [] = Inr ([], [])"
| "collectOrder i (r # rs) =
     (if Arrived r then
        if arrivalSeq r < 0 then Inl NegativeArrivalSequence
        else (case collectOrder (Suc i) rs of
                Inl p \<Rightarrow> Inl p
              | Inr (rs', order) \<Rightarrow> Inr (r # rs', i # order))
      else if Reset r = None then Inl NeitherResponseNorReset
      else (case collectOrder (Suc i) rs of
              Inl p \<Rightarrow> Inl p
            | Inr (rs', order) \<Rightarrow> Inr (r\<lparr>ArrivalRank := -1\<rparr> # rs', order)))"

fun assignRanks :: "nat \<Rightarrow> nat list \<Rightarrow> Result list \<Rightarrow> Result list" where
  "assignRanks rank [] rs = rs"
| "assignRanks rank (i # is) rs =
     assignRanks (Suc rank) is (rs[i := (rs ! i)\<lparr>ArrivalRank := int rank\<rparr>])"

fun hasAdjacentDuplicate :: "int list \<Rightarrow> bool" where
  "hasAdjacentDuplicate (x # y # zs) \<longleftrightarrow> x = y \<or> hasAdjacentDuplicate (y # zs)"
| "hasAdjacentDuplicate _ \<longleftrightarrow> False"

definition newBatchResult :: "Result list \<Rightarrow> batch_panic + BatchResult" where
  "newBatchResult results =
     (case collectOrder 0 results of
        Inl p \<Rightarrow> Inl p
      | Inr (rs, order) \<Rightarrow>
          (let order = sort_key (\<lambda>i. arrivalSeq (rs ! i)) order in
           if hasAdjacentDuplicate (map (\<lambda>i. arrivalSeq (rs ! i)) order)
           then Inl DuplicateArrivalSequence
           else Inr \<lparr>Connection = 0, Results = assignRanks 0 order rs, ArrivalOrder = order\<rparr>))"

subsection \<open>The collection loop\<close>

definition collectable :: "Result \<Rightarrow> bool" where
  "collectable r \<longleftrightarrow> (if Arrived r then 0 \<le> arrivalSeq r else Reset r \<noteq> None)"

definition unranked :: "Result \<Rightarrow> Result" where
  "unranked r = (if Arrived r then r else r\<lparr>ArrivalRank := -1\<rparr>)"

lemma unranked_simps [batch_simps, simp]:
  "Arrived (unranked r) = Arrived r" "arrivalSeq (unranked r) = arrivalSeq r"
  "response (unranked r) = response r" "Reset (unranked r) = Reset r"
  "streamID (unranked r) = streamID r"
  by (simp_all add: unranked_def Arrived_def)

lemma arrived_indices_Cons:
  "map ((+) i) (filter (\<lambda>k. Arrived ((r # rs) ! k)) [0..<length (r # rs)]) =
     (if Arrived r then [i] else []) @
     map ((+) (Suc i)) (filter (\<lambda>k. Arrived (rs ! k)) [0..<length rs])"
proof -
  have "[0..<length (r # rs)] = 0 # map Suc [0..<length rs]"
    by (simp add: upt_conv_Cons map_Suc_upt del: upt_Suc)
  then show ?thesis by (simp add: filter_map comp_def)
qed

lemma collectOrder_from:
  "list_all collectable rs \<Longrightarrow>
   collectOrder i rs =
     Inr (map unranked rs, map ((+) i) (filter (\<lambda>k. Arrived (rs ! k)) [0..<length rs]))"
proof (induction rs arbitrary: i)
  case Nil
  then show ?case by simp
next
  case (Cons r rs)
  then show ?case
    unfolding arrived_indices_Cons by (auto simp: collectable_def unranked_def)
qed

lemma collectOrder_Inr:
  "collectOrder i rs = Inr x \<Longrightarrow> list_all collectable rs"
  by (induction rs arbitrary: i x) (auto simp: collectable_def split: if_splits sum.splits prod.splits)

lemma collectOrder_ok:
  assumes "list_all collectable rs"
  shows "collectOrder 0 rs =
           Inr (map unranked rs, filter (\<lambda>k. Arrived (rs ! k)) [0..<length rs])"
  using collectOrder_from [OF assms, of 0] by (simp add: map_idI)

subsection \<open>Rank assignment\<close>

lemma length_assignRanks [simp]: "length (assignRanks k is rs) = length rs"
  by (induction "is" arbitrary: k rs) auto

lemma assignRanks_notin: "j \<notin> set is \<Longrightarrow> assignRanks k is rs ! j = rs ! j"
  by (induction "is" arbitrary: k rs) auto

lemma assignRanks_nth:
  assumes "distinct is" and "m < length is" and "is ! m < length rs"
  shows "assignRanks k is rs ! (is ! m) = (rs ! (is ! m))\<lparr>ArrivalRank := int (k + m)\<rparr>"
  using assms
proof (induction "is" arbitrary: k m rs)
  case Nil
  then show ?case by simp
next
  case (Cons i "is")
  show ?case
  proof (cases m)
    case 0
    with Cons.prems show ?thesis by (simp add: assignRanks_notin)
  next
    case (Suc m')
    with Cons.prems have "is ! m' \<noteq> i" by (auto dest: nth_mem)
    with Suc Cons.prems Cons.IH [of m' "rs[i := (rs ! i)\<lparr>ArrivalRank := int k\<rparr>]" "Suc k"]
    show ?thesis by simp
  qed
qed

lemma assignRanks_other_fields:
  assumes "distinct is" and "set is \<subseteq> {..<length rs}" and "j < length rs"
  shows "\<exists>k. assignRanks 0 is rs ! j = (rs ! j)\<lparr>ArrivalRank := k\<rparr>"
proof (cases "j \<in> set is")
  case True
  then obtain m where "m < length is" and "is ! m = j" by (auto simp: in_set_conv_nth)
  with assms assignRanks_nth [of "is" m rs 0] show ?thesis by auto
next
  case False
  then have "assignRanks 0 is rs ! j = (rs ! j)\<lparr>ArrivalRank := ArrivalRank (rs ! j)\<rparr>"
    by (simp add: assignRanks_notin)
  then show ?thesis by blast
qed

subsection \<open>Duplicate detection\<close>

lemma hasAdjacentDuplicate_sorted:
  "sorted xs \<Longrightarrow> hasAdjacentDuplicate xs \<longleftrightarrow> \<not> distinct xs"
proof (induction xs rule: hasAdjacentDuplicate.induct)
  case (1 x y zs)
  then show ?case by fastforce
qed auto

definition arrivedSeqs :: "Result list \<Rightarrow> int list" where
  "arrivedSeqs rs = map arrivalSeq (filter Arrived rs)"

lemma arrived_indices_seqs:
  "map (\<lambda>i. arrivalSeq (rs ! i)) (filter (\<lambda>k. Arrived (rs ! k)) [0..<length rs]) = arrivedSeqs rs"
proof -
  have "filter Arrived rs = map ((!) rs) (filter (\<lambda>k. Arrived (rs ! k)) [0..<length rs])"
    by (metis (no_types, lifting) comp_def filter_cong filter_map map_nth)
  then show ?thesis by (simp add: arrivedSeqs_def comp_def)
qed

definition arrival_sorted :: "Result list \<Rightarrow> nat list" where
  "arrival_sorted rs =
     sort_key (\<lambda>i. arrivalSeq (rs ! i)) (filter (\<lambda>k. Arrived (rs ! k)) [0..<length rs])"

lemma set_arrival_sorted: "set (arrival_sorted rs) = {i. i < length rs \<and> Arrived (rs ! i)}"
  by (auto simp: arrival_sorted_def)

lemma distinct_arrival_sorted: "distinct (arrival_sorted rs)"
  by (simp add: arrival_sorted_def)

lemma arrival_sorted_duplicate:
  "hasAdjacentDuplicate (map (\<lambda>i. arrivalSeq (rs ! i)) (arrival_sorted rs)) \<longleftrightarrow>
     \<not> distinct (arrivedSeqs rs)"
proof -
  let ?f = "\<lambda>i. arrivalSeq (rs ! i)"
  let ?idx = "filter (\<lambda>k. Arrived (rs ! k)) [0..<length rs]"
  have "mset (map ?f (arrival_sorted rs)) = mset (map ?f ?idx)"
    by (simp add: arrival_sorted_def)
  then have "distinct (map ?f (arrival_sorted rs)) = distinct (arrivedSeqs rs)"
    unfolding arrived_indices_seqs [symmetric] by (rule mset_eq_imp_distinct_iff)
  then show ?thesis
    by (simp add: hasAdjacentDuplicate_sorted arrival_sorted_def)
qed

text \<open>The functional description of \<open>newBatchResult\<close> that the properties below rest on.\<close>

lemma newBatchResult_unfold:
  assumes "list_all collectable rs"
  shows "newBatchResult rs =
     (if distinct (arrivedSeqs rs)
      then Inr \<lparr>Connection = 0, Results = assignRanks 0 (arrival_sorted rs) (map unranked rs),
               ArrivalOrder = arrival_sorted rs\<rparr>
      else Inl DuplicateArrivalSequence)"
proof -
  let ?idx = "filter (\<lambda>k. Arrived (rs ! k)) [0..<length rs]"
  have key: "sort_key (\<lambda>i. arrivalSeq (map unranked rs ! i)) ?idx = arrival_sorted rs"
    unfolding arrival_sorted_def by (rule sort_key_agree) auto
  have dup: "map (\<lambda>i. arrivalSeq (map unranked rs ! i)) (arrival_sorted rs) =
       map (\<lambda>i. arrivalSeq (rs ! i)) (arrival_sorted rs)"
    by (rule map_cong) (auto simp: set_arrival_sorted)
  show ?thesis
    using arrival_sorted_duplicate [of rs]
    by (simp add: newBatchResult_def collectOrder_ok [OF assms] key dup Let_def)
qed

lemma newBatchResult_InrD:
  assumes "newBatchResult rs = Inr b"
  shows "list_all collectable rs" and "distinct (arrivedSeqs rs)"
    and "b = \<lparr>Connection = 0, Results = assignRanks 0 (arrival_sorted rs) (map unranked rs),
              ArrivalOrder = arrival_sorted rs\<rparr>"
proof -
  show c: "list_all collectable rs"
    using assms by (auto simp: newBatchResult_def dest!: collectOrder_Inr split: sum.splits)
  show "distinct (arrivedSeqs rs)"
    and "b = \<lparr>Connection = 0, Results = assignRanks 0 (arrival_sorted rs) (map unranked rs),
              ArrivalOrder = arrival_sorted rs\<rparr>"
    using assms by (auto simp: newBatchResult_unfold [OF c] split: if_splits)
qed

lemma newBatchResult_length:
  "newBatchResult rs = Inr b \<Longrightarrow> length (Results b) = length rs"
  by (drule newBatchResult_InrD(3)) simp

lemma newBatchResult_rank_of_order:
  assumes "newBatchResult rs = Inr b" and "k < length (ArrivalOrder b)"
  shows "ArrivalRank (Results b ! (ArrivalOrder b ! k)) = int k"
proof -
  note b = newBatchResult_InrD(3) [OF assms(1)]
  have "ArrivalOrder b ! k \<in> set (arrival_sorted rs)" using assms(2) b by simp
  then have "ArrivalOrder b ! k < length rs" by (simp add: set_arrival_sorted)
  then show ?thesis
    using assignRanks_nth [OF distinct_arrival_sorted, of k rs "map unranked rs" 0] assms(2) b
    by simp
qed

lemma newBatchResult_unarrived:
  assumes "newBatchResult rs = Inr b" and "i < length rs" and "\<not> Arrived (rs ! i)"
  shows "Results b ! i = (rs ! i)\<lparr>ArrivalRank := -1\<rparr>"
  using assms newBatchResult_InrD(3) [OF assms(1)]
  by (simp add: assignRanks_notin set_arrival_sorted unranked_def)

lemma newBatchResult_fields:
  assumes "newBatchResult rs = Inr b" and "i < length rs"
  shows "\<exists>k. Results b ! i = (rs ! i)\<lparr>ArrivalRank := k\<rparr>"
proof (cases "Arrived (rs ! i)")
  case True
  have "set (arrival_sorted rs) \<subseteq> {..<length (map unranked rs)}"
    by (auto simp: set_arrival_sorted)
  from assignRanks_other_fields [OF distinct_arrival_sorted this, of i] True assms
  show ?thesis by (auto simp: newBatchResult_InrD(3) [OF assms(1)] unranked_def)
next
  case False
  with newBatchResult_unarrived [OF assms] show ?thesis by blast
qed

lemma newBatchResult_Arrived:
  assumes "newBatchResult rs = Inr b" and "i < length rs"
  shows "Arrived (Results b ! i) = Arrived (rs ! i)"
  using newBatchResult_fields [OF assms] by (auto simp: Arrived_def)

lemma newBatchResult_rank_obtain:
  assumes "newBatchResult rs = Inr b" and "i < length rs" and "Arrived (rs ! i)"
  obtains k where "k < length (arrival_sorted rs)" and "arrival_sorted rs ! k = i"
    and "ArrivalRank (Results b ! i) = int k"
proof -
  have "i \<in> set (arrival_sorted rs)" using assms by (simp add: set_arrival_sorted)
  then obtain k where "k < length (arrival_sorted rs)" and "arrival_sorted rs ! k = i"
    by (auto simp: in_set_conv_nth)
  with that newBatchResult_rank_of_order [OF assms(1), of k] newBatchResult_InrD(3) [OF assms(1)]
  show ?thesis by auto
qed

lemma ranksMatch_iff:
  "ranksMatch rs r order \<longleftrightarrow>
     (\<forall>k<length order. order ! k < length rs \<and> ArrivalRank (rs ! (order ! k)) = int (r + k))"
proof (induction order arbitrary: r)
  case Nil
  then show ?case by simp
next
  case (Cons i order)
  show ?case
    unfolding ranksMatch.simps Cons.IH
    by (auto simp: less_Suc_eq_0_disj not_le)
qed

text \<open>A full arrival order is exactly a permutation of the inputs that inverts the ranks.\<close>

lemma FullArrivalOrder_iff:
  "FullArrivalOrder b = Some order \<longleftrightarrow>
     order = ArrivalOrder b \<and> list_all Arrived (Results b) \<and>
     length (ArrivalOrder b) = length (Results b) \<and>
     (\<forall>k<length (ArrivalOrder b). ArrivalOrder b ! k < length (Results b) \<and>
        ArrivalRank (Results b ! (ArrivalOrder b ! k)) = int k)"
  by (auto simp: FullArrivalOrder_def AllResponsesArrived_def ranksMatch_iff)

lemma FullArrivalOrder_perm:
  assumes "FullArrivalOrder b = Some order"
  shows "is_perm (length (Results b)) order"
  using assms unfolding FullArrivalOrder_iff
  by (intro is_permI) (auto, metis of_nat_eq_iff)

lemma FullArrivalOrder_rank:
  assumes "FullArrivalOrder b = Some order" and "i < length (Results b)"
  obtains k where "k < length (Results b)" and "order ! k = i"
    and "ArrivalRank (Results b ! i) = int k"
proof -
  from is_perm_surj [OF FullArrivalOrder_perm [OF assms(1)] assms(2)]
  obtain k where k: "k < length (Results b)" "order ! k = i" .
  with that assms(1) show ?thesis unfolding FullArrivalOrder_iff by auto
qed

lemma newBatchResult_FullArrivalOrder:
  assumes b: "newBatchResult rs = Inr b"
  shows "FullArrivalOrder b = (if list_all Arrived rs then Some (ArrivalOrder b) else None)"
proof -
  note order = newBatchResult_InrD(3) [OF b, THEN arg_cong, of ArrivalOrder, simplified]
  have all: "list_all Arrived (Results b) = list_all Arrived rs"
    using newBatchResult_Arrived [OF b] newBatchResult_length [OF b]
    by (auto simp: list_all_length)
  show ?thesis
  proof (cases "list_all Arrived rs")
    case True
    then have "length (arrival_sorted rs) = length rs"
      by (simp add: arrival_sorted_def list_all_length filter_True)
    moreover have "\<forall>k<length (ArrivalOrder b). ArrivalOrder b ! k < length (Results b)"
      unfolding newBatchResult_length [OF b] order
      by (auto dest!: nth_mem simp: set_arrival_sorted)
    ultimately have "FullArrivalOrder b = Some (ArrivalOrder b)"
      unfolding FullArrivalOrder_iff using True all newBatchResult_rank_of_order [OF b]
        newBatchResult_length [OF b] order by simp
    with True show ?thesis by simp
  next
    case False
    with all show ?thesis by (simp add: FullArrivalOrder_def AllResponsesArrived_def)
  qed
qed

lemma well_formed_iff:
  "list_all collectable rs \<and> distinct (arrivedSeqs rs) \<longleftrightarrow>
     list_all (\<lambda>r. if Arrived r then 0 \<le> arrivalSeq r else Reset r \<noteq> None) rs \<and> distinct (map arrivalSeq (filter Arrived rs))"
  by (simp only: collectable_def [abs_def] arrivedSeqs_def)

lemma newBatchResult_increasing:
  assumes "newBatchResult rs = Inr b"
  shows "sorted_wrt (<) (map (\<lambda>i. arrivalSeq (rs ! i)) (ArrivalOrder b))"
proof -
  have srt: "sorted (map (\<lambda>i. arrivalSeq (rs ! i)) (arrival_sorted rs))" by (simp add: arrival_sorted_def)
  have "distinct (map (\<lambda>i. arrivalSeq (rs ! i)) (arrival_sorted rs))"
    using newBatchResult_InrD(2) [OF assms] arrival_sorted_duplicate [of rs] hasAdjacentDuplicate_sorted [OF srt] by blast
  then show ?thesis using srt newBatchResult_InrD(3) [OF assms] by (simp add: strict_sorted_iff)
qed

subsection \<open>Properties\<close>

text \<open>C8. \<open>newBatchResult\<close> panics exactly on malformed results: a negative arrival sequence, a result with neither response nor
  reset, or two equal sequences. Otherwise \<open>ArrivalOrder\<close> lists the arrived requests, each once, in the order of their arrival
  sequences; the request at place \<open>k\<close> carries rank \<open>k\<close>, a request that never arrived carries rank \<open>-1\<close>, and nothing but the
  rank of a result changes.\<close>

theorem newBatchResult_ranks:
  "case newBatchResult rs of
     Inl _ \<Rightarrow> \<not> (list_all (\<lambda>r. if Arrived r then 0 \<le> arrivalSeq r else Reset r \<noteq> None) rs \<and>
                distinct (map arrivalSeq (filter Arrived rs)))
   | Inr b \<Rightarrow>
       list_all (\<lambda>r. if Arrived r then 0 \<le> arrivalSeq r else Reset r \<noteq> None) rs \<and>
       distinct (map arrivalSeq (filter Arrived rs)) \<and>
       set (ArrivalOrder b) = {i. i < length rs \<and> Arrived (rs ! i)} \<and>
       sorted_wrt (<) (map (\<lambda>i. arrivalSeq (rs ! i)) (ArrivalOrder b)) \<and>
       list_all (\<lambda>k. ArrivalRank (Results b ! (ArrivalOrder b ! k)) = int k) [0..<length (ArrivalOrder b)] \<and>
       list_all2 (\<lambda>r r'. \<exists>k. r' = r\<lparr>ArrivalRank := k\<rparr> \<and> (Arrived r \<or> k = -1)) rs (Results b)"
proof (cases "newBatchResult rs")
  case (Inl p)
  with newBatchResult_unfold [of rs] have "\<not> (list_all collectable rs \<and> distinct (arrivedSeqs rs))" by auto
  then show ?thesis unfolding Inl sum.case well_formed_iff .
next
  case (Inr b)
  have "\<exists>k. Results b ! i = (rs ! i)\<lparr>ArrivalRank := k\<rparr> \<and> (Arrived (rs ! i) \<or> k = -1)" if "i < length rs" for i
    using newBatchResult_fields [OF Inr that] newBatchResult_unarrived [OF Inr that] by blast
  then have "list_all2 (\<lambda>r r'. \<exists>k. r' = r\<lparr>ArrivalRank := k\<rparr> \<and> (Arrived r \<or> k = -1)) rs (Results b)"
    by (simp add: list_all2_conv_all_nth newBatchResult_length [OF Inr])
  moreover have "set (ArrivalOrder b) = {i. i < length rs \<and> Arrived (rs ! i)}"
    by (simp add: newBatchResult_InrD(3) [OF Inr] set_arrival_sorted)
  moreover have "list_all (\<lambda>k. ArrivalRank (Results b ! (ArrivalOrder b ! k)) = int k) [0..<length (ArrivalOrder b)]"
    using newBatchResult_rank_of_order [OF Inr] by (simp add: list_all_iff)
  ultimately show ?thesis
    unfolding Inr sum.case conj_assoc [symmetric] well_formed_iff [symmetric]
    using newBatchResult_InrD(1,2) [OF Inr] newBatchResult_increasing [OF Inr] by blast
qed

definition demo_response :: Response where
  "demo_response = \<lparr>Status = ''200 OK'', StatusCode = 200, Header = None, Trailer = None,
     ContentLength = -1, Body = \<lparr>Captured = [], BytesReceived = 0, SHA256 = []\<rparr>\<rparr>"

definition demo_arrived :: "int \<Rightarrow> Result" where
  "demo_arrived q = \<lparr>response = Some demo_response, ArrivalRank = 0, Reset = None,
     arrivalSeq = q, streamID = 1\<rparr>"

definition demo_reset :: Result where
  "demo_reset = \<lparr>response = None, ArrivalRank = 0,
     Reset = Some \<lparr>StreamID = 3, Code = 8\<rparr>, arrivalSeq = 0, streamID = 3\<rparr>"

definition demo_results :: "Result list" where
  "demo_results = [demo_arrived 7, demo_reset, demo_arrived 2]"

definition demo_batch :: BatchResult where
  "demo_batch = \<lparr>Connection = 0,
     Results = [(demo_arrived 7)\<lparr>ArrivalRank := 1\<rparr>, demo_reset\<lparr>ArrivalRank := -1\<rparr>,
       (demo_arrived 2)\<lparr>ArrivalRank := 0\<rparr>],
     ArrivalOrder = [2, 0]\<rparr>"

lemma demo_batch_eq: "newBatchResult demo_results = Inr demo_batch"
  by (simp add: newBatchResult_def demo_results_def demo_batch_def demo_arrived_def demo_reset_def
      Arrived_def)

text \<open>Ranks are faithful to the wire: of two arrived requests, the one with the smaller rank is
  exactly the one whose HEADERS were read first.\<close>

theorem newBatchResult_rank_less:
  assumes "newBatchResult rs = Inr b" and "i < length rs" and "j < length rs"
    and "Arrived (rs ! i)" and "Arrived (rs ! j)"
  shows "ArrivalRank (Results b ! i) < ArrivalRank (Results b ! j) \<longleftrightarrow>
           arrivalSeq (rs ! i) < arrivalSeq (rs ! j)"
proof -
  let ?f = "\<lambda>i. arrivalSeq (rs ! i)"
  obtain k where k: "k < length (arrival_sorted rs)" "arrival_sorted rs ! k = i"
      "ArrivalRank (Results b ! i) = int k"
    using newBatchResult_rank_obtain assms(1,2,4) .
  obtain l where l: "l < length (arrival_sorted rs)" "arrival_sorted rs ! l = j"
      "ArrivalRank (Results b ! j) = int l"
    using newBatchResult_rank_obtain assms(1,3,5) .
  have "sorted_wrt (<) (map ?f (arrival_sorted rs))"
    using newBatchResult_increasing [OF assms(1)] newBatchResult_InrD(3) [OF assms(1)] by simp
  then have "k < l \<longleftrightarrow> ?f (arrival_sorted rs ! k) < ?f (arrival_sorted rs ! l)"
    using k(1) l(1) strict_sorted_index_less [of ?f "arrival_sorted rs" k l] by blast
  with k l show ?thesis by simp
qed

theorem newBatchResult_rank_less_witness:
  "ArrivalRank (Results demo_batch ! 2) < ArrivalRank (Results demo_batch ! 0) \<longleftrightarrow>
     arrivalSeq (demo_results ! 2) < arrivalSeq (demo_results ! 0)"
  by (rule newBatchResult_rank_less [OF demo_batch_eq])
    (simp_all add: demo_results_def demo_arrived_def Arrived_def)

end
