(* ===== verification/Arrangement.thy ===== *)
theory Arrangement
  imports BatchResult
begin

text \<open>
  Assignment of requests to stream positions (\<open>tth2/arrangement.go\<close>). An arrangement is a list
  indexed by position whose entry is the request flushed there. The arranger keeps the cycle's base
  permutation and the buffer it hands out; the random source is the sequence of indices its
  \<open>Shuffle\<close> draws, \<open>draw i\<close> standing for the value drawn at step \<open>i\<close> of the Fisher-Yates loop,
  reduced to the range \<open>0..i\<close> the generator promises. Contract: whatever the draws, every
  arrangement is a permutation, a rotation cycle is balanced, and scattering inverts arranging.
\<close>

datatype ArrangementPolicy = ArrangeRotate | ArrangeNone | ArrangeRandom

definition balancesExactly :: "ArrangementPolicy \<Rightarrow> bool" where
  "balancesExactly p \<longleftrightarrow> p = ArrangeRotate"

definition policyUnit :: "ArrangementPolicy \<Rightarrow> nat \<Rightarrow> nat" where
  "policyUnit p n = (if balancesExactly p then n else 1)"

text \<open>\<open>WithArrangementPolicy\<close> takes the policy's integer value and panics (\<open>None\<close>) on an undefined one.\<close>

definition WithArrangementPolicy :: "int \<Rightarrow> ArrangementPolicy option" where
  "WithArrangementPolicy p =
     (if p < 0 \<or> p > 2 then None
      else Some (if p = 0 then ArrangeRotate else if p = 1 then ArrangeNone else ArrangeRandom))"

record arranger =
  policy :: ArrangementPolicy
  arr_n :: nat
  base :: "nat list"
  buf :: "nat list"

definition identity :: "nat \<Rightarrow> nat list" where
  "identity n = [0..<n]"

definition newArranger :: "ArrangementPolicy \<Rightarrow> nat \<Rightarrow> arranger" where
  "newArranger p n = \<lparr>policy = p, arr_n = n,
     base = (if p = ArrangeRotate then identity n else []), buf = replicate n 0\<rparr>"

text \<open>\<open>rand.Shuffle\<close>: for \<open>i\<close> from \<open>n - 1\<close> down to \<open>1\<close>, swap entry \<open>i\<close> with a drawn entry \<open>j \<le> i\<close>.\<close>

definition swapEntries :: "nat list \<Rightarrow> nat \<Rightarrow> nat \<Rightarrow> nat list" where
  "swapEntries xs i j = xs[i := xs ! j, j := xs ! i]"

fun shuffleFrom :: "(nat \<Rightarrow> nat) \<Rightarrow> nat \<Rightarrow> nat list \<Rightarrow> nat list" where
  "shuffleFrom draw 0 xs = xs"
| "shuffleFrom draw (Suc i) xs =
     shuffleFrom draw i (swapEntries xs (Suc i) (draw (Suc i) mod Suc (Suc i)))"

definition Shuffle :: "(nat \<Rightarrow> nat) \<Rightarrow> nat \<Rightarrow> nat list \<Rightarrow> nat list" where
  "Shuffle draw n xs = shuffleFrom draw (n - 1) xs"

definition startCycle :: "(nat \<Rightarrow> nat) \<Rightarrow> arranger \<Rightarrow> arranger" where
  "startCycle draw a =
     (if policy a = ArrangeRotate then a\<lparr>base := Shuffle draw (arr_n a) (base a)\<rparr> else a)"

text \<open>\<open>next\<close> rewrites the buffer and hands it out; the result is the arranger with its new buffer.\<close>

definition arrangerNext :: "(nat \<Rightarrow> nat) \<Rightarrow> nat \<Rightarrow> arranger \<Rightarrow> arranger" where
  "arrangerNext draw shift a =
     (case policy a of
        ArrangeNone \<Rightarrow> a\<lparr>buf := map (\<lambda>p. p) [0..<length (buf a)]\<rparr>
      | ArrangeRandom \<Rightarrow>
          a\<lparr>buf := Shuffle draw (arr_n a) (map (\<lambda>p. p) [0..<length (buf a)])\<rparr>
      | ArrangeRotate \<Rightarrow>
          a\<lparr>buf := map (\<lambda>p. base a ! ((p + shift) mod arr_n a)) [0..<length (buf a)]\<rparr>)"

definition arrange :: "'r list \<Rightarrow> nat list \<Rightarrow> 'r list" where
  "arrange reqs arrangement = map (\<lambda>i. reqs ! i) arrangement"

definition zeroResult :: Result where
  "zeroResult = \<lparr>response = None, ArrivalRank = 0, Reset = None, arrivalSeq = 0, streamID = 0\<rparr>"

definition scatter :: "Result list \<Rightarrow> nat list \<Rightarrow> Result list" where
  "scatter results arrangement =
     scatter_from 0 (\<lambda>position. results ! position) arrangement
       (replicate (length arrangement) zeroResult)"

definition scatterBatch :: "BatchResult \<Rightarrow> nat list \<Rightarrow> BatchResult" where
  "scatterBatch b arrangement =
     \<lparr>Connection = Connection b, Results = scatter (Results b) arrangement,
      ArrivalOrder = map (\<lambda>position. arrangement ! position) (ArrivalOrder b)\<rparr>"

text \<open>The calls a worker makes on its arranger, in any order.\<close>

datatype arranger_call = StartCycle "nat \<Rightarrow> nat" | Next "nat \<Rightarrow> nat" nat

fun arrangerCall :: "arranger \<Rightarrow> arranger_call \<Rightarrow> arranger" where
  "arrangerCall a (StartCycle draw) = startCycle draw a"
| "arrangerCall a (Next draw shift) = arrangerNext draw shift a"

text \<open>One measured cycle: a fresh base, then one arrangement per shift.\<close>

fun cycleFrom :: "(nat \<Rightarrow> nat) \<Rightarrow> nat \<Rightarrow> nat \<Rightarrow> arranger \<Rightarrow> nat list list" where
  "cycleFrom draw shift 0 a = []"
| "cycleFrom draw shift (Suc k) a =
     (let a' = arrangerNext draw shift a in buf a' # cycleFrom draw (Suc shift) k a')"

definition rotationCycle :: "(nat \<Rightarrow> nat) \<Rightarrow> arranger \<Rightarrow> nat list list" where
  "rotationCycle draw a = cycleFrom draw 0 (policyUnit (policy a) (arr_n a)) (startCycle draw a)"

subsection \<open>Shuffling permutes\<close>

lemma mset_swapEntries:
  "i < length xs \<Longrightarrow> j < length xs \<Longrightarrow> mset (swapEntries xs i j) = mset xs"
  unfolding swapEntries_def by (rule mset_swap)

lemma length_swapEntries [simp]: "length (swapEntries xs i j) = length xs"
  by (simp add: swapEntries_def)

lemma mset_shuffleFrom: "i < length xs \<or> i = 0 \<Longrightarrow> mset (shuffleFrom draw i xs) = mset xs"
proof (induction i arbitrary: xs)
  case 0
  then show ?case by simp
next
  case (Suc i)
  let ?j = "draw (Suc i) mod Suc (Suc i)"
  have "?j < Suc (Suc i)" by (rule mod_less_divisor) simp
  with Suc.prems have "?j < length xs" and "Suc i < length xs" by linarith+
  with Suc.IH [of "swapEntries xs (Suc i) ?j"] show ?case by (simp add: mset_swapEntries)
qed

lemma mset_Shuffle: "length xs = n \<Longrightarrow> mset (Shuffle draw n xs) = mset xs"
  unfolding Shuffle_def by (rule mset_shuffleFrom) auto

lemma length_Shuffle [simp]: "length xs = n \<Longrightarrow> length (Shuffle draw n xs) = n"
  by (metis mset_Shuffle size_mset)

lemma is_perm_Shuffle: "is_perm n xs \<Longrightarrow> is_perm n (Shuffle draw n xs)"
  by (rule is_perm_mset [of n xs]) (auto intro: mset_Shuffle dest: is_perm_length)

subsection \<open>The arranger's invariant\<close>

definition arranger_inv :: "nat \<Rightarrow> arranger \<Rightarrow> bool" where
  "arranger_inv n a \<longleftrightarrow> arr_n a = n \<and> length (buf a) = n \<and>
     (policy a = ArrangeRotate \<longrightarrow> is_perm n (base a))"

lemma arranger_inv_new: "arranger_inv n (newArranger p n)"
  by (simp add: arranger_inv_def newArranger_def identity_def)

lemma arranger_inv_start: "arranger_inv n a \<Longrightarrow> arranger_inv n (startCycle draw a)"
  by (simp add: arranger_inv_def startCycle_def is_perm_Shuffle)

lemma arranger_inv_next: "arranger_inv n a \<Longrightarrow> arranger_inv n (arrangerNext draw shift a)"
  by (auto simp: arranger_inv_def arrangerNext_def split: ArrangementPolicy.splits)

lemma is_perm_rotate_entries:
  assumes "is_perm n b"
  shows "is_perm n (map (\<lambda>p. b ! ((p + s) mod n)) [0..<n])"
proof (rule is_permI)
  fix i assume "i < n"
  then have "(i + s) mod n < n" by simp
  then show "map (\<lambda>p. b ! ((p + s) mod n)) [0..<n] ! i < n"
    using \<open>i < n\<close> is_perm_nth [OF assms] by simp
next
  fix i j assume ij: "i < n" "j < n"
    and eq: "map (\<lambda>p. b ! ((p + s) mod n)) [0..<n] ! i = map (\<lambda>p. b ! ((p + s) mod n)) [0..<n] ! j"
  then have "(i + s) mod n = (j + s) mod n"
    using is_perm_inj [OF assms, of "(i + s) mod n" "(j + s) mod n"] by simp
  then show "i = j" using ij by (rule mod_add_right_inj)
qed simp

lemma arrangerNext_perm:
  assumes "arranger_inv n a"
  shows "is_perm n (buf (arrangerNext draw shift a))"
proof (cases "policy a")
  case ArrangeRotate
  with assms show ?thesis
    by (simp add: arranger_inv_def arrangerNext_def is_perm_rotate_entries)
next
  case ArrangeNone
  with assms show ?thesis by (simp add: arranger_inv_def arrangerNext_def)
next
  case ArrangeRandom
  with assms show ?thesis by (simp add: arranger_inv_def arrangerNext_def is_perm_Shuffle)
qed

text \<open>The arranger is an event machine: the contract holds for every sequence of calls.\<close>

interpretation arrangerM: event_machine arrangerCall "\<lambda>_. True" "arranger_inv n" "newArranger p n" for p n
proof unfold_locales
  show "arranger_inv n (newArranger p n)" by (rule arranger_inv_new)
next
  fix a c assume "arranger_inv n a"
  then show "arranger_inv n (arrangerCall a c)"
    by (cases c) (auto intro: arranger_inv_start arranger_inv_next)
qed

subsection \<open>Rotation cycles\<close>

lemma arrangerNext_frame [simp]:
  "policy (arrangerNext draw shift a) = policy a" "arr_n (arrangerNext draw shift a) = arr_n a"
  "base (arrangerNext draw shift a) = base a"
  by (auto simp: arrangerNext_def split: ArrangementPolicy.splits)

lemma cycleFrom_rotate:
  "policy a = ArrangeRotate \<Longrightarrow> length (buf a) = arr_n a \<Longrightarrow>
   cycleFrom draw s k a =
     map (\<lambda>t. map (\<lambda>p. base a ! ((p + t) mod arr_n a)) [0..<arr_n a]) [s..<s + k]"
proof (induction k arbitrary: s a)
  case 0
  then show ?case by simp
next
  case (Suc k)
  then show ?case
    by (simp add: Let_def upt_conv_Cons arrangerNext_def del: upt_Suc)
qed

lemma rotationCycle_eq:
  assumes "arranger_inv n a" and "policy a = ArrangeRotate"
  shows "rotationCycle draw a =
     map (\<lambda>t. map (\<lambda>p. base (startCycle draw a) ! ((p + t) mod n)) [0..<n]) [0..<n]"
proof -
  have "policy (startCycle draw a) = ArrangeRotate"
    and "length (buf (startCycle draw a)) = n" and "arr_n (startCycle draw a) = n"
    using assms by (simp_all add: startCycle_def arranger_inv_def)
  with cycleFrom_rotate [of "startCycle draw a" draw 0 n] assms show ?thesis
    by (simp add: rotationCycle_def policyUnit_def balancesExactly_def arranger_inv_def)
qed

lemma rotation_shift_unique:
  assumes "p < n" and "q < n"
  shows "\<exists>!t. t < n \<and> (p + t) mod n = (q :: nat)"
proof (rule ex_ex1I)
  show "\<exists>t. t < n \<and> (p + t) mod n = q"
  proof (cases "p \<le> q")
    case True
    with assms show ?thesis by (intro exI [of _ "q - p"]) auto
  next
    case False
    with assms have "(p + (n + q - p)) mod n = q" by simp
    with False assms show ?thesis by (intro exI [of _ "n + q - p"]) auto
  qed
next
  fix s t assume st: "s < n \<and> (p + s) mod n = q" "t < n \<and> (p + t) mod n = q"
  then show "s = t" using mod_add_right_inj [of s p n t] by (simp add: add.commute)
qed

subsection \<open>Scattering inverts arranging\<close>

lemma length_scatter [simp]: "length (scatter rs arr) = length arr"
  by (simp add: scatter_def)

lemma scatter_nth:
  assumes "is_perm n arr" and "p < n"
  shows "scatter rs arr ! (arr ! p) = rs ! p"
  using scatter_from_nth [of arr p "replicate (length arr) zeroResult" 0 "\<lambda>q. rs ! q"]
    is_perm_nth [OF assms] is_perm_length [OF assms(1)] is_perm_distinct [OF assms(1)] assms(2)
  by (simp add: scatter_def)

lemma scatter_arrange:
  assumes "is_perm (length reqs) arr"
  shows "scatter (map f (arrange reqs arr)) arr = map f reqs"
proof (rule nth_equalityI)
  show "length (scatter (map f (arrange reqs arr)) arr) = length (map f reqs)"
    using is_perm_length [OF assms] by simp
next
  fix i assume "i < length (scatter (map f (arrange reqs arr)) arr)"
  then have "i < length reqs" using is_perm_length [OF assms] by simp
  then obtain p where "p < length reqs" and "arr ! p = i" using is_perm_surj [OF assms] by blast
  with \<open>i < length reqs\<close> scatter_nth [OF assms, of p "map f (arrange reqs arr)"]
    is_perm_length [OF assms]
  show "scatter (map f (arrange reqs arr)) arr ! i = map f reqs ! i"
    by (simp add: arrange_def)
qed

lemma scatterBatch_FullArrivalOrder:
  assumes "is_perm (length (Results b)) arr" and "FullArrivalOrder b = Some order"
  shows "FullArrivalOrder (scatterBatch b arr) = Some (map ((!) arr) order)"
proof -
  let ?n = "length (Results b)"
  note full = assms(2) [unfolded FullArrivalOrder_iff]
  have all: "list_all Arrived (scatter (Results b) arr)"
    unfolding list_all_length
  proof (intro allI impI)
    fix i assume "i < length (scatter (Results b) arr)"
    then obtain p where "p < ?n" and "arr ! p = i"
      using is_perm_surj [OF assms(1)] is_perm_length [OF assms(1)] by auto
    with full scatter_nth [OF assms(1)] show "Arrived (scatter (Results b) arr ! i)"
      by (auto simp: list_all_length)
  qed
  have "ArrivalRank (scatter (Results b) arr ! (arr ! (order ! k))) = int k"
    if "k < ?n" for k
    using full that scatter_nth [OF assms(1), of "order ! k"] by simp
  with full all is_perm_nth [OF assms(1)] is_perm_length [OF assms(1)] show ?thesis
    by (simp add: FullArrivalOrder_iff scatterBatch_def)
qed

subsection \<open>Properties\<close>

text \<open>C9. Under every policy, whatever the random source draws and in whatever order the worker calls
  \<open>startCycle\<close> and \<open>next\<close>, the arrangement handed out is a permutation of the requests.\<close>

theorem arrangement_is_permutation:
  "is_perm n (buf (arrangerNext draw shift (foldl arrangerCall (newArranger p n) calls)))"
  by (rule arrangerNext_perm, rule arrangerM.inv_run) (simp add: list_all_iff)

text \<open>C7. A rotation cycle is exactly balanced: it has one trial per request, and every request
  occupies every stream position in exactly one of them.\<close>

theorem rotation_cycle_balanced:
  assumes "r < n" and "p < n"
  shows "let c = rotationCycle draw (foldl arrangerCall (newArranger ArrangeRotate n) calls) in
     length c = n \<and> (\<exists>!t. t < n \<and> c ! t ! p = r)"
proof -
  let ?a = "foldl arrangerCall (newArranger ArrangeRotate n) calls"
  have pol: "policy ?a = ArrangeRotate"
  proof (induction calls rule: rev_induct)
    case Nil
    then show ?case by (simp add: newArranger_def)
  next
    case (snoc c calls)
    then show ?case by (cases c) (simp_all add: startCycle_def)
  qed
  have a: "arranger_inv n ?a" by (rule arrangerM.inv_run) (simp add: list_all_iff)
  let ?b = "base (startCycle draw ?a)"
  have b: "is_perm n ?b"
    using arranger_inv_start [OF a, of draw] pol
    by (auto simp: arranger_inv_def startCycle_def)
  obtain q where q: "q < n" "?b ! q = r" using is_perm_surj [OF b assms(1)] .
  have iff: "?b ! ((p + t) mod n) = r \<longleftrightarrow> (p + t) mod n = q" for t
    using is_perm_inj [OF b, of "(p + t) mod n" q] q assms by auto
  have entry: "rotationCycle draw ?a ! t ! p = ?b ! ((p + t) mod n)" if "t < n" for t
    using that assms(2) by (simp add: rotationCycle_eq [OF a pol])
  have "(\<exists>!t. t < n \<and> rotationCycle draw ?a ! t ! p = r) = (\<exists>!t. t < n \<and> (p + t) mod n = q)"
    by (intro arg_cong [where f = Ex1] ext conj_cong) (simp_all add: entry iff)
  then have "\<exists>!t. t < n \<and> rotationCycle draw ?a ! t ! p = r"
    using rotation_shift_unique [OF assms(2) q(1)] by blast
  moreover have "length (rotationCycle draw ?a) = n"
    by (simp add: rotationCycle_eq [OF a pol])
  ultimately show ?thesis unfolding Let_def by blast
qed

theorem rotation_cycle_balanced_witness:
  "let c = rotationCycle (\<lambda>i. 7 * i) (foldl arrangerCall (newArranger ArrangeRotate 3) []) in
     length c = 3 \<and> (\<exists>!t. t < 3 \<and> c ! t ! 1 = 2)"
  by (rule rotation_cycle_balanced) simp_all

text \<open>Re-keying a batch from stream positions to requests loses nothing: each request gets the
  result of the stream that carried it, and a full arrival order stays a full arrival order, now in
  terms of requests.\<close>

theorem scatter_rekeys:
  assumes "is_perm (length reqs) arr" and "Results b = map f (arrange reqs arr)"
    and "FullArrivalOrder b = Some order"
  shows "Results (scatterBatch b arr) = map f reqs \<and>
    FullArrivalOrder (scatterBatch b arr) = Some (map ((!) arr) order)"
proof -
  have "length (Results b) = length reqs"
    using assms(1,2) is_perm_length by (simp add: arrange_def)
  with assms scatterBatch_FullArrivalOrder [of b arr order] scatter_arrange [OF assms(1), of f]
  show ?thesis by (simp add: scatterBatch_def)
qed

definition demo_full_batch :: BatchResult where
  "demo_full_batch = \<lparr>Connection = 1, Results = map (\<lambda>q. (demo_arrived q)\<lparr>ArrivalRank := q\<rparr>)
     (arrange [1, 0] [1, 0]), ArrivalOrder = [0, 1]\<rparr>"

theorem scatter_rekeys_witness:
  "Results (scatterBatch demo_full_batch [1, 0]) =
     map (\<lambda>q. (demo_arrived q)\<lparr>ArrivalRank := q\<rparr>) [1, 0] \<and>
   FullArrivalOrder (scatterBatch demo_full_batch [1, 0]) = Some (map ((!) [1, 0]) [0, 1])"
proof (rule scatter_rekeys)
  show "is_perm (length [1, 0 :: int]) [1, 0]" by (simp add: is_perm_def)
  show "Results demo_full_batch =
      map (\<lambda>q. (demo_arrived q)\<lparr>ArrivalRank := q\<rparr>) (arrange [1, 0] [1, 0])"
    by (simp add: demo_full_batch_def)
  show "FullArrivalOrder demo_full_batch = Some [0, 1]"
    by (simp add: FullArrivalOrder_def AllResponsesArrived_def demo_full_batch_def arrange_def
        demo_arrived_def Arrived_def)
qed

end
