(* ===== verification/TrialStream.thy ===== *)
theory TrialStream
  imports Arrangement
begin

text \<open>
  A run of trials (\<open>tth2/trials.go\<close>, \<open>tth2/trialstream.go\<close>): its plan (validation, unit of
  distribution, planned connections), the assembly of one trial, the running tally, and the worker
  loop that draws blocks of trials from a counter shared by all workers. The workers interleave
  freely: \<open>work_step\<close> has one rule per atomic action of the loop in \<open>TrialStream.work\<close>.
  A trial is a batch result extended with its coordinates, as in the source; an error value is a
  string. The connection handling inside a trial is not part of this theory.
\<close>

record TrialSummary =
  Trials :: nat
  RankCounts :: "nat list list"
  PositionRankCounts :: "nat list list"
  FailedTrials :: nat
  ResetCounts :: "nat list"

record Trial = BatchResult +
  arrangement :: "nat list"
  Index :: int
  Cycle :: int
  Shift :: int
  Conn :: int
  Warmup :: bool
  Err :: "string option"

definition newRankMatrix :: "nat \<Rightarrow> nat list list" where
  "newRankMatrix n = replicate n (replicate n 0)"

definition newTrialSummary :: "nat \<Rightarrow> TrialSummary" where
  "newTrialSummary n = \<lparr>Trials = 0, RankCounts = newRankMatrix n,
     PositionRankCounts = newRankMatrix n, FailedTrials = 0, ResetCounts = replicate n 0\<rparr>"

definition noCoord :: int where
  "noCoord = -1"

text \<open>\<open>coords\<close> and \<open>newTrial\<close> are closures of \<open>TrialStream.work\<close>.\<close>

definition coords :: "ArrangementPolicy \<Rightarrow> int \<Rightarrow> int \<Rightarrow> int \<times> int" where
  "coords p block shift = (if balancesExactly p then (block, shift) else (noCoord, noCoord))"

definition zeroBatch :: BatchResult where
  "zeroBatch = \<lparr>Connection = 0, Results = [], ArrivalOrder = []\<rparr>"

definition newTrial ::
    "BatchResult option \<Rightarrow> nat list \<Rightarrow> string option \<Rightarrow> int \<Rightarrow> int \<Rightarrow> int \<Rightarrow> int \<Rightarrow> Trial" where
  "newTrial batch arr err index cycle shift conn =
     BatchResult.extend
       (case batch of None \<Rightarrow> zeroBatch | Some b \<Rightarrow> scatterBatch b arr)
       (Trial.fields arr index cycle shift conn (index = noCoord) err)"

definition bumpAt :: "nat list \<Rightarrow> nat \<Rightarrow> nat list" where
  "bumpAt xs i = xs[i := xs ! i + 1]"

definition bumpMatrix :: "nat list list \<Rightarrow> nat \<Rightarrow> nat \<Rightarrow> nat list list" where
  "bumpMatrix m i j = m[i := bumpAt (m ! i) j]"

fun tallyResets :: "nat \<Rightarrow> Result list \<Rightarrow> nat list \<Rightarrow> nat list" where
  "tallyResets i [] counts = counts"
| "tallyResets i (r # rs) counts =
     tallyResets (Suc i) rs (if Reset r \<noteq> None then bumpAt counts i else counts)"

fun tallyRanks :: "nat \<Rightarrow> Result list \<Rightarrow> nat list list \<Rightarrow> nat list list" where
  "tallyRanks i [] m = m"
| "tallyRanks i (r # rs) m = tallyRanks (Suc i) rs (bumpMatrix m i (nat (ArrivalRank r)))"

fun tallyPositions :: "nat \<Rightarrow> Result list \<Rightarrow> nat list \<Rightarrow> nat list list \<Rightarrow> nat list list" where
  "tallyPositions position results [] m = m"
| "tallyPositions position results (i # is) m =
     tallyPositions (Suc position) results is
       (bumpMatrix m position (nat (ArrivalRank (results ! i))))"

definition tally :: "TrialSummary \<Rightarrow> Trial \<Rightarrow> TrialSummary" where
  "tally s t =
     (if Warmup t then s
      else if Err t \<noteq> None \<or> FullArrivalOrder (BatchResult.truncate t) = None then
        s\<lparr>FailedTrials := FailedTrials s + 1,
          ResetCounts := tallyResets 0 (Results t) (ResetCounts s)\<rparr>
      else
        s\<lparr>Trials := Trials s + 1,
          RankCounts := tallyRanks 0 (Results t) (RankCounts s),
          PositionRankCounts :=
            tallyPositions 0 (Results t) (arrangement t) (PositionRankCounts s)\<rparr>)"

text \<open>\<open>Transport.maxConns\<close> and the planning half of \<open>StreamTrials\<close>.\<close>

definition maxConns :: "int \<Rightarrow> int" where
  "maxConns maxConnsPerHost = (if maxConnsPerHost > 0 then maxConnsPerHost else 1)"

definition planConns :: "int \<Rightarrow> int \<Rightarrow> int \<Rightarrow> nat \<Rightarrow> int" where
  "planConns maxConnsPerHost cfgMaxConns maxTrials u =
     (let conns = maxConns maxConnsPerHost;
          conns = (if cfgMaxConns > 0 then min conns cfgMaxConns else conns)
      in if maxTrials > 0 then min conns ((maxTrials - 1) div int u + 1) else conns)"

definition blockAvailable :: "int \<Rightarrow> nat \<Rightarrow> nat \<Rightarrow> bool" where
  "blockAvailable maxTrials u idx \<longleftrightarrow> maxTrials \<le> 0 \<or> int idx \<le> (maxTrials - 1) div int u"

definition trialAvailable :: "int \<Rightarrow> nat \<Rightarrow> bool" where
  "trialAvailable maxTrials index \<longleftrightarrow> maxTrials \<le> 0 \<or> int index < maxTrials"

datatype run_error = RequiresARequest | TrialsNotPositive | TrialsNotMultiple

text \<open>The argument checks of \<open>RunTrials\<close>, in their order.\<close>

definition runTrialsCheck :: "ArrangementPolicy \<Rightarrow> nat \<Rightarrow> int \<Rightarrow> run_error option" where
  "runTrialsCheck p n trials =
     (if n = 0 then Some RequiresARequest
      else if trials \<le> 0 then Some TrialsNotPositive
      else if balancesExactly p \<and> trials mod int n \<noteq> 0 then Some TrialsNotMultiple
      else None)"

text \<open>
  The worker loop. A worker has drawn nothing yet, is inside a block at some shift, or has
  returned. \<open>attempted\<close> lists the indices of the measured trials that were dispatched, latest
  first; \<open>stopped\<close> records that some worker left early (an abort, a stop, or a cancellation).
\<close>

datatype worker = WStart | WBlock nat nat | WDone

record run_state =
  nextBlock :: nat
  workers :: "worker list"
  attempted :: "nat list"
  stopped :: bool

definition initRun :: "nat \<Rightarrow> run_state" where
  "initRun conns =
     \<lparr>nextBlock = 0, workers = replicate conns WStart, attempted = [], stopped = False\<rparr>"

definition drawBlock :: "int \<Rightarrow> nat \<Rightarrow> nat \<Rightarrow> run_state \<Rightarrow> run_state" where
  "drawBlock maxTrials u w s =
     s\<lparr>nextBlock := nextBlock s + 1,
       workers := (workers s)[w := if blockAvailable maxTrials u (nextBlock s)
                                   then WBlock (nextBlock s) 0 else WDone]\<rparr>"

inductive work_step :: "int \<Rightarrow> nat \<Rightarrow> run_state \<Rightarrow> run_state \<Rightarrow> bool"
  for maxTrials :: int and u :: nat where
  work_first: "w < length (workers s) \<Longrightarrow> workers s ! w = WStart \<Longrightarrow>
     work_step maxTrials u s (drawBlock maxTrials u w s)"
| work_next: "w < length (workers s) \<Longrightarrow> workers s ! w = WBlock b u \<Longrightarrow>
     work_step maxTrials u s (drawBlock maxTrials u w s)"
| work_trial: "w < length (workers s) \<Longrightarrow> workers s ! w = WBlock b k \<Longrightarrow> k < u \<Longrightarrow>
     trialAvailable maxTrials (b * u + k) \<Longrightarrow>
     work_step maxTrials u s
       (s\<lparr>workers := (workers s)[w := WBlock b (Suc k)], attempted := (b * u + k) # attempted s\<rparr>)"
| work_bounded: "w < length (workers s) \<Longrightarrow> workers s ! w = WBlock b k \<Longrightarrow> k < u \<Longrightarrow>
     \<not> trialAvailable maxTrials (b * u + k) \<Longrightarrow>
     work_step maxTrials u s (s\<lparr>workers := (workers s)[w := WDone]\<rparr>)"
| work_leave: "w < length (workers s) \<Longrightarrow>
     work_step maxTrials u s (s\<lparr>workers := (workers s)[w := WDone], stopped := True\<rparr>)"

subsection \<open>Counting matrices\<close>

lemma bumpAt_simps [simp]:
  "length (bumpAt xs i) = length xs"
  "i < length xs \<Longrightarrow> sum_list (bumpAt xs i) = sum_list xs + 1"
  using sum_list_update_add [of i xs 1] by (simp_all add: bumpAt_def)

lemma bumpMatrix_length [simp]: "length (bumpMatrix m i j) = length m"
  by (simp add: bumpMatrix_def)

lemma bumpMatrix_nth:
  "k < length m \<Longrightarrow> bumpMatrix m i j ! k = (if k = i then bumpAt (m ! i) j else m ! k)"
  by (simp add: bumpMatrix_def nth_list_update)

lemma tallyPositions_eq: "tallyPositions p rs arr m = tallyRanks p (map ((!) rs) arr) m"
  by (induction arr arbitrary: p m) simp_all

text \<open>One pass over \<open>n\<close> results bumps each row once, at that row's rank.\<close>

lemma tallyRanks_length [simp]: "length (tallyRanks i rs m) = length m"
  by (induction rs arbitrary: i m) simp_all

lemma tallyRanks_nth:
  assumes "k < length m" and "i + length rs \<le> length m"
  shows "tallyRanks i rs m ! k =
     (if i \<le> k \<and> k < i + length rs then bumpAt (m ! k) (nat (ArrivalRank (rs ! (k - i)))) else m ! k)"
  using assms
proof (induction rs arbitrary: i m)
  case Nil
  then show ?case by auto
next
  case (Cons r rs)
  let ?m = "bumpMatrix m i (nat (ArrivalRank r))"
  have IH: "tallyRanks (Suc i) rs ?m ! k =
     (if Suc i \<le> k \<and> k < Suc i + length rs
      then bumpAt (?m ! k) (nat (ArrivalRank (rs ! (k - Suc i)))) else ?m ! k)"
    using Cons.prems by (intro Cons.IH) simp_all
  consider "k = i" | "i < k" | "k < i" by linarith
  then show ?case
    using IH Cons.prems by cases (auto simp: bumpMatrix_nth nth_Cons')
qed

definition matrix_ok :: "nat \<Rightarrow> nat \<Rightarrow> nat list list \<Rightarrow> bool" where
  "matrix_ok n k m \<longleftrightarrow> length m = n \<and> (\<forall>i<n. length (m ! i) = n \<and> sum_list (m ! i) = k)"

lemma matrix_ok_new: "matrix_ok n 0 (newRankMatrix n)"
  by (simp add: matrix_ok_def newRankMatrix_def sum_list_replicate)

lemma matrix_ok_tally:
  assumes "matrix_ok n k m" and "length rs = n"
    and "\<And>i. i < n \<Longrightarrow> 0 \<le> ArrivalRank (rs ! i) \<and> ArrivalRank (rs ! i) < int n"
  shows "matrix_ok n (k + 1) (tallyRanks 0 rs m)"
  unfolding matrix_ok_def
proof (intro conjI allI impI)
  show "length (tallyRanks 0 rs m) = n" using assms by (simp add: matrix_ok_def)
next
  fix i assume "i < n"
  then have "tallyRanks 0 rs m ! i = bumpAt (m ! i) (nat (ArrivalRank (rs ! i)))"
    using assms by (subst tallyRanks_nth) (simp_all add: matrix_ok_def)
  moreover have "nat (ArrivalRank (rs ! i)) < n" using assms(3) [OF \<open>i < n\<close>] by linarith
  ultimately show "length (tallyRanks 0 rs m ! i) = n" "sum_list (tallyRanks 0 rs m ! i) = k + 1"
    using assms(1) \<open>i < n\<close> by (simp_all add: matrix_ok_def)
qed

subsection \<open>The tally's invariant\<close>

definition summary_inv :: "nat \<Rightarrow> TrialSummary \<Rightarrow> bool" where
  "summary_inv n s \<longleftrightarrow> matrix_ok n (Trials s) (RankCounts s) \<and>
     matrix_ok n (Trials s) (PositionRankCounts s) \<and> length (ResetCounts s) = n \<and>
     (\<forall>i<n. ResetCounts s ! i \<le> FailedTrials s)"

text \<open>What the worker guarantees of a trial it emits (see \<open>newTrial_wf\<close>).\<close>

definition trial_wf :: "nat \<Rightarrow> Trial \<Rightarrow> bool" where
  "trial_wf n t \<longleftrightarrow> Warmup t \<or>
     is_perm n (arrangement t) \<and> length (Results t) \<le> n \<and> (Err t = None \<longrightarrow> length (Results t) = n)"

lemma tallyResets_length [simp]: "length (tallyResets i rs c) = length c"
  by (induction rs arbitrary: i c) simp_all

lemma tallyResets_le:
  "k < length c \<Longrightarrow> tallyResets i rs c ! k \<le> c ! k + (if k < i then 0 else 1)"
proof (induction rs arbitrary: i c)
  case Nil
  then show ?case by simp
next
  case (Cons r rs)
  let ?c = "if Reset r \<noteq> None then bumpAt c i else c"
  have "tallyResets (Suc i) rs ?c ! k \<le> ?c ! k + (if k < Suc i then 0 else 1)"
    using Cons.prems by (intro Cons.IH) simp
  moreover have "?c ! k \<le> c ! k + (if k = i then 1 else 0)"
    using Cons.prems by (simp add: bumpAt_def nth_list_update)
  ultimately show ?case by (auto split: if_splits)
qed

lemma full_order_ranks:
  assumes "FullArrivalOrder b = Some order" and "i < length (Results b)"
  shows "0 \<le> ArrivalRank (Results b ! i) \<and> ArrivalRank (Results b ! i) < int (length (Results b))"
  using FullArrivalOrder_rank [OF assms] by (metis of_nat_0_le_iff of_nat_less_iff)

lemma summary_inv_tally:
  assumes "summary_inv n s" and "trial_wf n t"
  shows "summary_inv n (tally s t)"
proof -
  consider "Warmup t"
    | "\<not> Warmup t" "Err t \<noteq> None \<or> FullArrivalOrder (BatchResult.truncate t) = None"
    | order where "\<not> Warmup t" "Err t = None" "FullArrivalOrder (BatchResult.truncate t) = Some order"
    by fastforce
  then show ?thesis
  proof cases
    case 1
    with assms show ?thesis by (simp add: tally_def)
  next
    case 2
    have "tallyResets 0 (Results t) (ResetCounts s) ! i \<le> FailedTrials s + 1" if "i < n" for i
      using tallyResets_le [of i "ResetCounts s" 0 "Results t"] assms(1) that
      by (fastforce simp: summary_inv_def)
    with 2 assms(1) show ?thesis by (simp add: tally_def summary_inv_def)
  next
    case 3
    have len: "length (Results t) = n" and perm: "is_perm n (arrangement t)"
      using assms(2) 3 by (simp_all add: trial_wf_def)
    have tr: "Results (BatchResult.truncate t) = Results t"
      by (simp add: BatchResult.truncate_def)
    have ranks: "0 \<le> ArrivalRank (Results t ! i) \<and> ArrivalRank (Results t ! i) < int n"
      if "i < n" for i
      using full_order_ranks [OF 3(3), of i] that len unfolding tr by simp
    have "matrix_ok n (Trials s + 1) (tallyRanks 0 (Results t) (RankCounts s))"
      using assms(1) ranks len by (intro matrix_ok_tally) (simp_all add: summary_inv_def)
    moreover have "matrix_ok n (Trials s + 1)
        (tallyPositions 0 (Results t) (arrangement t) (PositionRankCounts s))"
      unfolding tallyPositions_eq
      using assms(1) ranks perm is_perm_nth [OF perm]
      by (intro matrix_ok_tally) (simp_all add: summary_inv_def is_perm_def)
    ultimately show ?thesis
      using 3 assms(1) by (simp add: tally_def summary_inv_def)
  qed
qed

interpretation tallyM: event_machine tally "trial_wf n" "summary_inv n" "newTrialSummary n" for n
proof unfold_locales
  show "summary_inv n (newTrialSummary n)"
    by (simp add: summary_inv_def newTrialSummary_def matrix_ok_new)
qed (rule summary_inv_tally)

lemma tally_identity_step:
  assumes "PositionRankCounts s = RankCounts s" and "trial_wf n t" and "arrangement t = identity n"
  shows "PositionRankCounts (tally s t) = RankCounts (tally s t)"
proof -
  have "map ((!) (Results t)) (identity n) = Results t" if "length (Results t) = n"
    using that map_nth [of "Results t"] by (simp add: identity_def)
  with assms show ?thesis by (auto simp: tally_def tallyPositions_eq trial_wf_def)
qed

lemma newTrial_simps [simp]:
  "arrangement (newTrial b arr err i c sh cn) = arr" "Err (newTrial b arr err i c sh cn) = err"
  "Warmup (newTrial b arr err i c sh cn) = (i = noCoord)"
  "Results (newTrial b arr err i c sh cn) =
     (case b of None \<Rightarrow> [] | Some b \<Rightarrow> scatter (Results b) arr)"
  by (simp_all add: newTrial_def BatchResult.extend_def Trial.fields_def zeroBatch_def
      scatterBatch_def split: option.splits)

text \<open>Trials assembled by the worker satisfy the tally's precondition.\<close>

lemma newTrial_wf:
  assumes "is_perm n arr" and "err = None \<Longrightarrow> b \<noteq> None"
  shows "trial_wf n (newTrial b arr err i c sh cn)"
  using assms by (auto simp: trial_wf_def is_perm_def split: option.splits)

subsection \<open>The worker loop's invariant\<close>

fun claimed :: "nat \<Rightarrow> worker \<Rightarrow> nat set" where
  "claimed u (WBlock b k) = {b * u + k..<b * u + u}"
| "claimed u _ = {}"

fun worker_ok :: "nat \<Rightarrow> nat \<Rightarrow> int \<Rightarrow> worker \<Rightarrow> bool" where
  "worker_ok u nb m (WBlock b k) \<longleftrightarrow> b < nb \<and> k \<le> u \<and> blockAvailable m u b"
| "worker_ok u nb m _ \<longleftrightarrow> True"

definition in_block :: "worker \<Rightarrow> nat \<Rightarrow> bool" where
  "in_block wk b \<longleftrightarrow> (\<exists>k. wk = WBlock b k)"

text \<open>
  Every index below the frontier \<open>nextBlock * u\<close> is attempted, still claimed by the one worker
  inside its block, out of bounds, or was given up by a worker that left early; a worker returns
  of its own accord only once the frontier has passed the bound.
\<close>

definition run_safe :: "int \<Rightarrow> nat \<Rightarrow> run_state \<Rightarrow> bool" where
  "run_safe m u s \<longleftrightarrow>
     distinct (attempted s) \<and> (\<forall>i\<in>set (attempted s). trialAvailable m i \<and> i < nextBlock s * u) \<and>
     (\<forall>w<length (workers s). worker_ok u (nextBlock s) m (workers s ! w) \<and>
        claimed u (workers s ! w) \<inter> set (attempted s) = {}) \<and>
     (\<forall>v<length (workers s). \<forall>w<length (workers s). \<forall>b. in_block (workers s ! v) b \<longrightarrow>
        in_block (workers s ! w) b \<longrightarrow> v = w)"

definition run_complete :: "int \<Rightarrow> nat \<Rightarrow> run_state \<Rightarrow> bool" where
  "run_complete m u s \<longleftrightarrow> stopped s \<or>
     (\<forall>i<nextBlock s * u. trialAvailable m i \<longrightarrow> i \<in> set (attempted s) \<or>
        (\<exists>w<length (workers s). i \<in> claimed u (workers s ! w))) \<and>
     (WDone \<in> set (workers s) \<longrightarrow> 0 < m \<and> m \<le> int (nextBlock s * u))"

definition run_inv :: "int \<Rightarrow> nat \<Rightarrow> run_state \<Rightarrow> bool" where
  "run_inv m u s \<longleftrightarrow> run_safe m u s \<and> run_complete m u s"

lemma claimed_block: "i \<in> claimed u wk \<Longrightarrow> in_block wk (i div u)"
proof (cases wk)
  case (WBlock b k)
  moreover assume "i \<in> claimed u wk"
  ultimately have "b * u \<le> i" and "i < Suc b * u" by auto
  then have "i div u = b" by (simp add: div_nat_eqI mult.commute)
  with WBlock show ?thesis by (simp add: in_block_def)
qed auto

lemma in_block_simps [simp]:
  "in_block (WBlock b k) c \<longleftrightarrow> b = c" "\<not> in_block WStart c" "\<not> in_block WDone c"
  by (auto simp: in_block_def)

lemma worker_ok_block: "worker_ok u nb m wk \<Longrightarrow> in_block wk b \<Longrightarrow> b < nb"
  by (auto simp: in_block_def)

lemma worker_ok_mono: "worker_ok u nb m wk \<Longrightarrow> worker_ok u (Suc nb) m wk"
  by (cases wk) auto

lemma not_blockAvailable:
  assumes "\<not> blockAvailable m u b" and "0 < u"
  shows "0 < m \<and> m \<le> int (b * u)"
proof -
  from assms(1) have m: "0 < m" "(m - 1) div int u < int b" by (simp_all add: blockAvailable_def)
  have "m - 1 < ((m - 1) div int u + 1) * int u"
  proof -
    have "(m - 1) mod int u < int u" using assms(2) by simp
    moreover have "m - 1 = (m - 1) div int u * int u + (m - 1) mod int u" by simp
    ultimately show ?thesis unfolding distrib_right mult_1_left by linarith
  qed
  also have "\<dots> \<le> int b * int u" using m by (intro mult_right_mono) simp_all
  finally show ?thesis using m by simp
qed

lemma claimed_upper: "worker_ok u nb m wk \<Longrightarrow> i \<in> claimed u wk \<Longrightarrow> i < nb * u"
proof (cases wk)
  case (WBlock b k)
  moreover assume "worker_ok u nb m wk" "i \<in> claimed u wk"
  ultimately have "Suc b \<le> nb" and "i < Suc b * u" by auto
  then show ?thesis by (meson mult_le_mono1 order_less_le_trans)
qed auto

subsubsection \<open>Drawing a block\<close>

lemma run_safe_draw:
  assumes "run_safe m u s" and "w < length (workers s)"
  shows "run_safe m u (drawBlock m u w s)"
proof -
  let ?nb = "nextBlock s"
  let ?wk = "if blockAvailable m u ?nb then WBlock ?nb 0 else WDone"
  have old: "worker_ok u ?nb m (workers s ! v)" "claimed u (workers s ! v) \<inter> set (attempted s) = {}"
    if "v < length (workers s)" for v
    using assms(1) that by (simp_all add: run_safe_def)
  have lt: "i < ?nb * u" if "i \<in> set (attempted s)" for i
    using assms(1) that by (simp add: run_safe_def)
  have new: "worker_ok u (Suc ?nb) m ?wk" "claimed u ?wk \<inter> set (attempted s) = {}"
    by (simp, cases "blockAvailable m u ?nb") (auto dest: lt)
  have uniq: "v = v'" if "v < length (workers s)" "v' < length (workers s)"
      "in_block ((workers s)[w := ?wk] ! v) b" "in_block ((workers s)[w := ?wk] ! v') b" for v v' b
  proof -
    have fresh: "\<not> in_block (workers s ! v) ?nb" if "v < length (workers s)" for v
      using old(1) [OF that] worker_ok_block by blast
    show ?thesis
      using assms that fresh [OF that(1)] fresh [OF that(2)]
      by (auto simp: run_safe_def nth_list_update split: if_splits)
  qed
  show ?thesis
  proof -
    have "distinct (attempted s)"
      and "\<forall>i\<in>set (attempted s). trialAvailable m i \<and> i < Suc ?nb * u"
      using assms(1) lt by (auto simp: run_safe_def intro: trans_less_add2)
    moreover have "\<forall>v<length (workers s). worker_ok u (Suc ?nb) m ((workers s)[w := ?wk] ! v) \<and>
        claimed u ((workers s)[w := ?wk] ! v) \<inter> set (attempted s) = {}"
      using old new assms(2) worker_ok_mono by (metis nth_list_update_eq nth_list_update_neq)
    moreover have "\<forall>v<length (workers s). \<forall>v'<length (workers s). \<forall>b.
        in_block ((workers s)[w := ?wk] ! v) b \<longrightarrow> in_block ((workers s)[w := ?wk] ! v') b \<longrightarrow> v = v'"
      using uniq by blast
    ultimately show ?thesis by (simp add: run_safe_def drawBlock_def)
  qed
qed

lemma run_complete_draw:
  assumes "run_inv m u s" and "w < length (workers s)" and "claimed u (workers s ! w) = {}"
    and "0 < u"
  shows "run_complete m u (drawBlock m u w s)"
proof (cases "stopped s")
  case True
  then show ?thesis by (simp add: run_complete_def drawBlock_def)
next
  case False
  let ?nb = "nextBlock s"
  let ?wk = "if blockAvailable m u ?nb then WBlock ?nb 0 else WDone"
  have cov: "i \<in> set (attempted s) \<or> (\<exists>v<length (workers s). i \<in> claimed u ((workers s)[w := ?wk] ! v))"
    if up: "i < Suc ?nb * u" and av: "trialAvailable m i" for i
  proof (cases "i < ?nb * u")
    case True
    then consider "i \<in> set (attempted s)"
      | v where "v < length (workers s)" "i \<in> claimed u (workers s ! v)"
      using assms(1) False av unfolding run_inv_def run_complete_def by blast
    then show ?thesis
    proof cases
      case 2
      with assms(3) have "v \<noteq> w" by auto
      with 2 show ?thesis by (metis nth_list_update_neq)
    qed simp
  next
    case ge: False
    show ?thesis
    proof (cases "blockAvailable m u ?nb")
      case True
      with ge up assms(2) have "i \<in> claimed u ((workers s)[w := ?wk] ! w)" by simp
      with assms(2) show ?thesis by blast
    next
      case na: False
      from not_blockAvailable [OF na assms(4)] av have "int i < int (?nb * u)"
        unfolding trialAvailable_def by linarith
      with ge show ?thesis by simp
    qed
  qed
  have fin: "0 < m \<and> m \<le> int (Suc ?nb * u)" if "WDone \<in> set ((workers s)[w := ?wk])"
  proof (cases "WDone \<in> set (workers s)")
    case True
    with assms(1) False show ?thesis by (auto simp: run_inv_def run_complete_def)
  next
    case nd: False
    with that have "\<not> blockAvailable m u ?nb" by (auto dest!: in_set_update_cases split: if_splits)
    from not_blockAvailable [OF this assms(4)] show ?thesis by auto
  qed
  show ?thesis
    unfolding run_complete_def drawBlock_def using cov fin by simp
qed

subsubsection \<open>Running one trial\<close>

lemma run_safe_trial:
  assumes "run_safe m u s" and "w < length (workers s)" and "workers s ! w = WBlock b k"
    and "k < u" and "trialAvailable m (b * u + k)"
  shows "run_safe m u
    (s\<lparr>workers := (workers s)[w := WBlock b (Suc k)], attempted := (b * u + k) # attempted s\<rparr>)"
proof -
  let ?i = "b * u + k"
  have mine: "?i \<in> claimed u (workers s ! w)" using assms(3,4) by simp
  have okw: "worker_ok u (nextBlock s) m (workers s ! w)" using assms(1,2) by (simp add: run_safe_def)
  have fresh: "?i \<notin> set (attempted s)" using assms(1,2) mine by (auto simp: run_safe_def)
  have lt: "?i < nextBlock s * u" using claimed_upper [OF okw mine] .
  have other: "?i \<notin> claimed u (workers s ! v)" if "v < length (workers s)" "v \<noteq> w" for v
    using assms(1,2) that claimed_block [of ?i u "workers s ! v"] claimed_block [OF mine]
    by (auto simp: run_safe_def)
  have uniq: "v = v'" if "v < length (workers s)" "v' < length (workers s)"
      "in_block ((workers s)[w := WBlock b (Suc k)] ! v) c"
      "in_block ((workers s)[w := WBlock b (Suc k)] ! v') c" for v v' c
    using assms(1,2,3) that by (auto simp: run_safe_def nth_list_update split: if_splits)
  have old: "worker_ok u (nextBlock s) m (workers s ! v)"
      "claimed u (workers s ! v) \<inter> set (attempted s) = {}" if "v < length (workers s)" for v
    using assms(1) that by (simp_all add: run_safe_def)
  have each: "worker_ok u (nextBlock s) m ((workers s)[w := WBlock b (Suc k)] ! v) \<and>
      claimed u ((workers s)[w := WBlock b (Suc k)] ! v) \<inter> insert ?i (set (attempted s)) = {}"
    if "v < length (workers s)" for v
  proof (cases "v = w")
    case True
    have "claimed u (WBlock b (Suc k)) \<subseteq> claimed u (workers s ! w)" using assms(3) by auto
    with old(2) [OF assms(2)] have "claimed u (WBlock b (Suc k)) \<inter> set (attempted s) = {}"
      by blast
    then have "claimed u (WBlock b (Suc k)) \<inter> insert ?i (set (attempted s)) = {}" by simp
    with True assms(2,3,4) okw show ?thesis by simp
  next
    case False
    with old [OF that] other [OF that False] show ?thesis by auto
  qed
  have "distinct (attempted s)"
    and "\<forall>i\<in>set (attempted s). trialAvailable m i \<and> i < nextBlock s * u"
    using assms(1) by (simp_all add: run_safe_def)
  with fresh lt assms(5) each uniq show ?thesis unfolding run_safe_def by simp
qed

lemma run_complete_trial:
  assumes "run_complete m u s" and "w < length (workers s)" and "workers s ! w = WBlock b k"
    and "k < u"
  shows "run_complete m u
    (s\<lparr>workers := (workers s)[w := WBlock b (Suc k)], attempted := (b * u + k) # attempted s\<rparr>)"
proof -
  have split: "i = b * u + k \<or> i \<in> claimed u ((workers s)[w := WBlock b (Suc k)] ! v)"
    if "v < length (workers s)" "i \<in> claimed u (workers s ! v)" for i v
    using that assms(2,3) by (cases "v = w") auto
  have "WDone \<in> set (workers s)" if "WDone \<in> set ((workers s)[w := WBlock b (Suc k)])"
    using that by (auto dest: in_set_update_cases)
  with assms(1) show ?thesis
    unfolding run_complete_def using split by (simp, metis)
qed

subsubsection \<open>Returning\<close>

lemma run_safe_done:
  assumes "run_safe m u s" and "w < length (workers s)"
  shows "run_safe m u (s\<lparr>workers := (workers s)[w := WDone], stopped := b\<rparr>)"
  using assms by (auto simp: run_safe_def nth_list_update)

lemma run_complete_bounded:
  assumes "run_inv m u s" and "w < length (workers s)" and "workers s ! w = WBlock b k"
    and "k < u" and "\<not> trialAvailable m (b * u + k)"
  shows "run_complete m u (s\<lparr>workers := (workers s)[w := WDone]\<rparr>)"
proof -
  have okw: "worker_ok u (nextBlock s) m (workers s ! w)"
    using assms(1,2) by (simp add: run_inv_def run_safe_def)
  have mine: "b * u + k \<in> claimed u (workers s ! w)" using assms(3,4) by simp
  have m: "0 < m \<and> m \<le> int (b * u + k)" using assms(5) by (simp add: trialAvailable_def)
  then have "0 < m \<and> m \<le> int (nextBlock s * u)" using claimed_upper [OF okw mine] by linarith
  moreover have "i \<in> claimed u ((workers s)[w := WDone] ! v)"
    if "v < length (workers s)" "i \<in> claimed u (workers s ! v)" "trialAvailable m i" for i v
    using that assms(2,3) m by (cases "v = w") (auto simp: trialAvailable_def)
  ultimately show ?thesis
    using assms(1) by (simp add: run_inv_def run_complete_def, metis)
qed

lemma run_inv_step:
  assumes "0 < u" and "run_inv m u s" and "work_step m u s t"
  shows "run_inv m u t"
  using assms(3,2)
proof (cases rule: work_step.cases)
  case (work_first w)
  with assms show ?thesis by (simp add: run_inv_def run_safe_draw run_complete_draw)
next
  case (work_next w b)
  with assms show ?thesis by (simp add: run_inv_def run_safe_draw run_complete_draw)
next
  case (work_trial w b k)
  with assms(2) show ?thesis by (simp add: run_inv_def run_safe_trial run_complete_trial)
next
  case (work_bounded w b k)
  with assms(2) run_safe_done [of m u s w "stopped s"] run_complete_bounded [of m u s w b k]
  show ?thesis by (simp add: run_inv_def)
next
  case (work_leave w)
  with assms(2) run_safe_done [of m u s w True] show ?thesis
    by (simp add: run_inv_def run_complete_def)
qed

lemma run_inv_init: "run_inv m u (initRun conns)"
  by (simp add: run_inv_def run_safe_def run_complete_def initRun_def)

text \<open>The worker loop as a transition system: its invariant holds in every interleaving.\<close>

interpretation workM: transition_system "\<lambda>s. s = initRun conns" "work_step m u"
  "\<lambda>s. 0 < u \<longrightarrow> run_inv m u s" for conns m u
  by unfold_locales (auto intro: run_inv_init run_inv_step)

subsection \<open>Properties\<close>

text \<open>C11. After tallying any sequence of trials assembled by workers, every row of both rank matrices
  sums to the number of tallied trials, both matrices are \<open>n\<close> by \<open>n\<close>, and no request has more
  resets than there are failed trials.\<close>

theorem tally_rows_sum_to_trials:
  assumes "list_all (trial_wf n) ts"
  shows "let s = foldl tally (newTrialSummary n) ts in
     (\<forall>i<n. length (RankCounts s ! i) = n \<and> sum_list (RankCounts s ! i) = Trials s \<and>
        length (PositionRankCounts s ! i) = n \<and> sum_list (PositionRankCounts s ! i) = Trials s \<and>
        ResetCounts s ! i \<le> FailedTrials s)"
  using tallyM.inv_run [OF assms] by (simp add: Let_def summary_inv_def matrix_ok_def)

definition demo_trial :: Trial where
  "demo_trial = newTrial (Some demo_full_batch) [1, 0] None 0 0 0 0"

theorem tally_rows_sum_to_trials_witness:
  "list_all (trial_wf 2) [demo_trial, demo_trial] \<and>
   (let s = foldl tally (newTrialSummary 2) [demo_trial, demo_trial] in
     (\<forall>i<2. length (RankCounts s ! i) = 2 \<and> sum_list (RankCounts s ! i) = Trials s \<and>
        length (PositionRankCounts s ! i) = 2 \<and> sum_list (PositionRankCounts s ! i) = Trials s \<and>
        ResetCounts s ! i \<le> FailedTrials s))"
proof -
  have wf: "list_all (trial_wf 2) [demo_trial, demo_trial]"
    by (simp add: demo_trial_def newTrial_wf is_perm_def)
  from wf tally_rows_sum_to_trials [OF wf] show ?thesis by blast
qed

text \<open>Under the policy that keeps input order the two rank matrices coincide: with identity
  arrangements the position tally equals the request tally.\<close>

theorem tally_identity_positions:
  assumes "list_all (trial_wf n) ts" and "\<forall>t\<in>set ts. arrangement t = identity n"
  shows "PositionRankCounts (foldl tally (newTrialSummary n) ts) =
           RankCounts (foldl tally (newTrialSummary n) ts)"
  using assms
proof (induction ts rule: rev_induct)
  case Nil
  then show ?case by (simp add: newTrialSummary_def)
next
  case (snoc t ts)
  then show ?case using tally_identity_step by auto
qed

theorem tally_identity_positions_witness:
  "PositionRankCounts (foldl tally (newTrialSummary 2)
       [newTrial (Some demo_full_batch) (identity 2) None 0 0 0 0]) =
   RankCounts (foldl tally (newTrialSummary 2)
       [newTrial (Some demo_full_batch) (identity 2) None 0 0 0 0])"
  by (rule tally_identity_positions) (simp_all add: newTrial_wf identity_def)

text \<open>C6. However the workers interleave, and even if some leave early, no measured trial index is
  dispatched twice and none lies outside the bound.\<close>

theorem trial_indices_unique_and_bounded:
  assumes "0 < u" and "(work_step m u)\<^sup>*\<^sup>* (initRun conns) s"
  shows "distinct (attempted s) \<and> (0 < m \<longrightarrow> (\<forall>i\<in>set (attempted s). int i < m))"
  using workM.inv_reachable [OF refl assms(2)] assms(1)
  by (auto simp: run_inv_def run_safe_def trialAvailable_def)

definition demo_run :: run_state where
  "demo_run = \<lparr>nextBlock = 2, workers = [WDone], attempted = [0], stopped = False\<rparr>"

lemma demo_run_reachable: "(work_step 1 1)\<^sup>*\<^sup>* (initRun 1) demo_run"
proof -
  let ?s1 = "drawBlock 1 1 0 (initRun 1)"
  let ?s2 = "?s1\<lparr>workers := (workers ?s1)[0 := WBlock 0 (Suc 0)], attempted := (0 * 1 + 0) # attempted ?s1\<rparr>"
  have 1: "work_step 1 1 (initRun 1) ?s1" by (rule work_first) (simp_all add: initRun_def)
  have 2: "work_step 1 1 ?s1 ?s2"
    by (rule work_trial [where w = 0]) (simp_all add: initRun_def drawBlock_def blockAvailable_def
        trialAvailable_def)
  have 3: "work_step 1 1 ?s2 (drawBlock 1 1 0 ?s2)"
    by (rule work_next) (simp_all add: initRun_def drawBlock_def)
  have "drawBlock 1 1 0 ?s2 = demo_run"
    by (simp add: demo_run_def initRun_def drawBlock_def blockAvailable_def)
  with 1 2 3 show ?thesis by (metis rtranclp.rtrancl_into_rtrancl rtranclp.rtrancl_refl)
qed

theorem trial_indices_unique_and_bounded_witness:
  "attempted demo_run = [0] \<and> distinct (attempted demo_run) \<and>
   list_all (\<lambda>i. int i < 1) (attempted demo_run)"
  using trial_indices_unique_and_bounded [OF _ demo_run_reachable]
  by (simp add: list_all_iff) (simp add: demo_run_def)

text \<open>C10. A bounded run that is never stopped or aborted dispatches exactly the trials
  \<open>0, ..., m - 1\<close> by the time every worker has returned.\<close>

theorem bounded_run_dispatches_all:
  assumes "0 < u" and "(work_step m u)\<^sup>*\<^sup>* (initRun conns) s" and "0 < conns"
    and "\<not> stopped s" and "\<forall>w\<in>set (workers s). w = WDone"
  shows "0 < m \<and> set (attempted s) = {..<nat m}"
proof -
  have len: "length (workers s) = conns"
    using assms(2) by (induction rule: rtranclp_induct)
      (auto simp: initRun_def drawBlock_def elim!: work_step.cases)
  with assms(3,5) have "workers s ! 0 = WDone" by simp
  then have fin: "WDone \<in> set (workers s)" using len assms(3) by (metis nth_mem)
  have inv: "run_safe m u s" "run_complete m u s"
    using workM.inv_reachable [OF refl assms(2)] assms(1) by (simp_all add: run_inv_def)
  have m: "0 < m" "m \<le> int (nextBlock s * u)"
    using inv(2) fin assms(4) by (auto simp: run_complete_def)
  have "i \<in> set (attempted s)" if "i < nat m" for i
  proof -
    from that m(2) have "int i < int (nextBlock s * u)" by linarith
    then have "i < nextBlock s * u" by (simp only: of_nat_less_iff)
    moreover from that have "trialAvailable m i" by (auto simp: trialAvailable_def)
    moreover have "claimed u (workers s ! w) = {}" if "w < length (workers s)" for w
      using assms(5) [rule_format, OF nth_mem, OF that] by simp
    ultimately show ?thesis using inv(2) assms(4) by (auto simp: run_complete_def)
  qed
  moreover have "\<forall>i\<in>set (attempted s). i < nat m"
    using inv(1) m(1) by (auto simp: run_safe_def trialAvailable_def)
  ultimately show ?thesis using m(1) by auto
qed

theorem bounded_run_dispatches_all_witness:
  "(0::int) < 1 \<and> set (attempted demo_run) = {..<nat 1}"
  by (rule bounded_run_dispatches_all [OF _ demo_run_reachable]) (simp_all add: demo_run_def)

text \<open>When \<open>RunTrials\<close> accepts its arguments under exact balancing, the bound falls on a block
  boundary: every trial of an available block is available, so no cycle is truncated, and at least
  one connection is planned but never more than there are blocks.\<close>

theorem run_trials_whole_cycles:
  assumes "runTrialsCheck ArrangeRotate n trials = None"
    and "blockAvailable trials (policyUnit ArrangeRotate n) b" and "k < n"
  shows "trialAvailable trials (b * policyUnit ArrangeRotate n + k) \<and>
    1 \<le> planConns mc cc trials (policyUnit ArrangeRotate n) \<and>
    planConns mc cc trials (policyUnit ArrangeRotate n) * int n \<le> trials"
proof -
  have u: "policyUnit ArrangeRotate n = n" by (simp add: policyUnit_def balancesExactly_def)
  from assms(1) have n: "0 < n" and pos: "0 < trials" and dvd: "int n dvd trials"
    by (auto simp: runTrialsCheck_def balancesExactly_def split: if_splits)
  from dvd obtain q where q: "trials = int n * q" by (elim dvdE)
  have q0: "0 < q" using pos n q by (simp add: zero_less_mult_iff)
  have "trials - 1 = int n * (q - 1) + (int n - 1)" by (simp add: q algebra_simps)
  then have quo: "(trials - 1) div int n = q - 1"
    using n by (simp add: int_div_pos_eq)
  have "int b \<le> q - 1" using assms(2) pos by (simp add: u blockAvailable_def quo)
  then have "int n * int b + int n \<le> int n * q"
    using n by (metis add.commute le_diff_eq mult_left_mono mult.right_neutral distrib_left
        diff_add_cancel of_nat_0_le_iff)
  then have "int (b * n + k) < trials" using assms(3) q by (simp add: mult.commute)
  moreover have "planConns mc cc trials n \<le> q" "1 \<le> planConns mc cc trials n"
    using pos q0 by (auto simp: planConns_def maxConns_def Let_def quo)
  moreover from this(1) have "planConns mc cc trials n * int n \<le> trials"
    unfolding q using n by (simp add: mult.commute mult_left_mono)
  ultimately show ?thesis by (simp add: u trialAvailable_def)
qed

theorem run_trials_whole_cycles_witness:
  "trialAvailable 6 (1 * policyUnit ArrangeRotate 3 + 2) \<and>
    1 \<le> planConns 4 0 6 (policyUnit ArrangeRotate 3) \<and>
    planConns 4 0 6 (policyUnit ArrangeRotate 3) * int 3 \<le> 6"
  by (rule run_trials_whole_cycles)
    (simp_all add: runTrialsCheck_def blockAvailable_def policyUnit_def balancesExactly_def)

end
