(* ===== verification/FlowControl.thy ===== *)
theory FlowControl
  imports Prelude
begin

text \<open>
  HTTP/2 send-side flow control (\<open>tth2/conn.go\<close>, \<open>tth2/readpump.go\<close>): the connection window, the
  per-stream windows of one batch, and the peer's SETTINGS. Windows are \<open>int32\<close> values in the source;
  the model keeps them as integers and writes every narrowing out with \<open>int32\<close>, so that the absence
  of wrap-around is a theorem and not an assumption. Errors are values of \<open>flow_error\<close>; each of them
  is connection-fatal. The operations run in one critical section each, so a run is a sequence of
  them: the sender's debits (\<open>take\<close>, \<open>reserve\<close>) interleaved with the read pump's credits
  (WINDOW_UPDATE, SETTINGS). The compare-and-swap loop of \<open>addConnectionSendCredit\<close> is one atomic
  update. The history fields of \<open>credit_system\<close> (granted and spent credit, in unbounded integers)
  have no counterpart in the source; the accounting theorem is stated with them.
\<close>

definition maxDataFramePayload :: int where "maxDataFramePayload = 16384"
definition tlsRecordPlaintextBudget :: int where "tlsRecordPlaintextBudget = 16384"
definition http2FrameHeaderSize :: int where "http2FrameHeaderSize = 9"
definition maxInitialWindowSize :: int where "maxInitialWindowSize = 2147483647"
definition maxMaxFrameSize :: int where "maxMaxFrameSize = 16777215"
definition unlimitedConcurrentStreams :: int where "unlimitedConcurrentStreams = 4294967296"

lemmas flow_constants = maxDataFramePayload_def tlsRecordPlaintextBudget_def
  http2FrameHeaderSize_def maxInitialWindowSize_def maxMaxFrameSize_def
  unlimitedConcurrentStreams_def

record http2conn =
  peerConnSendWindow :: int
  peerInitStreamWindow :: int
  peerMaxFrameSize :: int
  peerMaxStreams :: int

record flowControl =
  stream :: "int list"
  streamIDs :: "int list"
  changed :: bool

datatype flow_error =
    StreamWindowExceeded int
  | StreamAdjustmentOutOfRange int
  | ConnectionWindowExceeded
  | InitialWindowTooLarge int
  | MaxFrameSizeOutOfRange int

definition freshConn :: http2conn where
  "freshConn = \<lparr>peerConnSendWindow = 65535, peerInitStreamWindow = 65535,
     peerMaxFrameSize = maxDataFramePayload, peerMaxStreams = unlimitedConcurrentStreams\<rparr>"

definition newFlowControl :: "http2conn \<Rightarrow> int list \<Rightarrow> flowControl" where
  "newFlowControl c ids =
     \<lparr>stream = replicate (length ids) (int32 (peerInitStreamWindow c)), streamIDs = ids,
      changed = False\<rparr>"

text \<open>\<open>notify\<close> fills the one-slot channel; a full channel is left alone.\<close>

definition notify :: "flowControl \<Rightarrow> flowControl" where
  "notify f = f\<lparr>changed := True\<rparr>"

definition takeCredit :: "http2conn \<Rightarrow> flowControl \<Rightarrow> nat \<Rightarrow> int \<Rightarrow> int \<times> http2conn \<times> flowControl" where
  "takeCredit c f idx want =
     (let frameCap = peerMaxFrameSize c;
          avail = int32 (min want frameCap);
          cw = peerConnSendWindow c;
          avail = (if cw < avail then cw else avail);
          avail = (if stream f ! idx < avail then stream f ! idx else avail)
      in if avail \<le> 0 then (0, c, f)
         else (avail, c\<lparr>peerConnSendWindow := int32 (cw - avail)\<rparr>,
               f\<lparr>stream := (stream f)[idx := int32 (stream f ! idx - avail)]\<rparr>))"

text \<open>The checking loop of \<open>reserve\<close>: \<open>None\<close> is the early return of \<open>false\<close>. The two lists have one
  entry per stream.\<close>

fun reserveCheck :: "int list \<Rightarrow> int list \<Rightarrow> int \<Rightarrow> int option" where
  "reserveCheck (n # ns) (s # ss) tot =
     (if n > 0 then if s < n then None else reserveCheck ns ss (int32 (tot + n))
      else reserveCheck ns ss tot)"
| "reserveCheck _ _ tot = Some tot"

definition reserve :: "http2conn \<Rightarrow> flowControl \<Rightarrow> int list \<Rightarrow> bool \<times> http2conn \<times> flowControl" where
  "reserve c f needs =
     (case reserveCheck needs (stream f) 0 of
        None \<Rightarrow> (False, c, f)
      | Some tot \<Rightarrow>
          if peerConnSendWindow c < tot then (False, c, f)
          else (True, c\<lparr>peerConnSendWindow := int32 (peerConnSendWindow c - tot)\<rparr>,
                f\<lparr>stream := map2 (\<lambda>s n. int32 (s - n)) (stream f) needs\<rparr>))"

definition available :: "http2conn \<Rightarrow> flowControl \<Rightarrow> int \<times> int list" where
  "available c f = (peerConnSendWindow c, stream f)"

text \<open>The search loop of \<open>addStream\<close> over the parallel lists of identifiers and windows.\<close>

fun creditStream :: "int \<Rightarrow> int \<Rightarrow> int list \<Rightarrow> int list \<Rightarrow> flow_error + (bool \<times> int list)" where
  "creditStream sid n (i # is) (s # ss) =
     (if i = sid then
        if s + n > maxInitialWindowSize then Inl (StreamWindowExceeded sid)
        else Inr (True, int32 (s + n) # ss)
      else (case creditStream sid n is ss of
              Inl e \<Rightarrow> Inl e
            | Inr (hit, ss') \<Rightarrow> Inr (hit, s # ss')))"
| "creditStream sid n _ ss = Inr (False, ss)"

definition addStream :: "flowControl \<Rightarrow> int \<Rightarrow> int \<Rightarrow> flow_error + flowControl" where
  "addStream f sid n =
     (case creditStream sid n (streamIDs f) (stream f) of
        Inl e \<Rightarrow> Inl e
      | Inr (hit, ss) \<Rightarrow> Inr (if hit then notify (f\<lparr>stream := ss\<rparr>) else f))"

fun adjustmentFault :: "int \<Rightarrow> int list \<Rightarrow> int list \<Rightarrow> int option" where
  "adjustmentFault delta (i # is) (s # ss) =
     (if s + delta > maxInitialWindowSize \<or> s + delta < - (2 ^ 31) then Some i
      else adjustmentFault delta is ss)"
| "adjustmentFault delta _ _ = None"

definition applyInitDelta :: "flowControl \<Rightarrow> int \<Rightarrow> flow_error + flowControl" where
  "applyInitDelta f delta =
     (if delta = 0 then Inr f
      else case adjustmentFault delta (streamIDs f) (stream f) of
             Some sid \<Rightarrow> Inl (StreamAdjustmentOutOfRange sid)
           | None \<Rightarrow> Inr (notify (f\<lparr>stream := map (\<lambda>s. int32 (s + delta)) (stream f)\<rparr>)))"

definition addConnectionSendCredit :: "http2conn \<Rightarrow> int \<Rightarrow> flow_error + http2conn" where
  "addConnectionSendCredit c increment =
     (let updated = peerConnSendWindow c + increment in
      if updated > maxInitialWindowSize then Inl ConnectionWindowExceeded
      else Inr (c\<lparr>peerConnSendWindow := int32 updated\<rparr>))"

datatype Setting =
    SettingInitialWindowSize int
  | SettingMaxFrameSize int
  | SettingMaxConcurrentStreams int
  | SettingOther int int

text \<open>The callback given to \<open>ForeachSetting\<close>, folded over the frame's settings in order.\<close>

fun foldSettings :: "Setting list \<Rightarrow> int \<Rightarrow> int \<Rightarrow> int \<Rightarrow> flow_error + (int \<times> int \<times> int)" where
  "foldSettings [] w m k = Inr (w, m, k)"
| "foldSettings (SettingInitialWindowSize v # ss) w m k =
     (if v > maxInitialWindowSize then Inl (InitialWindowTooLarge v) else foldSettings ss v m k)"
| "foldSettings (SettingMaxFrameSize v # ss) w m k =
     (if v < maxDataFramePayload \<or> v > maxMaxFrameSize then Inl (MaxFrameSizeOutOfRange v)
      else foldSettings ss w v k)"
| "foldSettings (SettingMaxConcurrentStreams v # ss) w m k = foldSettings ss w m v"
| "foldSettings (SettingOther i v # ss) w m k = foldSettings ss w m k"

definition applySettingsValues :: "http2conn \<Rightarrow> Setting list \<Rightarrow> flow_error + (int \<times> http2conn)" where
  "applySettingsValues c ss =
     (case foldSettings ss (peerInitStreamWindow c) (peerMaxFrameSize c) (peerMaxStreams c) of
        Inl e \<Rightarrow> Inl e
      | Inr (w, m, k) \<Rightarrow>
          Inr (int32 (int32 w - int32 (peerInitStreamWindow c)),
               c\<lparr>peerInitStreamWindow := w, peerMaxFrameSize := m, peerMaxStreams := k\<rparr>))"

text \<open>\<open>connectionReadPump.applySettings\<close>: the connection's values, then the active batch's windows.\<close>

definition pumpApplySettings ::
    "http2conn \<Rightarrow> flowControl option \<Rightarrow> Setting list \<Rightarrow> flow_error option \<times> http2conn \<times> flowControl option" where
  "pumpApplySettings c flow ss =
     (case applySettingsValues c ss of
        Inl e \<Rightarrow> (Some e, c, flow)
      | Inr (delta, c') \<Rightarrow>
          (case flow of
             None \<Rightarrow> (None, c', None)
           | Some f \<Rightarrow> (case applyInitDelta f delta of
                           Inl e \<Rightarrow> (Some e, c', flow)
                         | Inr f' \<Rightarrow> (None, c', Some f'))))"

datatype limit_error = PeerStreamLimit int nat

definition checkPeerStreamLimit :: "http2conn \<Rightarrow> nat \<Rightarrow> bool \<Rightarrow> limit_error option" where
  "checkPeerStreamLimit c width ignored =
     (let required = int width; limit = peerMaxStreams c in
      if ignored \<or> required \<le> limit then None else Some (PeerStreamLimit limit width))"

text \<open>One batch in flight: the calls the sender and the read pump make, in any order.\<close>

datatype credit_event =
    Take nat int
  | Reserve "int list"
  | ConnUpdate int
  | StreamUpdate int int
  | Settings "Setting list"

record credit_system =
  conn :: http2conn
  flow :: flowControl
  fault :: "flow_error option"
  connGranted :: int
  connSpent :: int
  streamGranted :: "int list"
  streamSpent :: "int list"

definition startBatch :: "http2conn \<Rightarrow> int list \<Rightarrow> credit_system" where
  "startBatch c ids = \<lparr>conn = c, flow = newFlowControl c ids, fault = None,
     connGranted = peerConnSendWindow c, connSpent = 0,
     streamGranted = replicate (length ids) (peerInitStreamWindow c),
     streamSpent = replicate (length ids) 0\<rparr>"

text \<open>A fault ends the read pump, so later frames of the peer have no effect; the sender may still
  debit until it notices.\<close>

fun creditStep :: "credit_system \<Rightarrow> credit_event \<Rightarrow> credit_system" where
  "creditStep s (Take idx want) =
     (case takeCredit (conn s) (flow s) idx want of (n, c, f) \<Rightarrow>
        s\<lparr>conn := c, flow := f, connSpent := connSpent s + n,
          streamSpent := (streamSpent s)[idx := streamSpent s ! idx + n]\<rparr>)"
| "creditStep s (Reserve needs) =
     (case reserve (conn s) (flow s) needs of (ok, c, f) \<Rightarrow>
        if ok then s\<lparr>conn := c, flow := f, connSpent := connSpent s + sum_list needs,
                     streamSpent := map2 (+) (streamSpent s) needs\<rparr>
        else s)"
| "creditStep s (ConnUpdate n) =
     (if fault s \<noteq> None then s
      else case addConnectionSendCredit (conn s) n of
        Inl e \<Rightarrow> s\<lparr>fault := Some e\<rparr>
      | Inr c \<Rightarrow> s\<lparr>conn := c, flow := notify (flow s), connGranted := connGranted s + n\<rparr>)"
| "creditStep s (StreamUpdate sid n) =
     (if fault s \<noteq> None then s
      else case addStream (flow s) sid n of
        Inl e \<Rightarrow> s\<lparr>fault := Some e\<rparr>
      | Inr f \<Rightarrow> s\<lparr>flow := f,
          streamGranted := map2 (\<lambda>i g. if i = sid then g + n else g) (streamIDs f) (streamGranted s)\<rparr>)"
| "creditStep s (Settings ss) =
     (if fault s \<noteq> None then s
      else case pumpApplySettings (conn s) (Some (flow s)) ss of
        (Some e, c, _) \<Rightarrow> s\<lparr>conn := c, fault := Some e\<rparr>
      | (None, c, f) \<Rightarrow> s\<lparr>conn := c, flow := the f,
          streamGranted := map (\<lambda>g. g + (peerInitStreamWindow c - peerInitStreamWindow (conn s)))
            (streamGranted s)\<rparr>)"

subsection \<open>Well-formed connections\<close>

definition conn_ok :: "http2conn \<Rightarrow> bool" where
  "conn_ok c \<longleftrightarrow> 0 \<le> peerConnSendWindow c \<and> peerConnSendWindow c \<le> maxInitialWindowSize \<and>
     0 \<le> peerInitStreamWindow c \<and> peerInitStreamWindow c \<le> maxInitialWindowSize \<and>
     maxDataFramePayload \<le> peerMaxFrameSize c \<and> peerMaxFrameSize c \<le> maxMaxFrameSize"

definition window_ok :: "int \<Rightarrow> bool" where
  "window_ok s \<longleftrightarrow> - (2 ^ 31) \<le> s \<and> s \<le> maxInitialWindowSize"

definition flow_ok :: "flowControl \<Rightarrow> bool" where
  "flow_ok f \<longleftrightarrow> length (stream f) = length (streamIDs f) \<and> distinct (streamIDs f) \<and>
     list_all window_ok (stream f)"

lemma window_ok_int32: "window_ok s \<Longrightarrow> int32 s = s"
  by (simp add: window_ok_def in_int32_def maxInitialWindowSize_def)

lemma small_int32: "0 \<le> x \<Longrightarrow> x \<le> maxInitialWindowSize \<Longrightarrow> int32 x = x"
  by (rule window_ok_int32) (simp add: window_ok_def)

lemma conn_ok_fresh: "conn_ok freshConn"
  by (simp add: conn_ok_def freshConn_def flow_constants)

lemma flow_ok_new: "conn_ok c \<Longrightarrow> distinct ids \<Longrightarrow> flow_ok (newFlowControl c ids)"
  by (simp add: flow_ok_def newFlowControl_def conn_ok_def small_int32 list_all_iff window_ok_def)

subsection \<open>Debits\<close>

text \<open>\<open>take\<close> grants what all three ceilings allow, and nothing when one of them is exhausted.\<close>

definition grantable :: "http2conn \<Rightarrow> flowControl \<Rightarrow> nat \<Rightarrow> int \<Rightarrow> int" where
  "grantable c f idx want =
     max 0 (min (min want (peerMaxFrameSize c)) (min (peerConnSendWindow c) (stream f ! idx)))"

lemma takeCredit_eq:
  assumes "conn_ok c" and "flow_ok f" and "idx < length (stream f)" and "0 \<le> want"
  shows "takeCredit c f idx want =
     (let n = grantable c f idx want in
      (n, c\<lparr>peerConnSendWindow := peerConnSendWindow c - n\<rparr>,
       f\<lparr>stream := (stream f)[idx := stream f ! idx - n]\<rparr>))"
proof -
  have cap: "int32 (min want (peerMaxFrameSize c)) = min want (peerMaxFrameSize c)"
    using assms(1,4) by (intro small_int32) (auto simp: conn_ok_def flow_constants)
  have win: "window_ok (stream f ! idx)" using assms(2,3) by (simp add: flow_ok_def list_all_length)
  have debit: "int32 (w - n) = w - n" if "window_ok w" "0 \<le> n" "n \<le> w" for w n :: int
    using that by (intro window_ok_int32) (simp add: window_ok_def)
  have cw: "window_ok (peerConnSendWindow c)" using assms(1) by (simp add: conn_ok_def window_ok_def)
  define n where "n = grantable c f idx want"
  have "0 \<le> n" by (simp add: n_def grantable_def)
  show ?thesis
  proof (cases "n = 0")
    case True
    then have "min (min want (peerMaxFrameSize c)) (min (peerConnSendWindow c) (stream f ! idx)) \<le> 0"
      by (simp add: n_def grantable_def)
    then show ?thesis using True by (auto simp: takeCredit_def Let_def cap n_def [symmetric])
  next
    case False
    with \<open>0 \<le> n\<close> have n: "0 < n" "n = min (min want (peerMaxFrameSize c)) (min (peerConnSendWindow c) (stream f ! idx))"
      unfolding n_def grantable_def by (simp_all add: max_def split: if_splits)
    then have le: "n \<le> peerConnSendWindow c" "n \<le> stream f ! idx" by simp_all
    have "takeCredit c f idx want = (n, c\<lparr>peerConnSendWindow := int32 (peerConnSendWindow c - n)\<rparr>,
        f\<lparr>stream := (stream f)[idx := int32 (stream f ! idx - n)]\<rparr>)"
    proof -
      let ?a = "min want (peerMaxFrameSize c)" and ?w = "peerConnSendWindow c"
      have "(let a = (if ?w < ?a then ?w else ?a) in if stream f ! idx < a then stream f ! idx else a) = n"
        unfolding n(2) by (simp add: Let_def min_def)
      then show ?thesis using n(1) unfolding takeCredit_def Let_def cap by auto
    qed
    also have "\<dots> = (n, c\<lparr>peerConnSendWindow := peerConnSendWindow c - n\<rparr>,
        f\<lparr>stream := (stream f)[idx := stream f ! idx - n]\<rparr>)"
      using debit [OF cw _ le(1)] debit [OF win _ le(2)] n(1) by simp
    finally show ?thesis by (simp add: n_def [symmetric] Let_def)
  qed
qed

lemma reserveCheck_eq:
  assumes "length ns = length ss" and "list_all ((\<le>) 0) ns" and "0 \<le> t"
    and "t + sum_list ns \<le> maxInitialWindowSize"
  shows "reserveCheck ns ss t = (if list_all2 (\<lambda>n s. n = 0 \<or> n \<le> s) ns ss then Some (t + sum_list ns) else None)"
  using assms
proof (induction ns ss t rule: reserveCheck.induct)
  case (1 n ns s ss t)
  have "0 \<le> sum_list ns" using "1.prems"(2) by (intro sum_list_nonneg) (simp add: list_all_iff)
  then have t: "int32 (t + n) = t + n"
    using "1.prems" by (intro small_int32) simp_all
  show ?case using 1 t by (cases "n = 0") (auto simp: add.assoc)
qed simp_all

lemma reserve_eq:
  assumes "conn_ok c" and "flow_ok f" and "length needs = length (stream f)"
    and "list_all ((\<le>) 0) needs" and "sum_list needs \<le> maxInitialWindowSize"
  shows "reserve c f needs =
     (if list_all2 (\<lambda>n s. n = 0 \<or> n \<le> s) needs (stream f) \<and> sum_list needs \<le> peerConnSendWindow c
      then (True, c\<lparr>peerConnSendWindow := peerConnSendWindow c - sum_list needs\<rparr>,
            f\<lparr>stream := map2 (-) (stream f) needs\<rparr>)
      else (False, c, f))"
proof -
  have chk: "reserveCheck needs (stream f) 0 =
      (if list_all2 (\<lambda>n s. n = 0 \<or> n \<le> s) needs (stream f) then Some (sum_list needs) else None)"
    using assms by (subst reserveCheck_eq) simp_all
  have nonneg: "0 \<le> sum_list needs" using assms(4) by (intro sum_list_nonneg) (simp add: list_all_iff)
  have conn: "int32 (peerConnSendWindow c - sum_list needs) = peerConnSendWindow c - sum_list needs"
    if "sum_list needs \<le> peerConnSendWindow c"
    using that assms(1) nonneg by (intro small_int32) (auto simp: conn_ok_def)
  have debits: "map2 (\<lambda>s n. int32 (s - n)) (stream f) needs = map2 (-) (stream f) needs"
    if "list_all2 (\<lambda>n s. n = 0 \<or> n \<le> s) needs (stream f)"
  proof (rule map_cong [OF refl], clarify)
    fix s n assume "(s, n) \<in> set (zip (stream f) needs)"
    then obtain i where i: "i < length needs" "s = stream f ! i" "n = needs ! i"
      using assms(3) by (auto simp: in_set_zip)
    with that assms(2,3,4) have "window_ok s" and "0 \<le> n" and "n = 0 \<or> n \<le> s"
      by (auto simp: flow_ok_def list_all_length list_all2_conv_all_nth)
    then show "int32 (s - n) = s - n" by (intro window_ok_int32) (auto simp: window_ok_def)
  qed
  show ?thesis by (auto simp: reserve_def chk conn debits)
qed

subsection \<open>Credits\<close>

lemma creditStream_eq:
  assumes "length is = length ss" and "distinct is" and "list_all window_ok ss" and "0 \<le> n"
  shows "creditStream sid n is ss =
     (if \<exists>k < length is. is ! k = sid \<and> ss ! k + n > maxInitialWindowSize then Inl (StreamWindowExceeded sid)
      else Inr (sid \<in> set is, map2 (\<lambda>i s. if i = sid then s + n else s) is ss))"
  using assms
proof (induction sid n "is" ss rule: creditStream.induct)
  case (1 sid n i "is" s ss)
  have keep: "map2 (\<lambda>i s. if i = sid then s + n else s) is ss = ss" if "i = sid"
    using "1.prems" that by (intro nth_equalityI) (auto dest: nth_mem)
  show ?case
  proof (cases "i = sid")
    case True
    have "int32 (s + n) = s + n" if "s + n \<le> maxInitialWindowSize"
      using that "1.prems" by (intro window_ok_int32) (auto simp: window_ok_def)
    moreover have "(\<exists>k < length (i # is). (i # is) ! k = sid \<and> (s # ss) ! k + n > maxInitialWindowSize) \<longleftrightarrow>
        s + n > maxInitialWindowSize"
      using "1.prems"(2) True by (auto simp: less_Suc_eq_0_disj dest: nth_mem)
    ultimately show ?thesis using True keep by auto
  next
    case False
    have "(\<exists>k < length (i # is). (i # is) ! k = sid \<and> (s # ss) ! k + n > maxInitialWindowSize) \<longleftrightarrow>
        (\<exists>k < length is. is ! k = sid \<and> ss ! k + n > maxInitialWindowSize)"
      using False by (auto simp: less_Suc_eq_0_disj)
    with 1 False show ?thesis by auto
  qed
qed simp_all

lemma adjustmentFault_None:
  "length is = length ss \<Longrightarrow>
   adjustmentFault d is ss = None \<longleftrightarrow> list_all (\<lambda>s. window_ok (s + d)) ss"
  by (induction d "is" ss rule: adjustmentFault.induct) (auto simp: window_ok_def)

lemma addStream_ok:
  assumes "flow_ok f" and "0 \<le> n" and "addStream f sid n = Inr f'"
  shows "flow_ok f' \<and> streamIDs f' = streamIDs f \<and>
     stream f' = map2 (\<lambda>i s. if i = sid then s + n else s) (streamIDs f) (stream f)"
proof -
  let ?up = "map2 (\<lambda>i s. if i = sid then s + n else s) (streamIDs f) (stream f)"
  have len: "length (streamIDs f) = length (stream f)" and dist: "distinct (streamIDs f)"
    and win: "list_all window_ok (stream f)" using assms(1) by (simp_all add: flow_ok_def)
  note eq = creditStream_eq [OF len dist win assms(2), of sid]
  from assms(3) have fits: "\<not> (\<exists>k < length (streamIDs f). streamIDs f ! k = sid \<and> stream f ! k + n > maxInitialWindowSize)"
    and f': "f' = (if sid \<in> set (streamIDs f) then notify (f\<lparr>stream := ?up\<rparr>) else f)"
    unfolding addStream_def eq by (auto split: if_splits)
  have str: "stream f' = ?up"
  proof (cases "sid \<in> set (streamIDs f)")
    case False
    then have "?up = stream f" using len by (intro nth_equalityI) (auto dest: nth_mem)
    with False f' show ?thesis by simp
  qed (simp add: f' notify_def)
  have "window_ok (?up ! k)" if "k < length (stream f)" for k
    using that fits len win assms(2) by (auto simp: list_all_length window_ok_def)
  then have "list_all window_ok ?up" using len by (simp add: list_all_length)
  with str f' len dist show ?thesis by (simp add: flow_ok_def notify_def)
qed

lemma applyInitDelta_ok:
  assumes "flow_ok f" and "applyInitDelta f d = Inr f'"
  shows "flow_ok f' \<and> streamIDs f' = streamIDs f \<and> stream f' = map (\<lambda>s. s + d) (stream f)"
proof (cases "d = 0")
  case True
  with assms show ?thesis by (simp add: applyInitDelta_def)
next
  case False
  with assms(2) have none: "adjustmentFault d (streamIDs f) (stream f) = None"
    and f': "f' = notify (f\<lparr>stream := map (\<lambda>s. int32 (s + d)) (stream f)\<rparr>)"
    by (auto simp: applyInitDelta_def split: option.splits)
  from none assms(1) have ok: "list_all (\<lambda>s. window_ok (s + d)) (stream f)"
    by (simp add: flow_ok_def adjustmentFault_None)
  then have "map (\<lambda>s. int32 (s + d)) (stream f) = map (\<lambda>s. s + d) (stream f)"
    by (intro map_cong) (auto simp: list_all_iff window_ok_int32)
  with f' ok assms(1) show ?thesis by (simp add: flow_ok_def notify_def list_all_iff)
qed

lemma addConnectionSendCredit_ok:
  assumes "conn_ok c" and "0 \<le> n" and "addConnectionSendCredit c n = Inr c'"
  shows "c' = c\<lparr>peerConnSendWindow := peerConnSendWindow c + n\<rparr> \<and> conn_ok c'"
  using assms small_int32 [of "peerConnSendWindow c + n"]
  by (auto simp: addConnectionSendCredit_def Let_def conn_ok_def split: if_splits)

definition setting_ok :: "Setting \<Rightarrow> bool" where
  "setting_ok s \<longleftrightarrow> (case s of SettingInitialWindowSize v \<Rightarrow> 0 \<le> v \<and> v < 2 ^ 32
     | SettingMaxFrameSize v \<Rightarrow> 0 \<le> v \<and> v < 2 ^ 32
     | SettingMaxConcurrentStreams v \<Rightarrow> 0 \<le> v \<and> v < 2 ^ 32
     | SettingOther i v \<Rightarrow> True)"

lemma foldSettings_ok:
  assumes "list_all setting_ok ss" and "foldSettings ss w m k = Inr (w', m', k')"
    and "0 \<le> w" and "w \<le> maxInitialWindowSize" and "maxDataFramePayload \<le> m" and "m \<le> maxMaxFrameSize"
  shows "0 \<le> w' \<and> w' \<le> maxInitialWindowSize \<and> maxDataFramePayload \<le> m' \<and> m' \<le> maxMaxFrameSize"
  using assms
  by (induction ss w m k rule: foldSettings.induct) (auto simp: setting_ok_def split: if_splits)

lemma applySettingsValues_ok:
  assumes "conn_ok c" and "list_all setting_ok ss" and "applySettingsValues c ss = Inr (d, c')"
  shows "conn_ok c' \<and> peerConnSendWindow c' = peerConnSendWindow c \<and>
     d = peerInitStreamWindow c' - peerInitStreamWindow c"
proof -
  from assms(3) obtain w m k
    where fold: "foldSettings ss (peerInitStreamWindow c) (peerMaxFrameSize c) (peerMaxStreams c) = Inr (w, m, k)"
      and c': "c' = c\<lparr>peerInitStreamWindow := w, peerMaxFrameSize := m, peerMaxStreams := k\<rparr>"
      and d: "d = int32 (int32 w - int32 (peerInitStreamWindow c))"
    by (auto simp: applySettingsValues_def split: sum.splits)
  have w: "0 \<le> w \<and> w \<le> maxInitialWindowSize \<and> maxDataFramePayload \<le> m \<and> m \<le> maxMaxFrameSize"
    using assms(1) by (intro foldSettings_ok [OF assms(2) fold]) (simp_all add: conn_ok_def)
  then have "int32 (w - peerInitStreamWindow c) = w - peerInitStreamWindow c"
    using assms(1) by (intro window_ok_int32) (auto simp: window_ok_def conn_ok_def maxInitialWindowSize_def)
  with w c' d assms(1) show ?thesis by (simp add: conn_ok_def small_int32)
qed

subsection \<open>A batch under concurrent credit updates\<close>

text \<open>
  What the two callers may deliver: the sender plans at most one TLS record at a time with
  non-negative needs per stream; the frame parser yields 31-bit window increments and 32-bit
  settings values.
\<close>

definition credit_admissible :: "int list \<Rightarrow> credit_event \<Rightarrow> bool" where
  "credit_admissible ids e \<longleftrightarrow> (case e of
       Take idx want \<Rightarrow> idx < length ids \<and> 0 \<le> want
     | Reserve needs \<Rightarrow> length needs = length ids \<and> list_all ((\<le>) 0) needs \<and>
         sum_list needs \<le> tlsRecordPlaintextBudget
     | ConnUpdate n \<Rightarrow> 0 \<le> n \<and> n < 2 ^ 31
     | StreamUpdate sid n \<Rightarrow> 0 \<le> n \<and> n < 2 ^ 31
     | Settings ss \<Rightarrow> list_all setting_ok ss)"

definition credit_ok :: "int list \<Rightarrow> credit_system \<Rightarrow> bool" where
  "credit_ok ids s \<longleftrightarrow> conn_ok (conn s) \<and> flow_ok (flow s) \<and> streamIDs (flow s) = ids \<and>
     length (streamGranted s) = length ids \<and> length (streamSpent s) = length ids \<and>
     peerConnSendWindow (conn s) = connGranted s - connSpent s \<and>
     stream (flow s) = map2 (-) (streamGranted s) (streamSpent s) \<and>
     list_all ((\<le>) 0) (streamSpent s) \<and> connSpent s = sum_list (streamSpent s)"

lemma sum_list_update_add_int:
  fixes xs :: "int list"
  shows "i < length xs \<Longrightarrow> sum_list (xs[i := xs ! i + d]) = sum_list xs + d"
proof (induction xs arbitrary: i)
  case (Cons x xs)
  then show ?case by (cases i) auto
qed simp

lemma sum_list_map2_add:
  fixes xs ys :: "int list"
  shows "length xs = length ys \<Longrightarrow> sum_list (map2 (+) xs ys) = sum_list xs + sum_list ys"
  by (induction xs ys rule: list_induct2) auto

lemma credit_ok_start: "conn_ok c \<Longrightarrow> distinct ids \<Longrightarrow> credit_ok ids (startBatch c ids)"
  by (simp add: credit_ok_def startBatch_def flow_ok_new) 
     (simp add: newFlowControl_def conn_ok_def small_int32 zip_replicate sum_list_replicate list_all_length)

lemma credit_ok_take:
  assumes "credit_ok ids s" and "idx < length ids" and "0 \<le> want"
  shows "credit_ok ids (creditStep s (Take idx want))"
proof -
  have len: "idx < length (stream (flow s))" using assms(1,2) by (auto simp: credit_ok_def flow_ok_def)
  define n where "n = grantable (conn s) (flow s) idx want"
  have n: "0 \<le> n" "n = 0 \<or> (n \<le> peerConnSendWindow (conn s) \<and> n \<le> stream (flow s) ! idx)"
    by (auto simp: n_def grantable_def)
  have "takeCredit (conn s) (flow s) idx want =
     (n, (conn s)\<lparr>peerConnSendWindow := peerConnSendWindow (conn s) - n\<rparr>,
       (flow s)\<lparr>stream := (stream (flow s))[idx := stream (flow s) ! idx - n]\<rparr>)"
    using assms len by (subst takeCredit_eq) (auto simp: credit_ok_def n_def Let_def)
  moreover have "flow_ok ((flow s)\<lparr>stream := (stream (flow s))[idx := stream (flow s) ! idx - n]\<rparr>)"
    using assms(1) len n
    by (auto simp: credit_ok_def flow_ok_def list_all_length nth_list_update window_ok_def)
  moreover have "(map2 (-) (streamGranted s) (streamSpent s))[idx := stream (flow s) ! idx - n] =
      map2 (-) (streamGranted s) ((streamSpent s)[idx := streamSpent s ! idx + n])"
    using assms(1,2) by (intro nth_equalityI) (auto simp: credit_ok_def nth_list_update)
  ultimately show ?thesis
    using assms(1,2) n
    by (auto simp: credit_ok_def conn_ok_def sum_list_update_add_int list_all_length nth_list_update)
qed

lemma credit_ok_reserve:
  assumes "credit_ok ids s" and "length needs = length ids" and "list_all ((\<le>) 0) needs"
    and "sum_list needs \<le> tlsRecordPlaintextBudget"
  shows "credit_ok ids (creditStep s (Reserve needs))"
proof -
  let ?c = "conn s" and ?f = "flow s"
  have len: "length needs = length (stream ?f)" using assms(1,2) by (simp add: credit_ok_def flow_ok_def)
  have nonneg: "0 \<le> sum_list needs" using assms(3) by (intro sum_list_nonneg) (simp add: list_all_iff)
  have eq: "reserve ?c ?f needs =
     (if list_all2 (\<lambda>n s. n = 0 \<or> n \<le> s) needs (stream ?f) \<and> sum_list needs \<le> peerConnSendWindow ?c
      then (True, ?c\<lparr>peerConnSendWindow := peerConnSendWindow ?c - sum_list needs\<rparr>,
            ?f\<lparr>stream := map2 (-) (stream ?f) needs\<rparr>)
      else (False, ?c, ?f))"
    using assms len by (intro reserve_eq) (auto simp: credit_ok_def flow_constants)
  show ?thesis
  proof (cases "list_all2 (\<lambda>n s. n = 0 \<or> n \<le> s) needs (stream ?f) \<and> sum_list needs \<le> peerConnSendWindow ?c")
    case fits: True
    have "flow_ok (?f\<lparr>stream := map2 (-) (stream ?f) needs\<rparr>)"
      using assms(1,3) len fits
      by (fastforce simp: credit_ok_def flow_ok_def list_all_length list_all2_conv_all_nth window_ok_def)
    moreover have "map2 (-) (map2 (-) (streamGranted s) (streamSpent s)) needs =
        map2 (-) (streamGranted s) (map2 (+) (streamSpent s) needs)"
      using assms(1,2) by (intro nth_equalityI) (auto simp: credit_ok_def)
    ultimately show ?thesis
      using fits assms nonneg len
      by (auto simp: eq credit_ok_def conn_ok_def sum_list_map2_add list_all_length)
  next
    case False
    with assms(1) show ?thesis by (auto simp: eq)
  qed
qed

lemma credit_ok_streamUpdate:
  assumes "credit_ok ids s" and "0 \<le> n"
  shows "credit_ok ids (creditStep s (StreamUpdate sid n))"
proof (cases "addStream (flow s) sid n")
  case (Inl e)
  with assms(1) show ?thesis by (auto simp: credit_ok_def)
next
  case (Inr f)
  have ok: "flow_ok f \<and> streamIDs f = streamIDs (flow s) \<and>
      stream f = map2 (\<lambda>i s. if i = sid then s + n else s) (streamIDs (flow s)) (stream (flow s))"
    using assms Inr by (intro addStream_ok) (auto simp: credit_ok_def)
  moreover have "map2 (\<lambda>i s. if i = sid then s + n else s) ids (map2 (-) (streamGranted s) (streamSpent s)) =
      map2 (-) (map2 (\<lambda>i g. if i = sid then g + n else g) ids (streamGranted s)) (streamSpent s)"
    using assms(1) by (intro nth_equalityI) (auto simp: credit_ok_def)
  ultimately show ?thesis using Inr assms(1) by (auto simp: credit_ok_def)
qed

lemma credit_ok_settings:
  assumes "credit_ok ids s" and "list_all setting_ok ss"
  shows "credit_ok ids (creditStep s (Settings ss))"
proof (cases "applySettingsValues (conn s) ss")
  case (Inl e)
  with assms(1) show ?thesis by (auto simp: credit_ok_def pumpApplySettings_def)
next
  case (Inr r)
  obtain d c where vals: "applySettingsValues (conn s) ss = Inr (d, c)" using Inr by (cases r) simp
  have c: "conn_ok c \<and> peerConnSendWindow c = peerConnSendWindow (conn s) \<and>
      d = peerInitStreamWindow c - peerInitStreamWindow (conn s)"
    using assms by (intro applySettingsValues_ok [OF _ _ vals]) (auto simp: credit_ok_def)
  show ?thesis
  proof (cases "applyInitDelta (flow s) d")
    case (Inl e)
    with vals c assms(1) show ?thesis by (auto simp: credit_ok_def pumpApplySettings_def)
  next
    case (Inr f)
    have f: "flow_ok f \<and> streamIDs f = streamIDs (flow s) \<and> stream f = map (\<lambda>s. s + d) (stream (flow s))"
      using assms(1) by (intro applyInitDelta_ok [OF _ Inr]) (auto simp: credit_ok_def)
    have "map (\<lambda>w. w + d) (map2 (-) (streamGranted s) (streamSpent s)) =
        map2 (-) (map (\<lambda>g. g + d) (streamGranted s)) (streamSpent s)"
      using assms(1) by (intro nth_equalityI) (auto simp: credit_ok_def)
    with c f vals Inr assms(1) show ?thesis by (auto simp: credit_ok_def pumpApplySettings_def)
  qed
qed

lemma credit_ok_connUpdate:
  assumes "credit_ok ids s" and "0 \<le> n"
  shows "credit_ok ids (creditStep s (ConnUpdate n))"
proof (cases "addConnectionSendCredit (conn s) n")
  case (Inl e)
  with assms(1) show ?thesis by (auto simp: credit_ok_def)
next
  case (Inr c)
  have "c = (conn s)\<lparr>peerConnSendWindow := peerConnSendWindow (conn s) + n\<rparr> \<and> conn_ok c"
    using assms Inr by (intro addConnectionSendCredit_ok) (auto simp: credit_ok_def)
  with Inr assms(1) show ?thesis by (auto simp: credit_ok_def flow_ok_def notify_def)
qed

lemma credit_ok_step:
  "credit_ok ids s \<Longrightarrow> credit_admissible ids e \<Longrightarrow> credit_ok ids (creditStep s e)"
  unfolding credit_admissible_def
  by (cases e) (simp_all only: credit_event.case credit_ok_take credit_ok_reserve
      credit_ok_connUpdate credit_ok_streamUpdate credit_ok_settings)

interpretation creditM: event_steps creditStep "credit_admissible ids" "credit_ok ids"
  for ids
  by unfold_locales (rule credit_ok_step)

lemma credit_ok_run:
  assumes "conn_ok c" and "distinct ids" and "list_all (credit_admissible ids) es"
  shows "credit_ok ids (foldl creditStep (startBatch c ids) es)"
  using assms(3) by (intro creditM.inv_foldl credit_ok_start assms(1,2))

text \<open>C5. However the sender's debits and the peer's WINDOW_UPDATE and SETTINGS frames interleave,
  the 32-bit windows are exact: the connection window is the credit granted minus the credit spent
  and stays within \<open>0\<close> and \<open>2 ^ 31 - 1\<close>, every stream window is that stream's granted minus its
  spent credit, and the connection was charged exactly what the streams were. In particular the
  sender never spends connection credit it was not granted.\<close>

theorem credit_accounting_exact:
  assumes "conn_ok c" and "distinct ids" and "list_all (credit_admissible ids) es"
    and "s = foldl creditStep (startBatch c ids) es"
  shows "peerConnSendWindow (conn s) = connGranted s - connSpent s \<and>
    0 \<le> peerConnSendWindow (conn s) \<and> peerConnSendWindow (conn s) \<le> maxInitialWindowSize \<and>
    connSpent s \<le> connGranted s \<and> connSpent s = sum_list (streamSpent s) \<and>
    stream (flow s) = map2 (-) (streamGranted s) (streamSpent s) \<and>
    list_all in_int32 (stream (flow s))"
proof -
  have ok: "credit_ok ids s" unfolding assms(4) using assms(1-3) by (rule credit_ok_run)
  then have "list_all window_ok (stream (flow s))" unfolding credit_ok_def flow_ok_def by blast
  then have "list_all in_int32 (stream (flow s))"
    by (rule list.pred_mono_strong) (simp add: window_ok_def in_int32_def maxInitialWindowSize_def)
  with ok show ?thesis by (simp add: credit_ok_def conn_ok_def)
qed

definition demo_credit_events :: "credit_event list" where
  "demo_credit_events = [Take 0 20000, StreamUpdate 3 1000, Settings [SettingInitialWindowSize 100],
     Reserve [0, 1000], ConnUpdate 500, Take 0 7]"

theorem credit_accounting_exact_witness:
  "let s = foldl creditStep (startBatch freshConn [1, 3]) demo_credit_events in
   peerConnSendWindow (conn s) = 48651 \<and> connGranted s - connSpent s = 48651 \<and>
   stream (flow s) = [- 16284, 100] \<and> streamSpent s = [16384, 1000]"
proof -
  let ?s = "foldl creditStep (startBatch freshConn [1, 3]) demo_credit_events"
  have adm: "list_all (credit_admissible [1, 3]) demo_credit_events"
    by (simp add: demo_credit_events_def credit_admissible_def setting_ok_def flow_constants)
  have run: "peerConnSendWindow (conn ?s) = 48651 \<and> stream (flow ?s) = [- 16284, 100] \<and>
      streamSpent ?s = [16384, 1000]"
    by code_simp
  show ?thesis
    using credit_accounting_exact [OF conn_ok_fresh _ adm refl] run by (simp add: Let_def)
qed

text \<open>\<open>reserve\<close> is all or nothing: it succeeds exactly when every participating stream and the
  connection hold enough credit, then debits each by exactly its need, and otherwise changes
  nothing.\<close>

theorem reserve_all_or_nothing:
  assumes "conn_ok c" and "flow_ok f" and "length needs = length (stream f)"
    and "list_all ((\<le>) 0) needs" and "sum_list needs \<le> tlsRecordPlaintextBudget"
  shows "(let fits = (list_all2 (\<lambda>n w. n = 0 \<or> n \<le> w) needs (stream f) \<and>
              sum_list needs \<le> peerConnSendWindow c) in
     case reserve c f needs of (ok, c', f') \<Rightarrow> ok = fits \<and>
       (if fits then peerConnSendWindow c' = peerConnSendWindow c - sum_list needs \<and>
                     stream f' = map2 (-) (stream f) needs
        else c' = c \<and> f' = f))"
  using assms by (subst reserve_eq) (auto simp: Let_def flow_constants)

theorem reserve_all_or_nothing_witness:
  "reserve freshConn (newFlowControl freshConn [1, 3]) [10, 0] =
     (True, freshConn\<lparr>peerConnSendWindow := 65525\<rparr>,
      (newFlowControl freshConn [1, 3])\<lparr>stream := [65525, 65535]\<rparr>)"
  using reserve_all_or_nothing [OF conn_ok_fresh flow_ok_new [OF conn_ok_fresh, of "[1, 3]"], of "[10, 0]"]
  by code_simp

text \<open>\<open>take\<close> grants exactly the smallest of the request, the peer's frame size, the connection
  window and the stream window, or nothing when that is not positive, and debits both windows by
  the amount it returns.\<close>

theorem take_grants_minimum:
  assumes "conn_ok c" and "flow_ok f" and "idx < length (stream f)" and "0 \<le> want"
  shows "(let n = max 0 (min (min want (peerMaxFrameSize c)) (min (peerConnSendWindow c) (stream f ! idx))) in
     takeCredit c f idx want =
       (n, c\<lparr>peerConnSendWindow := peerConnSendWindow c - n\<rparr>,
        f\<lparr>stream := (stream f)[idx := stream f ! idx - n]\<rparr>))"
  using takeCredit_eq [OF assms] by (simp add: grantable_def)

theorem take_grants_minimum_witness:
  "takeCredit freshConn (newFlowControl freshConn [1, 3]) 1 20000 =
     (16384, freshConn\<lparr>peerConnSendWindow := 49151\<rparr>,
      (newFlowControl freshConn [1, 3])\<lparr>stream := [65535, 49151]\<rparr>)"
  using take_grants_minimum [OF conn_ok_fresh flow_ok_new [OF conn_ok_fresh, of "[1, 3]"], of 1 20000]
  by code_simp

end
