(* ===== verification/Wire.thy ===== *)
theory Wire
  imports FlowControl "HOL-Library.Word"
begin

text \<open>
  What a batch puts on the wire (\<open>tth2/conn.go\<close>, \<open>tth2/transport.go\<close>, \<open>tth2/writer.go\<close>): stream
  identifiers, the frames of a header block, and the record writer that keeps everything between
  two flushes inside one TLS record. The buffered writer is the list of frames written since the
  last flush; a frame occupies its nine-byte header plus its payload (RFC 9113, section 4.1).
  \<open>Buffered\<close> is what \<open>bufio.Writer\<close> reports: the writer holds 128 KB and flushes by itself when a
  write does not fit. The framer and the socket are outside the repository: whether they
  accept a frame or a flush is the argument \<open>accepts\<close> or \<open>flushes\<close> of the operations that use them.
\<close>

subsection \<open>Stream identifiers\<close>

definition maxStreamID :: int where "maxStreamID = 2 ^ 31 - 1"

datatype stream_error = StreamIDsExhausted int nat

text \<open>\<open>nextStreamID\<close> is a \<open>uint32\<close>; the bound is checked in 64 bits before the 32-bit sums are formed.\<close>

definition allocateStreamIDs :: "32 word \<Rightarrow> nat \<Rightarrow> stream_error + (32 word list \<times> 32 word)" where
  "allocateStreamIDs nextStreamID n =
     (if n = 0 then Inr ([], nextStreamID)
      else let last = uint nextStreamID + 2 * (int n - 1) in
        if last > maxStreamID then Inl (StreamIDsExhausted (uint nextStreamID) n)
        else Inr (map (\<lambda>i. nextStreamID + word_of_int (2 * int i)) [0..<n],
                  nextStreamID + word_of_int (2 * int n)))"

record id_state =
  nextStreamID :: "32 word"
  issued :: "32 word list"

text \<open>The batches of one connection, in order; a failed allocation ends its use.\<close>

definition allocateBatch :: "id_state \<Rightarrow> nat \<Rightarrow> id_state" where
  "allocateBatch s n = (case allocateStreamIDs (nextStreamID s) n of
       Inl _ \<Rightarrow> s
     | Inr (ids, nx) \<Rightarrow> \<lparr>nextStreamID = nx, issued = issued s @ ids\<rparr>)"

lemma uint_add_even:
  fixes w :: "32 word"
  assumes "0 \<le> k" and "uint w + k < 2 ^ 32"
  shows "uint (w + word_of_int k) = uint w + k"
proof -
  have "k < 2 ^ 32" using assms(2) uint_ge_0 [of w] by linarith
  then have "uint (word_of_int k :: 32 word) = k"
    using assms(1) by (simp add: uint_word_of_int take_bit_eq_mod)
  then show ?thesis using assms by (simp add: uint_plus_if')
qed

text \<open>What a successful allocation hands out, in unbounded integers.\<close>

lemma allocateStreamIDs_uint:
  assumes "allocateStreamIDs w n = Inr (ids, nx)"
  shows "map uint ids = map (\<lambda>i. uint w + 2 * int i) [0..<n]"
    and "0 < n \<Longrightarrow> uint w + 2 * (int n - 1) \<le> maxStreamID"
    and "uint nx = uint w + 2 * int n"
proof -
  show fits: "uint w + 2 * (int n - 1) \<le> maxStreamID" if "0 < n"
    using assms that by (auto simp: allocateStreamIDs_def Let_def split: if_splits)
  have "uint (w + word_of_int (2 * int i)) = uint w + 2 * int i" if "i < n" for i
    using fits that by (intro uint_add_even) (auto simp: maxStreamID_def)
  then show "map uint ids = map (\<lambda>i. uint w + 2 * int i) [0..<n]"
    using assms by (auto simp: allocateStreamIDs_def Let_def split: if_splits)
  show "uint nx = uint w + 2 * int n"
  proof (cases "n = 0")
    case False
    then have "uint (w + word_of_int (2 * int n)) = uint w + 2 * int n"
      using fits by (intro uint_add_even) (auto simp: maxStreamID_def)
    with False assms show ?thesis by (auto simp: allocateStreamIDs_def Let_def split: if_splits)
  qed (use assms in \<open>simp add: allocateStreamIDs_def\<close>)
qed

definition ids_ok :: "id_state \<Rightarrow> bool" where
  "ids_ok s \<longleftrightarrow> odd (uint (nextStreamID s)) \<and> sorted_wrt (<) (map uint (issued s)) \<and>
     (\<forall>w\<in>set (issued s). odd (uint w) \<and> uint w \<le> maxStreamID \<and> uint w < uint (nextStreamID s))"

lemma ids_ok_step: "ids_ok s \<Longrightarrow> ids_ok (allocateBatch s n)"
proof (cases "allocateStreamIDs (nextStreamID s) n")
  case (Inr r)
  obtain ids nx where r: "r = (ids, nx)" by (cases r)
  note alloc = allocateStreamIDs_uint [OF Inr [unfolded r]]
  assume ok: "ids_ok s"
  have new: "odd (uint w) \<and> uint w \<le> maxStreamID \<and> uint (nextStreamID s) \<le> uint w \<and> uint w < uint nx"
    if "w \<in> set ids" for w
  proof -
    from that have "uint w \<in> set (map uint ids)" by simp
    then obtain i where "i < n" "uint w = uint (nextStreamID s) + 2 * int i"
      unfolding alloc(1) by auto
    with alloc(2,3) ok show ?thesis by (auto simp: ids_ok_def)
  qed
  have "sorted_wrt (<) (map uint ids)"
    unfolding alloc(1) by (simp add: sorted_wrt_map sorted_wrt_iff_nth_less)
  with ok new alloc(3) show ?thesis
    by (fastforce simp: allocateBatch_def Inr r ids_ok_def sorted_wrt_append)
qed (simp add: allocateBatch_def)

interpretation idsM: event_machine allocateBatch "\<lambda>_. True" ids_ok "\<lparr>nextStreamID = 1, issued = []\<rparr>"
  by unfold_locales (simp_all add: ids_ok_step, simp add: ids_ok_def)

text \<open>C15. Whatever batches a connection carries, the stream identifiers it issues over its life are
  odd, at most \<open>2 ^ 31 - 1\<close>, strictly increasing in the order they are issued, and therefore never
  reused.\<close>

theorem stream_ids_fresh:
  "let s = foldl allocateBatch \<lparr>nextStreamID = 1, issued = []\<rparr> ns in
     distinct (issued s) \<and> sorted_wrt (<) (map uint (issued s)) \<and>
     list_all (\<lambda>w. odd (uint w) \<and> uint w \<le> 2 ^ 31 - 1) (issued s)"
proof -
  let ?s = "foldl allocateBatch \<lparr>nextStreamID = 1, issued = []\<rparr> ns"
  have ok: "ids_ok ?s" by (rule idsM.inv_run) (simp add: list_all_iff)
  then have "distinct (map uint (issued ?s))"
    by (simp add: ids_ok_def strict_sorted_iff)
  with ok show ?thesis
    by (simp add: Let_def ids_ok_def list_all_iff maxStreamID_def distinct_map)
qed

text \<open>\<open>allocateStreamIDs\<close> fails exactly when the last identifier of the batch would exceed the
  protocol's cap; otherwise it returns \<open>n\<close> consecutive odd or even identifiers starting at the
  counter and moves the counter past them, without 32-bit wrap-around.\<close>

theorem allocateStreamIDs_exhaustion:
  "(case allocateStreamIDs w n of
      Inl _ \<Rightarrow> 0 < n \<and> uint w + 2 * (int n - 1) > 2 ^ 31 - 1
    | Inr (ids, nx) \<Rightarrow> (n = 0 \<or> uint w + 2 * (int n - 1) \<le> 2 ^ 31 - 1) \<and>
        map uint ids = map (\<lambda>i. uint w + 2 * int i) [0..<n] \<and> uint nx = uint w + 2 * int n)"
proof (cases "allocateStreamIDs w n")
  case (Inl e)
  then show ?thesis by (auto simp: allocateStreamIDs_def Let_def maxStreamID_def split: if_splits)
next
  case (Inr r)
  obtain ids nx where r: "r = (ids, nx)" by (cases r)
  show ?thesis using allocateStreamIDs_uint [OF Inr [unfolded r]]
    by (auto simp: Inr r maxStreamID_def)
qed

subsection \<open>Frames and header blocks\<close>

datatype frame =
    HeadersFrame int bytes bool bool
  | ContinuationFrame int bool bytes
  | DataFrame int bool bytes
  | ControlFrame bytes

fun payload :: "frame \<Rightarrow> bytes" where
  "payload (HeadersFrame _ b _ _) = b"
| "payload (ContinuationFrame _ _ b) = b"
| "payload (DataFrame _ _ b) = b"
| "payload (ControlFrame b) = b"

fun isControl :: "frame \<Rightarrow> bool" where
  "isControl (ControlFrame _) \<longleftrightarrow> True"
| "isControl _ \<longleftrightarrow> False"

definition frameBytes :: "frame \<Rightarrow> int" where
  "frameBytes f = http2FrameHeaderSize + int (length (payload f))"

definition wireBytes :: "frame list \<Rightarrow> int" where
  "wireBytes fs = sum_list (map frameBytes fs)"

lemma wireBytes_simps [simp]:
  "wireBytes [] = 0" "wireBytes (f # fs) = frameBytes f + wireBytes fs"
  "wireBytes (fs @ gs) = wireBytes fs + wireBytes gs"
  by (simp_all add: wireBytes_def)

text \<open>One \<open>bufio.Writer.Write\<close> of \<open>n\<close> bytes with \<open>buffered\<close> bytes waiting: what does not fit goes to the connection at
  once, past an empty buffer directly, and otherwise after filling the buffer and flushing it. The framer writes a
  frame with one such call.\<close>

definition bufioSize :: int where "bufioSize = 128 * 1024"

definition bufioWrite :: "int \<Rightarrow> int \<Rightarrow> int" where
  "bufioWrite buffered n =
     (if n \<le> bufioSize - buffered then buffered + n
      else if buffered = 0 then 0
      else let n = n - (bufioSize - buffered) in if n \<le> bufioSize then n else 0)"

definition Buffered :: "frame list \<Rightarrow> int" where
  "Buffered fs = foldl (\<lambda>k f. bufioWrite k (frameBytes f)) 0 fs"

lemma frameBytes_pos: "0 < frameBytes f"
  by (simp add: frameBytes_def http2FrameHeaderSize_def)

lemma wireBytes_nonneg: "0 \<le> wireBytes fs"
proof (induction fs)
  case (Cons f fs)
  then show ?case using frameBytes_pos [of f] by simp
qed simp

lemma Buffered_Nil [simp]: "Buffered [] = 0"
  by (simp add: Buffered_def)

lemma bufio_fits: "k + wireBytes fs \<le> bufioSize \<Longrightarrow> foldl (\<lambda>k f. bufioWrite k (frameBytes f)) k fs = k + wireBytes fs"
proof (induction fs arbitrary: k)
  case (Cons f fs)
  then have "bufioWrite k (frameBytes f) = k + frameBytes f"
    using wireBytes_nonneg [of fs] by (simp add: bufioWrite_def)
  with Cons show ?case by simp
qed simp

text \<open>Nothing is flushed by the writer itself while the frames fit its buffer.\<close>

lemma Buffered_append: "Buffered bw + wireBytes fs \<le> bufioSize \<Longrightarrow> Buffered (bw @ fs) = Buffered bw + wireBytes fs"
  using bufio_fits [of "Buffered bw" fs] by (simp add: Buffered_def)

lemma Buffered_exact: "wireBytes fs \<le> bufioSize \<Longrightarrow> Buffered fs = wireBytes fs"
  using Buffered_append [of "[]" fs] by simp

lemma budget_fits: "tlsRecordPlaintextBudget \<le> bufioSize"
  by (simp add: tlsRecordPlaintextBudget_def bufioSize_def)

datatype wire_error =
    InvalidMaxFrameSize int
  | HeaderBlockTooLarge int int
  | WriteFailed frame
  | RecordWouldSplit int
  | FlushFailed
  | WriteBroken
  | ReadFailed

text \<open>The CONTINUATION loop of \<open>writeHeaderBlock\<close>. A write error leaves the frames before it in the
  buffer, as the source does.\<close>

function writeContinuations ::
    "(frame \<Rightarrow> bool) \<Rightarrow> nat \<Rightarrow> int \<Rightarrow> bytes \<Rightarrow> frame list \<Rightarrow> wire_error option \<times> frame list" where
  "writeContinuations accepts mx sid hblock bw =
     (if hblock = [] \<or> mx = 0 then (None, bw)
      else let chunk = take mx hblock;
               f = ContinuationFrame sid (length chunk = length hblock) chunk
           in if accepts f then writeContinuations accepts mx sid (drop mx hblock) (bw @ [f])
              else (Some (WriteFailed f), bw))"
  by pat_completeness auto
termination by (relation "measure (\<lambda>(_, _, _, b, _). length b)") auto

definition writeHeaderBlock ::
    "(frame \<Rightarrow> bool) \<Rightarrow> http2conn \<Rightarrow> int \<Rightarrow> bytes \<Rightarrow> bool \<Rightarrow> frame list \<Rightarrow> wire_error option \<times> frame list" where
  "writeHeaderBlock accepts c sid hblock endStream bw =
     (let mx = peerMaxFrameSize c in
      if mx \<le> 0 then (Some (InvalidMaxFrameSize mx), bw)
      else let frames = (if length hblock > 0 then (int (length hblock) - 1) div mx + 1 else 1);
               recordBytes = Buffered bw + int (length hblock) + frames * http2FrameHeaderSize
           in if recordBytes > tlsRecordPlaintextBudget
              then (Some (HeaderBlockTooLarge sid recordBytes), bw)
              else let first = take (nat mx) hblock;
                       f = HeadersFrame sid first endStream (length first = length hblock)
                   in if accepts f
                      then writeContinuations accepts (nat mx) sid (drop (length first) hblock) (bw @ [f])
                      else (Some (WriteFailed f), bw))"

declare writeContinuations.simps [simp del]

lemma writeContinuations_Nil [simp]: "writeContinuations acc mx sid [] bw = (None, bw)"
  by (simp add: writeContinuations.simps)

text \<open>The frames a block of bytes becomes when nothing fails: the specification of the loop.\<close>

fun chunks :: "nat \<Rightarrow> nat \<Rightarrow> bytes \<Rightarrow> bytes list" where
  "chunks 0 mx b = []"
| "chunks (Suc k) mx b = (if b = [] then [] else take mx b # chunks k mx (drop mx b))"

lemma chunks_concat: "0 < mx \<Longrightarrow> length b \<le> k \<Longrightarrow> concat (chunks k mx b) = b"
proof (induction k arbitrary: b)
  case (Suc k)
  have "length (drop mx b) \<le> k" if "b \<noteq> []" using Suc.prems that by (cases b) auto
  with Suc show ?case by (cases "b = []") simp_all
qed simp

lemma chunks_bounds: "\<forall>x\<in>set (chunks k mx b). length x \<le> mx"
  by (induction k arbitrary: b) auto

lemma chunks_nonempty: "0 < mx \<Longrightarrow> \<forall>x\<in>set (chunks k mx b). x \<noteq> []"
  by (induction k arbitrary: b) auto

lemma length_chunks:
  assumes "0 < mx" and "length b \<le> k"
  shows "int (length (chunks k mx b)) = (if b = [] then 0 else (int (length b) - 1) div int mx + 1)"
  using assms(2)
proof (induction k arbitrary: b)
  case (Suc k)
  show ?case
  proof (cases "b = []")
    case False
    then have len: "length (drop mx b) \<le> k" using Suc.prems assms(1) by (cases b) auto
    show ?thesis
    proof (cases "length b \<le> mx")
      case True
      then have "(int (length b) - 1) div int mx = 0"
        using False by (intro div_pos_pos_trivial) (cases b, auto)
      with True False show ?thesis by (cases k) auto
    next
      case gt: False
      then have "int (length b) - 1 = (int (length b) - int mx - 1) + int mx" by simp
      then have "(int (length b) - 1) div int mx = (int (length b) - int mx - 1) div int mx + 1"
        using assms(1) by (metis div_add_self2 of_nat_0_less_iff less_irrefl)
      with Suc.IH [OF len] False gt show ?thesis by (simp add: of_nat_diff)
    qed
  qed simp
qed simp

fun contFrames :: "int \<Rightarrow> bytes list \<Rightarrow> frame list" where
  "contFrames sid [] = []"
| "contFrames sid (c # cs) = ContinuationFrame sid (cs = []) c # contFrames sid cs"

lemma payload_contFrames [simp]: "map payload (contFrames sid cs) = cs"
  by (induction cs) auto

lemma length_contFrames [simp]: "length (contFrames sid cs) = length cs"
  by (induction cs) auto

lemma writeContinuations_spec:
  assumes "0 < mx" and "length b \<le> k"
  shows "fst (writeContinuations acc mx sid b bw) = None \<Longrightarrow>
    snd (writeContinuations acc mx sid b bw) = bw @ contFrames sid (chunks k mx b)"
  using assms(2)
proof (induction k arbitrary: b bw)
  case 0
  then show ?case by simp
next
  case (Suc k)
  show ?case
  proof (cases "b = []")
    case False
    let ?f = "ContinuationFrame sid (length (take mx b) = length b) (take mx b)"
    have len: "length (drop mx b) \<le> k" using Suc.prems(2) assms(1) False by (cases b) auto
    have eq: "writeContinuations acc mx sid b bw =
        (if acc ?f then writeContinuations acc mx sid (drop mx b) (bw @ [?f]) else (Some (WriteFailed ?f), bw))"
      using False assms(1) by (subst writeContinuations.simps) (simp add: Let_def)
    with Suc.prems(1) have acc: "acc ?f" by (auto split: if_splits)
    have last: "length (take mx b) = length b \<longleftrightarrow> chunks k mx (drop mx b) = []"
    proof
      assume "length (take mx b) = length b"
      then show "chunks k mx (drop mx b) = []" by (cases k) auto
    next
      assume "chunks k mx (drop mx b) = []"
      then have "drop mx b = []" using chunks_concat [OF assms(1) len] by simp
      then show "length (take mx b) = length b" by simp
    qed
    show ?thesis using Suc.IH [OF _ len] Suc.prems(1) eq acc False last by simp
  qed simp
qed

fun endHeaders :: "frame \<Rightarrow> bool" where
  "endHeaders (HeadersFrame _ _ _ e) \<longleftrightarrow> e"
| "endHeaders (ContinuationFrame _ e _) \<longleftrightarrow> e"
| "endHeaders _ \<longleftrightarrow> False"

lemma endHeaders_contFrames:
  "map endHeaders (contFrames sid cs) = (if cs = [] then [] else replicate (length cs - 1) False @ [True])"
proof (induction cs)
  case (Cons c cs)
  then show ?case by (cases cs) auto
qed simp

definition headerFrames :: "int \<Rightarrow> bool \<Rightarrow> nat \<Rightarrow> bytes \<Rightarrow> frame list" where
  "headerFrames sid es mx b =
     HeadersFrame sid (take mx b) es (drop mx b = []) # contFrames sid (chunks (length b) mx (drop mx b))"

lemma writeHeaderBlock_cases:
  assumes "writeHeaderBlock accepts c sid b es bw = (None, bw')"
  shows "0 < peerMaxFrameSize c" and "bw' = bw @ headerFrames sid es (nat (peerMaxFrameSize c)) b"
    and "Buffered bw + int (length b) +
      (if length b > 0 then (int (length b) - 1) div peerMaxFrameSize c + 1 else 1) * http2FrameHeaderSize
      \<le> tlsRecordPlaintextBudget"
proof -
  let ?mx = "nat (peerMaxFrameSize c)"
  show mx: "0 < peerMaxFrameSize c"
    using assms by (auto simp: writeHeaderBlock_def Let_def split: if_splits)
  show "Buffered bw + int (length b) +
      (if length b > 0 then (int (length b) - 1) div peerMaxFrameSize c + 1 else 1) * http2FrameHeaderSize
      \<le> tlsRecordPlaintextBudget"
    using assms mx unfolding writeHeaderBlock_def Let_def by (simp split: if_splits)
  have first: "length (take ?mx b) = length b \<longleftrightarrow> drop ?mx b = []" by auto
  have drop: "drop (length (take ?mx b)) b = drop ?mx b"
    by (cases "length b \<le> ?mx") (auto simp: min_def)
  have "writeContinuations accepts ?mx sid (drop ?mx b)
      (bw @ [HeadersFrame sid (take ?mx b) es (drop ?mx b = [])]) = (None, bw')"
    using assms mx unfolding writeHeaderBlock_def Let_def first drop by (simp split: if_splits)
  then show "bw' = bw @ headerFrames sid es ?mx b"
    using writeContinuations_spec [of ?mx "drop ?mx b" "length b" accepts sid
        "bw @ [HeadersFrame sid (take ?mx b) es (drop ?mx b = [])]"] mx
    by (simp add: headerFrames_def)
qed

lemma headerFrames_payload:
  "0 < mx \<Longrightarrow> concat (map payload (headerFrames sid es mx b)) = b"
  by (simp add: headerFrames_def chunks_concat)

lemma headerFrames_endHeaders:
  assumes "0 < mx"
  shows "map endHeaders (headerFrames sid es mx b) =
    replicate (length (headerFrames sid es mx b) - 1) False @ [True]"
proof -
  let ?cs = "chunks (length b) mx (drop mx b)"
  have "drop mx b = [] \<longleftrightarrow> ?cs = []"
    using chunks_concat [OF assms, of "drop mx b" "length b"] by (cases "length b") auto
  then show ?thesis
    by (cases ?cs) (auto simp: headerFrames_def endHeaders_contFrames Cons_replicate_eq)
qed

lemma wireBytes_conv: "wireBytes fs = int (length fs) * http2FrameHeaderSize + int (length (concat (map payload fs)))"
  by (induction fs) (simp_all add: frameBytes_def algebra_simps)

text \<open>The pre-check of \<open>writeHeaderBlock\<close> is exact: it computes the size the buffer will have.\<close>

lemma wireBytes_headerFrames:
  assumes "0 < mx"
  shows "wireBytes (headerFrames sid es mx b) = int (length b) +
    (if length b > 0 then (int (length b) - 1) div int mx + 1 else 1) * http2FrameHeaderSize"
proof -
  let ?cs = "chunks (length b) mx (drop mx b)"
  have len: "length (headerFrames sid es mx b) = length ?cs + 1"
    by (simp add: headerFrames_def)
  have "int (length ?cs) + 1 = (if length b > 0 then (int (length b) - 1) div int mx + 1 else 1)"
  proof (cases b)
    case (Cons x xs)
    then have "chunks (Suc (length b)) mx b = take mx b # ?cs" by simp
    moreover have "int (length (chunks (Suc (length b)) mx b)) = (int (length b) - 1) div int mx + 1"
      using length_chunks [OF assms, of b "Suc (length b)"] Cons by simp
    ultimately show ?thesis using Cons by simp
  qed simp
  then show ?thesis
    by (simp add: wireBytes_conv headerFrames_payload [OF assms] len)
qed

lemma writeHeaderBlock_bytes:
  assumes "writeHeaderBlock accepts c sid b es bw = (None, bw')"
  shows "Buffered bw' = Buffered bw + wireBytes (headerFrames sid es (nat (peerMaxFrameSize c)) b)"
    and "Buffered bw' \<le> tlsRecordPlaintextBudget"
proof -
  note w = writeHeaderBlock_cases [OF assms]
  have le: "Buffered bw + wireBytes (headerFrames sid es (nat (peerMaxFrameSize c)) b) \<le> tlsRecordPlaintextBudget"
    using w(1,3) by (simp add: wireBytes_headerFrames add.assoc split: if_splits)
  then show eq: "Buffered bw' = Buffered bw + wireBytes (headerFrames sid es (nat (peerMaxFrameSize c)) b)"
    unfolding w(2) using budget_fits by (intro Buffered_append) linarith
  show "Buffered bw' \<le> tlsRecordPlaintextBudget" using eq le by simp
qed

text \<open>C14. When \<open>writeHeaderBlock\<close> succeeds, the frames it appends carry exactly the header block, in
  order: one HEADERS frame with the END_STREAM flag, then CONTINUATION frames of the same stream,
  END_HEADERS on the last frame only, no payload above the peer's frame size, and what the
  buffered writer holds still fits one TLS record, as do all the frames since the last flush where the writer had not
  flushed by itself before.\<close>

theorem header_block_framing:
  assumes "writeHeaderBlock accepts c sid b es bw = (None, bw')"
  shows "\<exists>first rest.
    let fs = HeadersFrame sid first es (rest = []) # contFrames sid rest in
    bw' = bw @ fs \<and> concat (map payload fs) = b \<and>
    map endHeaders fs = replicate (length fs - 1) False @ [True] \<and>
    (\<forall>f\<in>set fs. int (length (payload f)) \<le> peerMaxFrameSize c) \<and>
    Buffered bw' \<le> tlsRecordPlaintextBudget \<and>
    (wireBytes bw \<le> bufioSize \<longrightarrow> wireBytes bw' \<le> tlsRecordPlaintextBudget)"
proof -
  let ?mx = "nat (peerMaxFrameSize c)"
  let ?rest = "chunks (length b) ?mx (drop ?mx b)"
  note w = writeHeaderBlock_cases [OF assms]
  have mx: "0 < ?mx" using w(1) by simp
  have rest: "drop ?mx b = [] \<longleftrightarrow> ?rest = []"
    using chunks_concat [OF mx, of "drop ?mx b" "length b"] by (cases "length b") auto
  have fs: "headerFrames sid es ?mx b = HeadersFrame sid (take ?mx b) es (?rest = []) # contFrames sid ?rest"
    unfolding headerFrames_def rest ..
  have "int (length (payload f)) \<le> peerMaxFrameSize c" if "f \<in> set (headerFrames sid es ?mx b)" for f
  proof -
    have "payload f \<in> set (take ?mx b # ?rest)"
      using that image_eqI [of "payload f" payload f "set (contFrames sid ?rest)"]
      unfolding fs by (auto simp flip: set_map)
    then have "length (payload f) \<le> ?mx" using chunks_bounds by fastforce
    then show ?thesis using w(1) by linarith
  qed
  moreover have "Buffered bw' \<le> tlsRecordPlaintextBudget \<and>
      (wireBytes bw \<le> bufioSize \<longrightarrow> wireBytes bw' \<le> tlsRecordPlaintextBudget)"
    using writeHeaderBlock_bytes [OF assms] Buffered_exact [of bw] w(2) by auto
  ultimately show ?thesis
    using headerFrames_payload [OF mx, of sid es b] headerFrames_endHeaders [OF mx, of sid es b] w(2)
    unfolding fs Let_def by (intro exI [of _ "take ?mx b"] exI [of _ ?rest]) blast
qed

definition demo_conn :: http2conn where
  "demo_conn = freshConn\<lparr>peerMaxFrameSize := 4\<rparr>"

theorem header_block_framing_witness:
  "writeHeaderBlock (\<lambda>_. True) demo_conn 1 ''abcdefghij'' True [] =
     (None, [HeadersFrame 1 ''abcd'' True False, ContinuationFrame 1 False ''efgh'',
             ContinuationFrame 1 True ''ij'']) \<and>
   (\<exists>first rest. let fs = HeadersFrame 1 first True (rest = []) # contFrames 1 rest in
      concat (map payload fs) = ''abcdefghij'')"
proof -
  have run: "writeHeaderBlock (\<lambda>_. True) demo_conn 1 ''abcdefghij'' True [] =
     (None, [HeadersFrame 1 ''abcd'' True False, ContinuationFrame 1 False ''efgh'',
             ContinuationFrame 1 True ''ij''])"
    by (simp add: writeHeaderBlock_def demo_conn_def freshConn_def flow_constants
        writeContinuations.simps frameBytes_def)
  from header_block_framing [OF run] run show ?thesis unfolding Let_def by blast
qed

subsection \<open>The record writer\<close>

record wire =
  bw :: "frame list"
  writeBroken :: bool
  readError :: bool
  held :: bool
  sentRecords :: "frame list list"

text \<open>\<open>held\<close> is the batch sender's hold of \<open>wireMu\<close>; \<open>sentRecords\<close> logs what each flush put on the wire
  and has no counterpart in the source.\<close>

definition recordBegin :: "wire \<Rightarrow> wire_error option \<times> wire" where
  "recordBegin w =
     (if held w then (None, w)
      else if writeBroken w then (Some WriteBroken, w)
      else if readError w then (Some ReadFailed, w)
      else (None, w\<lparr>held := True\<rparr>))"

definition flushOneRecordUnlocked :: "bool \<Rightarrow> wire \<Rightarrow> wire_error option \<times> wire" where
  "flushOneRecordUnlocked flushes w =
     (if Buffered (bw w) > tlsRecordPlaintextBudget
      then (Some (RecordWouldSplit (Buffered (bw w))), w\<lparr>writeBroken := True\<rparr>)
      else if \<not> flushes then (Some FlushFailed, w\<lparr>writeBroken := True\<rparr>)
      else (None, w\<lparr>bw := [], sentRecords := sentRecords w @ [bw w]\<rparr>))"

definition recordFlush :: "bool \<Rightarrow> wire \<Rightarrow> wire_error option \<times> wire" where
  "recordFlush flushes w =
     (case recordBegin w of
        (Some e, w) \<Rightarrow> (Some e, w)
      | (None, w) \<Rightarrow> (case flushOneRecordUnlocked flushes w of (r, w) \<Rightarrow> (r, w\<lparr>held := False\<rparr>)))"

definition recordClose :: "wire \<Rightarrow> wire" where
  "recordClose w = (if held w then w\<lparr>writeBroken := True, held := False\<rparr> else w)"

text \<open>The sender's \<open>record.begin\<close> followed by a frame write; an error returns through \<open>defer record.close\<close>.\<close>

definition recordWrite :: "bool \<Rightarrow> frame \<Rightarrow> wire \<Rightarrow> wire_error option \<times> wire" where
  "recordWrite accepted f w =
     (case recordBegin w of
        (Some e, w) \<Rightarrow> (Some e, recordClose w)
      | (None, w) \<Rightarrow> if accepted then (None, w\<lparr>bw := bw w @ [f]\<rparr>)
                      else (Some (WriteFailed f), recordClose w))"

text \<open>The frame writes of one \<open>writeControl\<close> call, each with whether the framer accepts it; the first failure ends
  them. The calls of the source write a SETTINGS acknowledgement, a PING or its acknowledgement, or, for received
  DATA, a WINDOW_UPDATE of the stream, unless the stream ended, and one of the connection.\<close>

fun controlFrames :: "(bool \<times> bytes) list \<Rightarrow> frame list \<Rightarrow> wire_error option \<times> frame list" where
  "controlFrames [] buf = (None, buf)"
| "controlFrames ((accepted, b) # ws) buf =
     (if accepted then controlFrames ws (buf @ [ControlFrame b]) else (Some (WriteFailed (ControlFrame b)), buf))"

definition windowUpdateReply :: "bool \<Rightarrow> bytes \<Rightarrow> bytes list" where
  "windowUpdateReply streamEnded n = (if streamEnded then [] else [n]) @ [n]"

text \<open>\<open>writeControl\<close> runs only when \<open>wireMu\<close> is free; it is scheduled as one atomic step.\<close>

definition writeControl :: "(bool \<times> bytes) list \<Rightarrow> bool \<Rightarrow> wire \<Rightarrow> wire_error option \<times> wire" where
  "writeControl writes flushes w =
     (if writeBroken w then (Some WriteBroken, w)
      else if readError w then (Some ReadFailed, w)
      else case controlFrames writes (bw w) of
        (Some e, buf) \<Rightarrow> (Some e, w\<lparr>bw := buf, writeBroken := True\<rparr>)
      | (None, buf) \<Rightarrow>
          if \<not> flushes then (Some FlushFailed, w\<lparr>bw := buf, writeBroken := True\<rparr>)
          else (None, w\<lparr>bw := [], sentRecords := sentRecords w @ [buf]\<rparr>))"

datatype wire_event =
    BatchFrame bool frame
  | BatchFlush bool
  | BatchClose
  | Control "(bool \<times> bytes) list" bool
  | PumpFailed

fun wireStep :: "wire \<Rightarrow> wire_event \<Rightarrow> wire" where
  "wireStep w (BatchFrame accepted f) = snd (recordWrite accepted f w)"
| "wireStep w (BatchFlush flushes) = snd (recordFlush flushes w)"
| "wireStep w BatchClose = recordClose w"
| "wireStep w (Control writes flushes) = (if held w then w else snd (writeControl writes flushes w))"
| "wireStep w PumpFailed = w\<lparr>readError := True\<rparr>"

definition batchFrameOnly :: "wire_event \<Rightarrow> bool" where
  "batchFrameOnly e \<longleftrightarrow> (case e of BatchFrame _ f \<Rightarrow> \<not> isControl f | _ \<Rightarrow> True)"

text \<open>What one flush completed: the frames of one control call of \<open>C\<close>, or frames of a batch alone, which fit one record
  unless the writer has flushed by itself in between.\<close>

definition sent_ok :: "bytes list set \<Rightarrow> frame list \<Rightarrow> bool" where
  "sent_ok C r \<longleftrightarrow> (\<exists>bs\<in>C. r = map ControlFrame bs) \<or>
     (list_all (\<lambda>f. \<not> isControl f) r \<and> (wireBytes r \<le> tlsRecordPlaintextBudget \<or> bufioSize < wireBytes r))"

definition wire_inv :: "bytes list set \<Rightarrow> wire \<Rightarrow> bool" where
  "wire_inv C w \<longleftrightarrow> list_all (sent_ok C) (sentRecords w) \<and> (held w \<longrightarrow> \<not> writeBroken w) \<and>
     (\<not> held w \<and> \<not> writeBroken w \<longrightarrow> bw w = []) \<and>
     (held w \<longrightarrow> list_all (\<lambda>f. \<not> isControl f) (bw w))"

definition wire_ok :: "wire \<Rightarrow> bool" where
  "wire_ok w \<longleftrightarrow> (held w \<longrightarrow> \<not> writeBroken w) \<and> (\<not> held w \<and> \<not> writeBroken w \<longrightarrow> bw w = []) \<and>
     (held w \<longrightarrow> list_all (\<lambda>f. \<not> isControl f) (bw w))"

definition callIn :: "bytes list set \<Rightarrow> wire_event \<Rightarrow> bool" where
  "callIn C e \<longleftrightarrow> (case e of Control ws _ \<Rightarrow> map snd ws \<in> C | _ \<Rightarrow> True)"

definition newWire :: wire where
  "newWire = \<lparr>bw = [], writeBroken = False, readError = False, held = False, sentRecords = []\<rparr>"

lemmas wire_defs = recordWrite_def recordFlush_def recordClose_def recordBegin_def
  flushOneRecordUnlocked_def writeControl_def Let_def

lemma controlFrames_None: "controlFrames ws buf = (None, buf') \<Longrightarrow> buf' = buf @ map ControlFrame (map snd ws)"
  by (induction ws buf rule: controlFrames.induct) (auto split: if_splits)

lemma wire_inv_control:
  assumes "wire_inv C w" and "map snd ws \<in> C" and "\<not> held w"
  shows "wire_inv C (snd (writeControl ws flushes w))"
proof -
  obtain r buf where c: "controlFrames ws (bw w) = (r, buf)" by fastforce
  have run: "snd (writeControl ws flushes w) = (if writeBroken w \<or> readError w then w
      else if r = None \<and> flushes then w\<lparr>bw := [], sentRecords := sentRecords w @ [buf]\<rparr>
      else w\<lparr>bw := buf, writeBroken := True\<rparr>)"
    by (cases r) (simp_all add: writeControl_def c)
  show ?thesis
  proof (cases r)
    case None
    then have "buf = bw w @ map ControlFrame (map snd ws)" using controlFrames_None c by simp
    then have "\<not> writeBroken w \<Longrightarrow> sent_ok C buf" using assms by (auto simp: wire_inv_def sent_ok_def simp del: map_map)
    with assms None show ?thesis unfolding run by (simp add: wire_inv_def)
  next
    case (Some e)
    with assms show ?thesis unfolding run by (simp add: wire_inv_def)
  qed
qed

lemma flush_ok:
  "Buffered fs \<le> tlsRecordPlaintextBudget \<Longrightarrow> list_all (\<lambda>f. \<not> isControl f) fs \<Longrightarrow> sent_ok C fs"
  using Buffered_exact [of fs] by (auto simp: sent_ok_def)

lemma wire_inv_step: "wire_inv C w \<Longrightarrow> batchFrameOnly e \<and> callIn C e \<Longrightarrow> wire_inv C (wireStep w e)"
  by (cases e) (auto simp: wire_inv_control callIn_def,
    auto simp: wire_inv_def recordWrite_def recordFlush_def recordClose_def recordBegin_def
      flushOneRecordUnlocked_def batchFrameOnly_def intro!: flush_ok split: if_splits)

interpretation wireM: event_machine wireStep "\<lambda>e. batchFrameOnly e \<and> callIn C e" "wire_inv C" newWire for C
  by unfold_locales (simp_all add: wire_inv_step, simp add: wire_inv_def newWire_def)

text \<open>C13. However the batch sender's frames and flushes interleave with the read pump's control writes and with
  failures, what each flush completes is either exactly the frames of one control call, all of them, or frames of a
  batch only, and these fit one TLS record: no control frame lands inside a batch record, and once a write failed
  nothing partial is ever flushed. The guard sees only what the buffered writer still holds, so the one way past it is
  a run of more than 128 KB of frames without a flush, which the writer has partly flushed by itself.\<close>

theorem records_never_mixed_or_split:
  assumes "list_all batchFrameOnly es"
  shows "list_all (\<lambda>r. (\<exists>ws flushes. Control ws flushes \<in> set es \<and> r = map (\<lambda>(_, b). ControlFrame b) ws) \<or>
      (list_all (\<lambda>f. \<not> isControl f) r \<and> (wireBytes r \<le> tlsRecordPlaintextBudget \<or> bufioSize < wireBytes r)))
    (sentRecords (foldl wireStep newWire es))"
proof -
  let ?C = "{map snd ws | ws. \<exists>flushes. Control ws flushes \<in> set es}"
  have "list_all (\<lambda>e. batchFrameOnly e \<and> callIn ?C e) es"
    using assms by (auto simp: list_all_iff callIn_def split: wire_event.split)
  from wireM.inv_run [OF this] have "list_all (sent_ok ?C) (sentRecords (foldl wireStep newWire es))"
    by (simp add: wire_inv_def)
  moreover have "sent_ok ?C r \<Longrightarrow> (\<exists>ws flushes. Control ws flushes \<in> set es \<and> r = map (\<lambda>(_, b). ControlFrame b) ws) \<or>
      (list_all (\<lambda>f. \<not> isControl f) r \<and> (wireBytes r \<le> tlsRecordPlaintextBudget \<or> bufioSize < wireBytes r))" for r
    by (auto simp: sent_ok_def case_prod_unfold comp_def)
  ultimately show ?thesis unfolding list_all_iff by blast
qed

definition demo_wire_events :: "wire_event list" where
  "demo_wire_events = [Control (map (Pair True) (windowUpdateReply False ''ack'')) True, BatchFrame True (DataFrame 1 False ''ab''),
     Control [(True, ''no'')] True, BatchFrame True (DataFrame 3 True ''c''), BatchFlush True,
     BatchFrame False (DataFrame 5 True ''x''), BatchFlush True]"

theorem records_never_mixed_or_split_witness:
  "list_all batchFrameOnly demo_wire_events \<and>
   sentRecords (foldl wireStep newWire demo_wire_events) =
     [[ControlFrame ''ack'', ControlFrame ''ack''], [DataFrame 1 False ''ab'', DataFrame 3 True ''c'']] \<and>
   list_all (\<lambda>r. (\<exists>ws flushes. Control ws flushes \<in> set demo_wire_events \<and> r = map (\<lambda>(_, b). ControlFrame b) ws) \<or>
      (list_all (\<lambda>f. \<not> isControl f) r \<and> (wireBytes r \<le> tlsRecordPlaintextBudget \<or> bufioSize < wireBytes r)))
    (sentRecords (foldl wireStep newWire demo_wire_events))"
proof -
  have adm: "list_all batchFrameOnly demo_wire_events"
    by (simp add: demo_wire_events_def batchFrameOnly_def)
  moreover have "sentRecords (foldl wireStep newWire demo_wire_events) =
     [[ControlFrame ''ack'', ControlFrame ''ack''], [DataFrame 1 False ''ab'', DataFrame 3 True ''c'']]"
    by (simp add: demo_wire_events_def windowUpdateReply_def newWire_def wire_defs Buffered_exact bufioSize_def frameBytes_def flow_constants)
  ultimately show ?thesis using records_never_mixed_or_split [OF adm] by blast
qed

subsection \<open>Releasing a batch's headers\<close>

record encodedHeaderBlock =
  streamID :: int
  block :: bytes
  endStream :: bool

fun writeHeaderBlocks ::
    "(frame \<Rightarrow> bool) \<Rightarrow> http2conn \<Rightarrow> encodedHeaderBlock list \<Rightarrow> frame list \<Rightarrow> wire_error option \<times> frame list" where
  "writeHeaderBlocks accepts c [] buf = (None, buf)"
| "writeHeaderBlocks accepts c (b # bs) buf =
     (case writeHeaderBlock accepts c (streamID b) (block b) (endStream b) buf of
        (Some e, buf) \<Rightarrow> (Some e, buf)
      | (None, buf) \<Rightarrow> writeHeaderBlocks accepts c bs buf)"

definition writeHeaderRecord ::
    "(frame \<Rightarrow> bool) \<Rightarrow> bool \<Rightarrow> http2conn \<Rightarrow> encodedHeaderBlock list \<Rightarrow> wire \<Rightarrow> wire_error option \<times> wire" where
  "writeHeaderRecord accepts flushes c blocks w =
     (case recordBegin w of
        (Some e, w) \<Rightarrow> (Some e, recordClose w)
      | (None, w) \<Rightarrow>
          (case writeHeaderBlocks accepts c blocks (bw w) of
             (Some e, buf) \<Rightarrow> (Some e, recordClose (w\<lparr>bw := buf\<rparr>))
           | (None, buf) \<Rightarrow>
               (case recordFlush flushes (w\<lparr>bw := buf\<rparr>) of (r, w) \<Rightarrow> (r, recordClose w))))"

lemma writeHeaderBlocks_None:
  assumes "writeHeaderBlocks accepts c blocks buf = (None, buf')"
    and "wireBytes buf \<le> tlsRecordPlaintextBudget"
  shows "buf' = buf @ concat (map (\<lambda>b. headerFrames (streamID b) (endStream b) (nat (peerMaxFrameSize c)) (block b)) blocks)
    \<and> wireBytes buf' \<le> tlsRecordPlaintextBudget"
  using assms
proof (induction blocks arbitrary: buf)
  case (Cons b bs)
  from Cons.prems(1) obtain mid
    where mid: "writeHeaderBlock accepts c (streamID b) (block b) (endStream b) buf = (None, mid)"
      and rest: "writeHeaderBlocks accepts c bs mid = (None, buf')"
    by (auto split: prod.splits option.splits)
  note w = writeHeaderBlock_cases [OF mid]
  have "wireBytes mid \<le> tlsRecordPlaintextBudget"
    using writeHeaderBlock_bytes [OF mid] Buffered_exact [of buf] Cons.prems(2) budget_fits w(2) by simp
  from Cons.IH [OF rest this] w(2) show ?case by auto
qed simp

text \<open>C3. The header release is one record or nothing: when \<open>writeHeaderRecord\<close> succeeds on an idle
  connection, the wire gets exactly one record, the header frames of every request of the batch in
  order, within the TLS record budget; when it fails, nothing reaches the wire, and the connection
  is marked broken unless it was refused before the first frame.\<close>

theorem batch_headers_one_record:
  assumes "wire_ok w" and "\<not> held w"
  shows "case writeHeaderRecord accepts flushes c blocks w of
     (None, w') \<Rightarrow>
       (let r = concat (map (\<lambda>b. headerFrames (streamID b) (endStream b) (nat (peerMaxFrameSize c)) (block b)) blocks)
        in sentRecords w' = sentRecords w @ [r] \<and> wireBytes r \<le> tlsRecordPlaintextBudget \<and>
           bw w' = [] \<and> \<not> held w' \<and> writeBroken w' = writeBroken w)
   | (Some e, w') \<Rightarrow> sentRecords w' = sentRecords w \<and> \<not> held w' \<and> (writeBroken w' \<or> w' = w)"
proof (cases "writeBroken w \<or> readError w")
  case True
  with assms(2) show ?thesis
    by (auto simp: writeHeaderRecord_def recordBegin_def recordClose_def)
next
  case False
  with assms have idle: "bw w = []" "held w = False" "writeBroken w = False" "readError w = False"
    by (auto simp: wire_ok_def)
  show ?thesis
  proof (cases "writeHeaderBlocks accepts c blocks []")
    case (Pair r buf)
    show ?thesis
    proof (cases r)
      case None
      have "buf = concat (map (\<lambda>b. headerFrames (streamID b) (endStream b) (nat (peerMaxFrameSize c)) (block b)) blocks)
          \<and> wireBytes buf \<le> tlsRecordPlaintextBudget"
        using writeHeaderBlocks_None [of accepts c blocks "[]" buf] Pair None
        unfolding tlsRecordPlaintextBudget_def by auto
      with Pair None idle Buffered_exact [of buf] budget_fits show ?thesis
        by (auto simp: writeHeaderRecord_def wire_defs)
    next
      case (Some e)
      with Pair idle show ?thesis by (simp add: writeHeaderRecord_def wire_defs)
    qed
  qed
qed

theorem batch_headers_one_record_witness:
  "sentRecords (snd (writeHeaderRecord (\<lambda>_. True) True demo_conn
     [\<lparr>streamID = 1, block = ''abcde'', endStream = True\<rparr>, \<lparr>streamID = 3, block = ''f'', endStream = False\<rparr>] newWire)) =
   [[HeadersFrame 1 ''abcd'' True False, ContinuationFrame 1 True ''e'', HeadersFrame 3 ''f'' False True]]"
proof -
  let ?bs = "[\<lparr>streamID = 1, block = ''abcde'', endStream = True\<rparr>, \<lparr>streamID = 3, block = ''f'', endStream = False\<rparr>]"
  have none: "fst (writeHeaderRecord (\<lambda>_. True) True demo_conn ?bs newWire) = None"
    by (simp add: writeHeaderRecord_def wire_defs newWire_def writeHeaderBlock_def demo_conn_def
        freshConn_def flow_constants writeContinuations.simps frameBytes_def Buffered_def bufioWrite_def bufioSize_def)
  have ok: "wire_ok newWire" "\<not> held newWire" by (simp_all add: wire_ok_def newWire_def)
  show ?thesis
    using batch_headers_one_record [OF ok, where accepts = "\<lambda>_. True" and flushes = True and c = demo_conn and blocks = ?bs] none
    by (cases "writeHeaderRecord (\<lambda>_. True) True demo_conn ?bs newWire")
       (simp add: Let_def headerFrames_def demo_conn_def freshConn_def newWire_def)
qed

end
