(* ===== verification/BodyPlan.thy ===== *)
theory BodyPlan
  imports FlowControl
begin

text \<open>
  Planning one DATA record of a flow-controlled body transfer (\<open>tth2/conn.go\<close>). The planners read
  only the body lengths, so \<open>data\<close> is the list of them; Go's \<open>int\<close> and \<open>uint64\<close> counts are integers,
  and the three-word arithmetic of \<open>math/bits\<close> is written out (\<open>Div64\<close> panics when the quotient does
  not fit, which the theorems exclude). \<open>PlanPanic\<close> is that panic and \<open>NoPlan\<close> the source's nil. The
  progress comparison in floating point that \<open>planScarceCreditRecord\<close> makes to add lagging streams to its
  candidates is the argument \<open>lagging\<close>; its theorems hold for every such predicate.
\<close>

datatype plan_outcome = PlanPanic | NoPlan | Plan "int list"

definition Mul64 :: "int \<Rightarrow> int \<Rightarrow> int \<times> int" where
  "Mul64 x y = ((x * y) div 2 ^ 64, (x * y) mod 2 ^ 64)"

definition Div64 :: "int \<Rightarrow> int \<Rightarrow> int \<Rightarrow> (int \<times> int) option" where
  "Div64 hi lo y =
     (if y = 0 \<or> y \<le> hi then None
      else Some ((hi * 2 ^ 64 + lo) div y, (hi * 2 ^ 64 + lo) mod y))"

fun bitsLen :: "nat \<Rightarrow> nat" where
  "bitsLen n = (if n = 0 then 0 else Suc (bitsLen (n div 2)))"

declare bitsLen.simps [simp del]

definition lessBodyProgress :: "int list \<Rightarrow> int list \<Rightarrow> int list \<Rightarrow> nat \<Rightarrow> nat \<Rightarrow> bool" where
  "lessBodyProgress data sent plan a b =
     (let (aHi, aLo) = Mul64 (sent ! a + plan ! a) (data ! b);
          (bHi, bLo) = Mul64 (sent ! b + plan ! b) (data ! a)
      in aHi < bHi \<or> (aHi = bHi \<and> aLo < bLo))"

definition progressScale :: "int list \<Rightarrow> nat list \<Rightarrow> int" where
  "progressScale data carrying =
     (let maxBodyLen = foldl (\<lambda>mx i. max mx (data ! i)) 0 carrying
      in 2 ^ min (bitsLen (nat maxBodyLen)) 48)"

text \<open>The loop that fills the scratch array \<open>firstProgress\<close>.\<close>

fun fillFirstProgress ::
    "int \<Rightarrow> int list \<Rightarrow> int list \<Rightarrow> int list \<Rightarrow> nat list \<Rightarrow> int list \<Rightarrow> int list option" where
  "fillFirstProgress scale data sent caps [] fp = Some fp"
| "fillFirstProgress scale data sent caps (i # is) fp =
     (if caps ! i = 0 then fillFirstProgress scale data sent caps is fp
      else let (hi, lo) = Mul64 (sent ! i + 1) scale in
        case Div64 hi lo (data ! i) of
          None \<Rightarrow> None
        | Some (q, rem) \<Rightarrow>
            fillFirstProgress scale data sent caps is (fp[i := if rem \<noteq> 0 then q + 1 else q]))"

text \<open>The closure \<open>measure\<close>: the state is payload, record bytes and the plan written so far.\<close>

fun measureProgress ::
    "int \<Rightarrow> int list \<Rightarrow> int list \<Rightarrow> int list \<Rightarrow> int list \<Rightarrow> int \<Rightarrow> bool \<Rightarrow> nat list \<Rightarrow> int \<times> int \<times> int list \<Rightarrow>
      (int \<times> int \<times> int list) option" where
  "measureProgress scale data sent caps fp progress wr [] st = Some st"
| "measureProgress scale data sent caps fp progress wr (i # is) (pay, rec, plan) =
     (if caps ! i = 0 \<or> progress < fp ! i
      then measureProgress scale data sent caps fp progress wr is (pay, rec, plan)
      else let (hi, lo) = Mul64 progress (data ! i) in
        case Div64 hi lo scale of
          None \<Rightarrow> None
        | Some (target, _) \<Rightarrow>
            let wanted = max 0 (target - sent ! i); amount = min (caps ! i) wanted in
            if amount = 0 then measureProgress scale data sent caps fp progress wr is (pay, rec, plan)
            else measureProgress scale data sent caps fp progress wr is
                   (pay + amount, rec + (http2FrameHeaderSize + amount),
                    if wr then plan[i := int32 amount] else plan))"

text \<open>The binary search for the common progress; \<open>fits\<close> is the test on \<open>measure(mid, false)\<close>.\<close>

function searchProgress :: "(int \<Rightarrow> bool option) \<Rightarrow> int \<Rightarrow> int \<Rightarrow> int option" where
  "searchProgress fits low high =
     (if low < high then
        let mid = low + (high - low + 1) div 2 in
        case fits mid of
          None \<Rightarrow> None
        | Some True \<Rightarrow> searchProgress fits mid high
        | Some False \<Rightarrow> searchProgress fits low (mid - 1)
      else Some low)"
  by pat_completeness auto
termination
  by (relation "measure (\<lambda>(_, low, high). nat (high - low))") auto

declare searchProgress.simps [simp del]

text \<open>The selection loop shared by both planners: the first eligible stream of least progress.\<close>

fun pickLeast :: "(nat \<Rightarrow> bool) \<Rightarrow> (nat \<Rightarrow> nat \<Rightarrow> bool) \<Rightarrow> nat list \<Rightarrow> nat option \<Rightarrow> nat option" where
  "pickLeast elig lt [] best = best"
| "pickLeast elig lt (i # is) best =
     (if elig i \<and> (case best of None \<Rightarrow> True | Some b \<Rightarrow> lt i b)
      then pickLeast elig lt is (Some i) else pickLeast elig lt is best)"

definition slackEligible :: "int list \<Rightarrow> int list \<Rightarrow> int \<Rightarrow> nat \<Rightarrow> bool" where
  "slackEligible caps plan rec i \<longleftrightarrow> \<not> plan ! i \<ge> caps ! i \<and>
     rec + (1 + (if plan ! i = 0 then http2FrameHeaderSize else 0)) \<le> tlsRecordPlaintextBudget"

function fillSlack ::
    "int list \<Rightarrow> int list \<Rightarrow> nat list \<Rightarrow> int list \<Rightarrow> int \<Rightarrow> int \<times> int \<times> int list \<Rightarrow> int \<times> int \<times> int list" where
  "fillSlack data sent carrying caps connCredit (pay, rec, plan) =
     (if pay < connCredit then
        case pickLeast (slackEligible caps plan rec) (lessBodyProgress data sent plan) carrying None of
          None \<Rightarrow> (pay, rec, plan)
        | Some best \<Rightarrow>
            fillSlack data sent carrying caps connCredit
              (pay + 1,
               (if plan ! best = 0 then rec + http2FrameHeaderSize else rec) + 1,
               plan[best := int32 (plan ! best + 1)])
      else (pay, rec, plan))"
  by pat_completeness auto
termination
  by (relation "measure (\<lambda>(_, _, _, _, credit, pay, _). nat (credit - pay))") auto

declare fillSlack.simps [simp del]

definition planGreedyIntermediateRecordWithScratch ::
    "int list \<Rightarrow> int list \<Rightarrow> nat list \<Rightarrow> int list \<Rightarrow> int \<Rightarrow> int list \<Rightarrow> plan_outcome" where
  "planGreedyIntermediateRecordWithScratch data sent carrying caps connCredit firstProgress =
     (let scale = progressScale data carrying;
          plan = replicate (length data) 0 in
      case fillFirstProgress scale data sent caps carrying firstProgress of
        None \<Rightarrow> PlanPanic
      | Some fp \<Rightarrow>
        (case searchProgress
            (\<lambda>mid. map_option (\<lambda>(pay, rec, _). pay \<le> connCredit \<and> rec \<le> tlsRecordPlaintextBudget)
               (measureProgress scale data sent caps fp mid False carrying (0, 0, plan)))
            0 scale of
           None \<Rightarrow> PlanPanic
         | Some low \<Rightarrow>
           (case measureProgress scale data sent caps fp low True carrying (0, 0, plan) of
              None \<Rightarrow> PlanPanic
            | Some st \<Rightarrow>
              (case fillSlack data sent carrying caps connCredit st of (pay, rec, plan) \<Rightarrow>
                 if pay = 0 then NoPlan else Plan plan))))"

definition planGreedyIntermediateRecord ::
    "int list \<Rightarrow> int list \<Rightarrow> nat list \<Rightarrow> int list \<Rightarrow> int \<Rightarrow> plan_outcome" where
  "planGreedyIntermediateRecord data sent carrying caps connCredit =
     planGreedyIntermediateRecordWithScratch data sent carrying caps connCredit (replicate (length data) 0)"

definition leadBudget :: "int list \<Rightarrow> nat \<Rightarrow> int" where
  "leadBudget data i = max 1 ((data ! i + 31) div 32)"

definition scarceEligible :: "int list \<Rightarrow> int list \<Rightarrow> int list \<Rightarrow> int \<Rightarrow> nat \<Rightarrow> bool" where
  "scarceEligible data caps plan rec i \<longleftrightarrow>
     \<not> (caps ! i \<le> plan ! i \<or> plan ! i \<ge> leadBudget data i) \<and>
     \<not> (rec + http2FrameHeaderSize + 1 > tlsRecordPlaintextBudget \<and> plan ! i = 0)"

definition scarceAmount :: "int list \<Rightarrow> int list \<Rightarrow> int \<Rightarrow> int \<Rightarrow> int list \<Rightarrow> nat \<Rightarrow> int" where
  "scarceAmount data caps credit rec plan best =
     (let amount = min (min credit (int32 (caps ! best - plan ! best))) (leadBudget data best - plan ! best)
      in if plan ! best = 0 then min amount (tlsRecordPlaintextBudget - rec - http2FrameHeaderSize)
         else min amount (tlsRecordPlaintextBudget - rec))"

function spendScarce ::
    "int list \<Rightarrow> int list \<Rightarrow> nat list \<Rightarrow> int list \<Rightarrow> int \<times> int \<times> int list \<Rightarrow> int \<times> int \<times> int list" where
  "spendScarce data sent candidates caps (credit, rec, plan) =
     (if credit > 0 then
        case pickLeast (scarceEligible data caps plan rec) (lessBodyProgress data sent plan) candidates None of
          None \<Rightarrow> (credit, rec, plan)
        | Some best \<Rightarrow>
            let amount = scarceAmount data caps credit rec plan best in
            if amount \<le> 0 then (credit, rec, plan)
            else spendScarce data sent candidates caps
              (credit - amount,
               (if plan ! best = 0 then rec + http2FrameHeaderSize else rec) + amount,
               plan[best := int32 (plan ! best + int32 amount)])
      else (credit, rec, plan))"
  by pat_completeness auto
termination
  by (relation "measure (\<lambda>(_, _, _, _, credit, _). nat credit)") (auto simp: Let_def split: if_splits)

declare spendScarce.simps [simp del]

definition planScarceCreditRecord ::
    "(nat \<Rightarrow> bool) \<Rightarrow> int list \<Rightarrow> int list \<Rightarrow> nat list \<Rightarrow> int list \<Rightarrow> int \<Rightarrow> plan_outcome" where
  "planScarceCreditRecord lagging data sent carrying caps connCredit =
     (let maxCap = foldl (\<lambda>mx i. max mx (caps ! i)) 0 carrying;
          minUsefulCap = min 64 maxCap;
          candidates = filter (\<lambda>i. caps ! i > 0 \<and> (caps ! i \<ge> minUsefulCap \<or> lagging i)) carrying in
      case spendScarce data sent candidates caps (connCredit, 0, replicate (length data) 0) of
        (credit, rec, plan) \<Rightarrow> if rec = 0 then NoPlan else Plan plan)"

subsection \<open>Wide arithmetic\<close>

lemma Mul64_less_iff:
  "(let (aHi, aLo) = Mul64 x y; (bHi, bLo) = Mul64 u v in aHi < bHi \<or> (aHi = bHi \<and> aLo < bLo)) \<longleftrightarrow> x * y < u * v"
  using divmod_less_iff [of "2 ^ 64" "x * y" "u * v"] by (simp add: Mul64_def)

lemma lessBodyProgress_iff:
  "lessBodyProgress data sent plan a b \<longleftrightarrow>
     (sent ! a + plan ! a) * data ! b < (sent ! b + plan ! b) * data ! a"
  unfolding lessBodyProgress_def by (rule Mul64_less_iff)

lemma Div64_Mul64:
  assumes "0 < z" and "x * y div 2 ^ 64 < z"
  shows "(case Mul64 x y of (hi, lo) \<Rightarrow> Div64 hi lo z) = Some (x * y div z, x * y mod z)"
  using assms by (simp add: Mul64_def Div64_def)

text \<open>A product with one factor below \<open>2 ^ 63\<close> and the other a scale: its high word is below the scale.\<close>

lemma high_word_less:
  fixes x y z :: int
  assumes "0 \<le> x" and "x \<le> z" and "0 \<le> y" and "y < 2 ^ 64" and "0 < z"
  shows "x * y div 2 ^ 64 < z"
proof -
  have "x * y \<le> z * y" using assms by (intro mult_right_mono) auto
  also have "\<dots> < z * 2 ^ 64" using assms by (intro mult_strict_left_mono) auto
  finally show ?thesis by (intro zdiv_less) simp_all
qed

subsection \<open>Levels of common progress\<close>

definition plan_input :: "int list \<Rightarrow> int list \<Rightarrow> nat list \<Rightarrow> int list \<Rightarrow> bool" where
  "plan_input data sent carrying caps \<longleftrightarrow> length sent = length data \<and> length caps = length data \<and>
     distinct carrying \<and>
     (\<forall>i\<in>set carrying. i < length data \<and> 0 < data ! i \<and> data ! i < 2 ^ 63 \<and> 0 \<le> sent ! i \<and>
        0 \<le> caps ! i \<and> caps ! i < 2 ^ 31 \<and> (0 < caps ! i \<longrightarrow> sent ! i + caps ! i \<le> data ! i))"

definition firstLevel :: "int \<Rightarrow> int list \<Rightarrow> int list \<Rightarrow> nat \<Rightarrow> int" where
  "firstLevel scale data sent i =
     ((sent ! i + 1) * scale) div data ! i + (if ((sent ! i + 1) * scale) mod data ! i \<noteq> 0 then 1 else 0)"

definition levelAmount :: "int \<Rightarrow> int list \<Rightarrow> int list \<Rightarrow> int list \<Rightarrow> int \<Rightarrow> nat \<Rightarrow> int" where
  "levelAmount scale data sent caps progress i =
     (if caps ! i = 0 then 0 else min (caps ! i) (max 0 (progress * data ! i div scale - sent ! i)))"

definition recordCost :: "int \<Rightarrow> int" where
  "recordCost a = (if a = 0 then 0 else http2FrameHeaderSize + a)"

lemma progressScale_bounds: "0 < progressScale data carrying" "progressScale data carrying \<le> 2 ^ 48"
proof -
  show "0 < progressScale data carrying" by (simp add: progressScale_def Let_def)
  have "(2 :: int) ^ min (bitsLen k) 48 \<le> 2 ^ 48" for k by (intro power_increasing) simp_all
  then show "progressScale data carrying \<le> 2 ^ 48" by (simp add: progressScale_def Let_def)
qed

lemma firstLevel_exact:
  assumes "0 < data ! i" and "p < firstLevel scale data sent i"
  shows "p * data ! i < (sent ! i + 1) * scale"
proof -
  let ?x = "(sent ! i + 1) * scale" and ?l = "data ! i"
  have x: "?x = ?x div ?l * ?l + ?x mod ?l" by (rule div_mult_mod_eq [symmetric])
  have m: "0 \<le> ?x mod ?l" "?x mod ?l < ?l" using assms(1) by simp_all
  show ?thesis
  proof (cases "?x mod ?l = 0")
    case True
    then have "p \<le> ?x div ?l - 1" using assms(2) by (simp add: firstLevel_def)
    then have "p * ?l \<le> (?x div ?l - 1) * ?l" using assms(1) by (intro mult_right_mono) auto
    also have "\<dots> = ?x div ?l * ?l - ?l" by (simp add: algebra_simps)
    also have "\<dots> < ?x" using x m assms(1) by linarith
    finally show ?thesis .
  next
    case False
    then have "p \<le> ?x div ?l" using assms(2) by (simp add: firstLevel_def)
    then have "p * ?l \<le> ?x div ?l * ?l" using assms(1) by (intro mult_right_mono) auto
    also have "\<dots> < ?x" using x m False by linarith
    finally show ?thesis .
  qed
qed

text \<open>Below its first level a stream contributes nothing, so skipping it changes no measurement.\<close>

lemma levelAmount_below:
  assumes "0 < data ! i" and "0 < scale" and "0 \<le> caps ! i" and "p < firstLevel scale data sent i"
  shows "levelAmount scale data sent caps p i = 0"
proof -
  have "p * data ! i div scale < sent ! i + 1"
    using firstLevel_exact [OF assms(1,4)] assms(2) by (intro zdiv_less)
  then show ?thesis using assms(3) by (simp add: levelAmount_def)
qed

lemma fillFirstProgress_spec:
  assumes "distinct is" and "0 < scale" and "scale \<le> 2 ^ 48"
    and "\<forall>i\<in>set is. i < length fp \<and> 0 < data ! i \<and> data ! i < 2 ^ 63 \<and> 0 \<le> sent ! i \<and>
      0 \<le> caps ! i \<and> (0 < caps ! i \<longrightarrow> sent ! i + caps ! i \<le> data ! i)"
  shows "\<exists>fp'. fillFirstProgress scale data sent caps is fp = Some fp' \<and> length fp' = length fp \<and>
     (\<forall>j. j \<notin> set is \<longrightarrow> fp' ! j = fp ! j) \<and>
     (\<forall>i\<in>set is. caps ! i \<noteq> 0 \<longrightarrow> fp' ! i = firstLevel scale data sent i)"
  using assms(1,4)
proof (induction "is" arbitrary: fp)
  case (Cons i "is")
  show ?case
  proof (cases "caps ! i = 0")
    case True
    with Cons.IH [of fp] Cons.prems show ?thesis by auto
  next
    case False
    with Cons.prems(2) have i: "0 < data ! i" "data ! i < 2 ^ 63" "0 \<le> sent ! i" "sent ! i + 1 \<le> data ! i"
      "i < length fp" by auto
    have "(sent ! i + 1) * scale div 2 ^ 64 < data ! i"
      using i assms(2,3) by (intro high_word_less) auto
    note div = Div64_Mul64 [OF i(1) this]
    let ?fp = "fp[i := firstLevel scale data sent i]"
    have "\<forall>j\<in>set is. j < length ?fp \<and> 0 < data ! j \<and> data ! j < 2 ^ 63 \<and> 0 \<le> sent ! j \<and>
      0 \<le> caps ! j \<and> (0 < caps ! j \<longrightarrow> sent ! j + caps ! j \<le> data ! j)" using Cons.prems(2) by simp
    from Cons.IH [OF _ this] Cons.prems(1) obtain fp' where
      fp': "fillFirstProgress scale data sent caps is ?fp = Some fp'" "length fp' = length ?fp"
        "\<forall>j. j \<notin> set is \<longrightarrow> fp' ! j = ?fp ! j"
        "\<forall>j\<in>set is. caps ! j \<noteq> 0 \<longrightarrow> fp' ! j = firstLevel scale data sent j"
      by auto
    have "fillFirstProgress scale data sent caps (i # is) fp = Some fp'"
      using fp'(1) False div by (auto simp: firstLevel_def split: prod.splits option.splits)
    with fp' Cons.prems(1) i(5) show ?thesis by (auto simp: nth_list_update)
  qed
qed simp

fun writeAmounts :: "(nat \<Rightarrow> int) \<Rightarrow> nat list \<Rightarrow> int list \<Rightarrow> int list" where
  "writeAmounts f [] plan = plan"
| "writeAmounts f (i # is) plan = writeAmounts f is (if f i = 0 then plan else plan[i := f i])"

lemma length_writeAmounts [simp]: "length (writeAmounts f is plan) = length plan"
  by (induction "is" arbitrary: plan) simp_all

lemma writeAmounts_nth:
  "j < length plan \<Longrightarrow> writeAmounts f is plan ! j = (if j \<in> set is \<and> f j \<noteq> 0 then f j else plan ! j)"
proof (induction "is" arbitrary: plan)
  case (Cons i "is")
  then show ?case by (cases "i = j") auto
qed simp

lemma levelAmount_bounds:
  "0 \<le> caps ! i \<Longrightarrow> 0 \<le> levelAmount scale data sent caps p i \<and> levelAmount scale data sent caps p i \<le> caps ! i"
  by (simp add: levelAmount_def)

text \<open>\<open>measure\<close> computes the totals of the level amounts, and writes them when asked to.\<close>

lemma measureProgress_spec:
  assumes "0 < scale" and "0 \<le> p" and "p \<le> scale"
    and "\<forall>i\<in>set is. 0 < data ! i \<and> data ! i < 2 ^ 63 \<and> 0 \<le> caps ! i \<and> caps ! i < 2 ^ 31 \<and>
      (caps ! i \<noteq> 0 \<longrightarrow> fp ! i = firstLevel scale data sent i)"
  shows "measureProgress scale data sent caps fp p wr is (pay, rec, plan) =
     Some (pay + sum_list (map (levelAmount scale data sent caps p) is),
           rec + sum_list (map (\<lambda>i. recordCost (levelAmount scale data sent caps p i)) is),
           if wr then writeAmounts (levelAmount scale data sent caps p) is plan else plan)"
  using assms(4)
proof (induction "is" arbitrary: pay rec plan)
  case (Cons i "is")
  let ?a = "levelAmount scale data sent caps p i"
  have i: "0 < data ! i" "data ! i < 2 ^ 63" "0 \<le> caps ! i" "caps ! i < 2 ^ 31"
    "caps ! i \<noteq> 0 \<longrightarrow> fp ! i = firstLevel scale data sent i" using Cons.prems by auto
  have IH: "measureProgress scale data sent caps fp p wr is (x, y, z) =
     Some (x + sum_list (map (levelAmount scale data sent caps p) is),
           y + sum_list (map (\<lambda>i. recordCost (levelAmount scale data sent caps p i)) is),
           if wr then writeAmounts (levelAmount scale data sent caps p) is z else z)" for x y z
    using Cons.IH Cons.prems by simp
  show ?case
  proof (cases "caps ! i = 0 \<or> p < fp ! i")
    case True
    then have "?a = 0" using levelAmount_below [of data i scale caps p sent] assms(1) i
      by (auto simp: levelAmount_def)
    with True IH show ?thesis by (simp add: recordCost_def)
  next
    case False
    have "p * data ! i div 2 ^ 64 < scale" using i assms by (intro high_word_less) auto
    note div = Div64_Mul64 [OF assms(1) this]
    have a: "?a = min (caps ! i) (max 0 (p * data ! i div scale - sent ! i))"
      using False by (simp add: levelAmount_def)
    have small: "int32 ?a = ?a"
      using levelAmount_bounds [OF i(3), of scale data sent p] i(4) by (intro int32_id) (auto simp: in_int32_def)
    have "measureProgress scale data sent caps fp p wr (i # is) (pay, rec, plan) =
       (if ?a = 0 then measureProgress scale data sent caps fp p wr is (pay, rec, plan)
        else measureProgress scale data sent caps fp p wr is
          (pay + ?a, rec + (http2FrameHeaderSize + ?a), if wr then plan[i := int32 ?a] else plan))"
      using False div unfolding a
      by (simp add: Let_def split: prod.splits option.splits)
    then show ?thesis using IH small by (auto simp: recordCost_def)
  qed
qed simp

lemma searchProgress_spec:
  assumes "\<And>m. low < m \<Longrightarrow> m \<le> high \<Longrightarrow> fits m = Some (P m)" and "P low" and "low \<le> high"
  shows "\<exists>r. searchProgress fits low high = Some r \<and> low \<le> r \<and> r \<le> high \<and> P r"
  using assms
proof (induction fits low high rule: searchProgress.induct)
  case (1 fits low high)
  show ?case
  proof (cases "low < high")
    case True
    let ?mid = "low + (high - low + 1) div 2"
    have mid: "low < ?mid" "?mid \<le> high" using True by auto
    have eq: "searchProgress fits low high =
        (if P ?mid then searchProgress fits ?mid high else searchProgress fits low (?mid - 1))"
      using True "1.prems"(1) [OF mid] by (subst searchProgress.simps) (simp add: Let_def)
    show ?thesis
    proof (cases "P ?mid")
      case p: True
      have "fits ?mid = Some True" using "1.prems"(1) [OF mid] p by simp
      from "1.IH"(1) [OF True refl this refl] "1.prems" mid p show ?thesis
        unfolding eq by fastforce
    next
      case p: False
      have "fits ?mid = Some False" using "1.prems"(1) [OF mid] p by simp
      from "1.IH"(2) [OF True refl this refl] "1.prems" mid p show ?thesis
        unfolding eq by fastforce
    qed
  next
    case False
    with "1.prems" show ?thesis by (subst searchProgress.simps) simp
  qed
qed

subsection \<open>Filling a record\<close>

lemma pickLeast_None:
  "pickLeast elig lt is best = None \<longleftrightarrow> best = None \<and> (\<forall>i\<in>set is. \<not> elig i)"
  by (induction "is" arbitrary: best) (auto split: option.splits)

lemma pickLeast_Some:
  "pickLeast elig lt is best = Some b \<Longrightarrow> best = Some b \<or> (b \<in> set is \<and> elig b)"
  by (induction "is" arbitrary: best) (auto split: if_splits)

lemma sum_list_map_zero: "(\<And>i. i \<in> set xs \<Longrightarrow> f i = (0 :: int)) \<Longrightarrow> sum_list (map f xs) = 0"
  by (induction xs) auto

lemma sum_list_change_one:
  fixes f g :: "nat \<Rightarrow> int"
  assumes "distinct xs" and "b \<in> set xs" and "\<And>i. i \<in> set xs \<Longrightarrow> i \<noteq> b \<Longrightarrow> g i = f i"
  shows "sum_list (map g xs) = sum_list (map f xs) + (g b - f b)"
  using assms
proof (induction xs)
  case (Cons x xs)
  show ?case
  proof (cases "x = b")
    case True
    then have "map g xs = map f xs" using Cons.prems by (intro map_cong) auto
    then show ?thesis using True by (simp only: list.map sum_list.Cons)
  next
    case False
    with Cons show ?thesis by simp
  qed
qed simp

text \<open>What a plan under construction satisfies: within every stream's cap and, in total, within the
  connection's credit and the record budget, with both totals exact.\<close>

definition plan_ok :: "nat list \<Rightarrow> int list \<Rightarrow> int \<Rightarrow> int \<times> int \<times> int list \<Rightarrow> bool" where
  "plan_ok carrying caps credit st \<longleftrightarrow> (case st of (pay, rec, plan) \<Rightarrow>
     length plan = length caps \<and>
     (\<forall>i<length caps. 0 \<le> plan ! i) \<and> (\<forall>i\<in>set carrying. plan ! i \<le> caps ! i) \<and>
     (\<forall>i<length caps. i \<notin> set carrying \<longrightarrow> plan ! i = 0) \<and>
     pay = sum_list (map ((!) plan) carrying) \<and>
     rec = sum_list (map (\<lambda>i. recordCost (plan ! i)) carrying) \<and>
     pay \<le> credit \<and> rec \<le> tlsRecordPlaintextBudget)"

text \<open>Raising one carrying stream's share keeps the totals exact.\<close>

lemma plan_ok_raise:
  assumes ok: "plan_ok carrying caps credit (pay, rec, plan)" and dist: "distinct carrying"
    and b: "b \<in> set carrying" "b < length caps" and d: "0 < d" "plan ! b + d \<le> caps ! b"
    and fit: "pay + d \<le> credit'" 
      "(if plan ! b = 0 then rec + http2FrameHeaderSize else rec) + d \<le> tlsRecordPlaintextBudget"
  shows "plan_ok carrying caps credit'
    (pay + d, (if plan ! b = 0 then rec + http2FrameHeaderSize else rec) + d, plan[b := plan ! b + d])"
proof -
  have len: "length plan = length caps" and nn: "0 \<le> plan ! b" using ok b(2) by (auto simp: plan_ok_def)
  have "sum_list (map ((!) (plan[b := plan ! b + d])) carrying) = pay + d"
    using ok b len sum_list_change_one [OF dist b(1), of "(!) (plan[b := plan ! b + d])" "(!) plan"]
    by (simp add: plan_ok_def)
  moreover have "sum_list (map (\<lambda>i. recordCost (plan[b := plan ! b + d] ! i)) carrying) =
      (if plan ! b = 0 then rec + http2FrameHeaderSize else rec) + d"
    using ok b len d(1) nn sum_list_change_one [OF dist b(1), of "\<lambda>i. recordCost (plan[b := plan ! b + d] ! i)"
        "\<lambda>i. recordCost (plan ! i)"]
    by (auto simp: plan_ok_def recordCost_def)
  ultimately show ?thesis using ok b d fit len by (auto simp: plan_ok_def nth_list_update)
qed

lemma fillSlack_spec:
  assumes "plan_ok carrying caps credit st" and "distinct carrying"
    and "\<forall>i\<in>set carrying. i < length caps \<and> caps ! i < 2 ^ 31"
  shows "plan_ok carrying caps credit (fillSlack data sent carrying caps credit st) \<and>
    (case fillSlack data sent carrying caps credit st of (pay, rec, plan) \<Rightarrow>
       pay = credit \<or> (\<forall>i\<in>set carrying. \<not> slackEligible caps plan rec i))"
  using assms
proof (induction data sent carrying caps credit st rule: fillSlack.induct)
  case (1 data sent carrying caps credit pay rec plan)
  show ?case
  proof (cases "pay < credit")
    case True
    show ?thesis
    proof (cases "pickLeast (slackEligible caps plan rec) (lessBodyProgress data sent plan) carrying None")
      case None
      then have "fillSlack data sent carrying caps credit (pay, rec, plan) = (pay, rec, plan)"
        by (subst fillSlack.simps) simp
      moreover have "\<forall>i\<in>set carrying. \<not> slackEligible caps plan rec i"
        using None by (simp add: pickLeast_None)
      ultimately show ?thesis using "1.prems"(1) by simp
    next
      case (Some b)
      then have b: "b \<in> set carrying" "slackEligible caps plan rec b" using pickLeast_Some by fastforce+
      have cap: "b < length caps" "caps ! b < 2 ^ 31" using "1.prems"(3) b(1) by auto
      have nn: "0 \<le> plan ! b" using "1.prems"(1) cap(1) by (simp add: plan_ok_def)
      have "int32 (plan ! b + 1) = plan ! b + 1"
        using b(2) cap(2) nn by (intro int32_id) (simp add: in_int32_def slackEligible_def)
      moreover have "plan_ok carrying caps credit
          (pay + 1, (if plan ! b = 0 then rec + http2FrameHeaderSize else rec) + 1, plan[b := plan ! b + 1])"
        using b cap(1) True by (intro plan_ok_raise [OF "1.prems"(1,2)]) (auto simp: slackEligible_def)
      moreover have "fillSlack data sent carrying caps credit (pay, rec, plan) =
         fillSlack data sent carrying caps credit (pay + 1,
            (if plan ! b = 0 then rec + http2FrameHeaderSize else rec) + 1, plan[b := int32 (plan ! b + 1)])"
        using True Some by (subst fillSlack.simps) simp
      ultimately show ?thesis using "1.IH" [OF True Some] "1.prems"(2,3) by simp
    qed
  next
    case False
    with "1.prems"(1) show ?thesis
      by (subst (1 2) fillSlack.simps) (auto simp: plan_ok_def)
  qed
qed

lemma plan_ok_level:
  assumes "plan_input data sent carrying caps" and "0 < scale"
    and "sum_list (map (levelAmount scale data sent caps p) carrying) \<le> credit"
    and "sum_list (map (\<lambda>i. recordCost (levelAmount scale data sent caps p i)) carrying) \<le> tlsRecordPlaintextBudget"
  shows "plan_ok carrying caps credit
    (sum_list (map (levelAmount scale data sent caps p) carrying),
     sum_list (map (\<lambda>i. recordCost (levelAmount scale data sent caps p i)) carrying),
     writeAmounts (levelAmount scale data sent caps p) carrying (replicate (length data) 0))"
proof -
  let ?a = "levelAmount scale data sent caps p"
  let ?plan = "writeAmounts ?a carrying (replicate (length data) 0)"
  have len: "length caps = length data" and
    idx: "\<forall>i\<in>set carrying. i < length data \<and> 0 \<le> caps ! i" using assms(1) by (auto simp: plan_input_def)
  have at: "?plan ! i = (if i \<in> set carrying then ?a i else 0)" if "i < length data" for i
    using that by (simp add: writeAmounts_nth)
  have a: "0 \<le> ?a i \<and> ?a i \<le> caps ! i" if "i \<in> set carrying" for i
    using idx that by (intro levelAmount_bounds) simp
  have "sum_list (map ((!) ?plan) carrying) = sum_list (map ?a carrying)"
    and "sum_list (map (\<lambda>i. recordCost (?plan ! i)) carrying) = sum_list (map (\<lambda>i. recordCost (?a i)) carrying)"
    using idx at by (auto intro!: arg_cong [where f = sum_list] map_cong)
  with len idx at a assms(3,4) show ?thesis by (auto simp: plan_ok_def)
qed

lemma levelAmount_zero:
  assumes "plan_input data sent carrying caps" and "0 < scale" and "i \<in> set carrying"
  shows "levelAmount scale data sent caps 0 i = 0"
  using assms by (auto simp: levelAmount_def plan_input_def)

lemma planGreedy_spec:
  assumes inp: "plan_input data sent carrying caps" and fp: "length fp = length data" and cr: "0 \<le> credit"
  shows "\<exists>pay rec plan. plan_ok carrying caps credit (pay, rec, plan) \<and>
     (pay = credit \<or> (\<forall>i\<in>set carrying. \<not> slackEligible caps plan rec i)) \<and>
     planGreedyIntermediateRecordWithScratch data sent carrying caps credit fp =
       (if pay = 0 then NoPlan else Plan plan)"
proof -
  define scale where "scale = progressScale data carrying"
  have scale: "0 < scale" "scale \<le> 2 ^ 48" unfolding scale_def by (rule progressScale_bounds)+
  have each: "\<forall>i\<in>set carrying. i < length fp \<and> 0 < data ! i \<and> data ! i < 2 ^ 63 \<and> 0 \<le> sent ! i \<and>
      0 \<le> caps ! i \<and> (0 < caps ! i \<longrightarrow> sent ! i + caps ! i \<le> data ! i)"
    and dist: "distinct carrying" using inp fp by (auto simp: plan_input_def)
  obtain fp' where fp': "fillFirstProgress scale data sent caps carrying fp = Some fp'"
      "\<forall>i\<in>set carrying. caps ! i \<noteq> 0 \<longrightarrow> fp' ! i = firstLevel scale data sent i"
    using fillFirstProgress_spec [OF dist scale each] by blast
  have ms: "\<forall>i\<in>set carrying. 0 < data ! i \<and> data ! i < 2 ^ 63 \<and> 0 \<le> caps ! i \<and> caps ! i < 2 ^ 31 \<and>
      (caps ! i \<noteq> 0 \<longrightarrow> fp' ! i = firstLevel scale data sent i)"
    using inp fp'(2) by (auto simp: plan_input_def)
  let ?z = "replicate (length data) (0 :: int)"
  let ?a = "levelAmount scale data sent caps"
  let ?P = "\<lambda>p. sum_list (map (?a p) carrying) \<le> credit \<and>
      sum_list (map (\<lambda>i. recordCost (?a p i)) carrying) \<le> tlsRecordPlaintextBudget"
  let ?fits = "\<lambda>mid. map_option (\<lambda>(pay, rec, _). pay \<le> credit \<and> rec \<le> tlsRecordPlaintextBudget)
      (measureProgress scale data sent caps fp' mid False carrying (0, 0, ?z))"
  have fits: "?fits m = Some (?P m)" if "0 < m" "m \<le> scale" for m
    using that by (simp add: measureProgress_spec [OF scale(1) _ _ ms])
  have "?P 0" using cr levelAmount_zero [OF inp scale(1)]
    by (simp add: sum_list_map_zero recordCost_def tlsRecordPlaintextBudget_def)
  with searchProgress_spec [of 0 scale ?fits ?P, OF fits] scale(1)
  obtain r where r: "searchProgress ?fits 0 scale = Some r" "0 \<le> r" "r \<le> scale" "?P r" by auto
  let ?st = "(sum_list (map (?a r) carrying), sum_list (map (\<lambda>i. recordCost (?a r i)) carrying),
      writeAmounts (?a r) carrying ?z)"
  have st: "measureProgress scale data sent caps fp' r True carrying (0, 0, ?z) = Some ?st"
    using measureProgress_spec [OF scale(1) r(2,3) ms] by simp
  have "plan_ok carrying caps credit ?st" using plan_ok_level [OF inp scale(1)] r(4) by blast
  then have fin: "plan_ok carrying caps credit (fillSlack data sent carrying caps credit ?st) \<and>
    (case fillSlack data sent carrying caps credit ?st of (pay, rec, plan) \<Rightarrow>
       pay = credit \<or> (\<forall>i\<in>set carrying. \<not> slackEligible caps plan rec i))"
    using dist inp by (intro fillSlack_spec) (auto simp: plan_input_def)
  obtain pay rec plan where f: "fillSlack data sent carrying caps credit ?st = (pay, rec, plan)"
    by (cases "fillSlack data sent carrying caps credit ?st")
  have "planGreedyIntermediateRecordWithScratch data sent carrying caps credit fp =
      (if pay = 0 then NoPlan else Plan plan)"
    unfolding planGreedyIntermediateRecordWithScratch_def Let_def scale_def [symmetric]
    using fp'(1) r(1) st f by simp
  with fin f show ?thesis by auto
qed

lemma slack_full:
  "0 \<le> plan ! i \<Longrightarrow> plan ! i \<le> caps ! i \<Longrightarrow> \<not> slackEligible caps plan rec i \<Longrightarrow>
     plan ! i = caps ! i \<or> rec + recordCost (plan ! i + 1) - recordCost (plan ! i) > tlsRecordPlaintextBudget"
  by (auto simp: slackEligible_def recordCost_def split: if_splits)

lemma plan_nothing:
  assumes "\<forall>i\<in>set carrying. 0 \<le> plan ! i" and "sum_list (map ((!) plan) carrying) = (0 :: int)"
  shows "\<forall>i\<in>set carrying. plan ! i = 0" and "sum_list (map (\<lambda>i. recordCost (plan ! i)) carrying) = 0"
proof -
  show zero: "\<forall>i\<in>set carrying. plan ! i = 0"
    using assms sum_list_nonneg_eq_0_iff [of "map ((!) plan) carrying"] by auto
  then show "sum_list (map (\<lambda>i. recordCost (plan ! i)) carrying) = 0"
    by (simp add: sum_list_map_zero recordCost_def)
qed

lemma plan_something:
  assumes "0 < sum_list (map ((!) plan) carrying)"
  shows "\<exists>i\<in>set carrying. 0 < (plan ! i :: int)"
proof (rule ccontr)
  assume "\<not> ?thesis"
  then have "sum_list (map ((!) plan) carrying) \<le> 0" by (intro sum_list_nonpos) auto
  with assms show False by simp
qed

text \<open>C4. The greedy planner never panics and plans exactly what can be sent: a plan gives every stream
  at most its cap, spends at most the connection's credit, and fits one TLS record with a frame
  header per contributing stream; it is nil exactly when no stream may send anything; and it is
  maximal, so that either the connection's credit is spent or no stream can take one more byte.\<close>

theorem greedy_plan_correct:
  assumes "plan_input data sent carrying caps" and "length fp = length data" and "0 \<le> credit"
  shows "(case planGreedyIntermediateRecordWithScratch data sent carrying caps credit fp of
      PlanPanic \<Rightarrow> False
    | NoPlan \<Rightarrow> credit = 0 \<or> (\<forall>i\<in>set carrying. caps ! i = 0)
    | Plan plan \<Rightarrow> 0 < credit \<and> (\<exists>i\<in>set carrying. 0 < plan ! i) \<and>
        (\<forall>i<length data. 0 \<le> plan ! i \<and> plan ! i \<le> (if i \<in> set carrying then caps ! i else 0)) \<and>
        (let rec = sum_list (map (\<lambda>i. recordCost (plan ! i)) carrying);
             pay = sum_list (map ((!) plan) carrying) in
         pay \<le> credit \<and> rec \<le> tlsRecordPlaintextBudget \<and>
         (pay = credit \<or> (\<forall>i\<in>set carrying. plan ! i = caps ! i \<or>
            rec + recordCost (plan ! i + 1) - recordCost (plan ! i) > tlsRecordPlaintextBudget))))"
proof -
  obtain pay rec plan where
    ok: "plan_ok carrying caps credit (pay, rec, plan)" and
    mx: "pay = credit \<or> (\<forall>i\<in>set carrying. \<not> slackEligible caps plan rec i)" and
    res: "planGreedyIntermediateRecordWithScratch data sent carrying caps credit fp =
       (if pay = 0 then NoPlan else Plan plan)"
    using planGreedy_spec [OF assms] by blast
  have len: "length caps = length data" and idx: "\<forall>i\<in>set carrying. i < length data \<and> 0 \<le> caps ! i"
    using assms(1) by (auto simp: plan_input_def)
  have at: "0 \<le> plan ! i \<and> plan ! i \<le> (if i \<in> set carrying then caps ! i else 0)" if "i < length data" for i
    using ok len that by (auto simp: plan_ok_def)
  then have nonneg: "\<forall>i\<in>set carrying. 0 \<le> plan ! i" using idx by blast
  have max: "pay = credit \<or> (\<forall>i\<in>set carrying. plan ! i = caps ! i \<or>
      rec + recordCost (plan ! i + 1) - recordCost (plan ! i) > tlsRecordPlaintextBudget)"
  proof -
    have "plan ! i \<le> caps ! i" if "i \<in> set carrying" for i using at [of i] idx that by auto
    with mx slack_full [of plan _ caps rec] nonneg show ?thesis by blast
  qed
  have tot: "pay = sum_list (map ((!) plan) carrying)" "pay \<le> credit"
    "rec = sum_list (map (\<lambda>i. recordCost (plan ! i)) carrying)" "rec \<le> tlsRecordPlaintextBudget"
    using ok by (auto simp: plan_ok_def)
  show ?thesis
  proof (cases "pay = 0")
    case True
    then show ?thesis using plan_nothing [OF nonneg] max res tot(1,3) by (auto simp: recordCost_def flow_constants)
  next
    case False
    have "0 \<le> pay" unfolding tot(1) using nonneg by (intro sum_list_nonneg) auto
    with False have pos: "0 < pay" by simp
    with plan_something [of plan carrying] tot(1) have "\<exists>i\<in>set carrying. 0 < plan ! i" by simp
    with False res tot(2,4) pos max at show ?thesis
      by (simp add: Let_def tot(1) [symmetric] tot(3) [symmetric])
  qed
qed

theorem greedy_plan_correct_witness:
  "planGreedyIntermediateRecord [100, 50] [10, 0] [0, 1] [40, 50] 30 = Plan [17, 13] \<and>
   (\<exists>i\<in>set [0, 1]. 0 < ([17, 13] ! i :: int))"
proof -
  have run: "planGreedyIntermediateRecordWithScratch [100, 50] [10, 0] [0, 1] [40, 50] 30 [0, 0] = Plan [17, 13]"
    by code_simp
  have "plan_input [100, 50] [10, 0] [0, 1] [40, 50]" by (simp add: plan_input_def)
  from greedy_plan_correct [OF this, of "[0, 0]" 30] run show ?thesis
    by (simp add: planGreedyIntermediateRecord_def numeral_2_eq_2 replicate_Suc)
qed

subsection \<open>Scarce credit\<close>

lemma plan_ok_rec_nonneg: "plan_ok carrying caps credit (pay, rec, plan) \<Longrightarrow> \<forall>i\<in>set carrying. i < length caps \<Longrightarrow> 0 \<le> rec"
  by (auto simp: plan_ok_def recordCost_def http2FrameHeaderSize_def intro!: sum_list_nonneg)

lemma plan_ok_rec_zero:
  assumes "plan_ok carrying caps credit (pay, 0, plan)" and "\<forall>i\<in>set carrying. i < length caps"
    and "i \<in> set carrying"
  shows "plan ! i = 0"
proof -
  have nn: "\<forall>x\<in>set (map (\<lambda>i. recordCost (plan ! i)) carrying). 0 \<le> x"
    using assms(1,2) by (auto simp: plan_ok_def recordCost_def http2FrameHeaderSize_def)
  have "sum_list (map (\<lambda>i. recordCost (plan ! i)) carrying) = 0" using assms(1) by (simp add: plan_ok_def)
  then have "\<forall>x\<in>set (map (\<lambda>i. recordCost (plan ! i)) carrying). x = 0"
    using sum_list_nonneg_eq_0_iff [of "map (\<lambda>i. recordCost (plan ! i)) carrying"] nn by blast
  then have "recordCost (plan ! i) = 0" using assms(3) by simp
  moreover have "0 \<le> plan ! i" using assms by (auto simp: plan_ok_def)
  ultimately show ?thesis by (auto simp: recordCost_def http2FrameHeaderSize_def split: if_splits)
qed

lemma leadBudget_pos: "1 \<le> leadBudget data i"
  by (simp add: leadBudget_def)

lemma scarceAmount_le:
  assumes "0 \<le> plan ! b" and "plan ! b \<le> caps ! b" and "caps ! b < 2 ^ 31"
  shows "scarceAmount data caps credit rec plan b \<le> credit"
    and "plan ! b + scarceAmount data caps credit rec plan b \<le> caps ! b"
    and "plan ! b + scarceAmount data caps credit rec plan b \<le> leadBudget data b"
    and "(if plan ! b = 0 then rec + http2FrameHeaderSize else rec) + scarceAmount data caps credit rec plan b
      \<le> tlsRecordPlaintextBudget"
proof -
  have "int32 (caps ! b - plan ! b) = caps ! b - plan ! b"
    using assms by (intro int32_id) (simp add: in_int32_def)
  then show "scarceAmount data caps credit rec plan b \<le> credit"
    and "plan ! b + scarceAmount data caps credit rec plan b \<le> caps ! b"
    and "plan ! b + scarceAmount data caps credit rec plan b \<le> leadBudget data b"
    and "(if plan ! b = 0 then rec + http2FrameHeaderSize else rec) + scarceAmount data caps credit rec plan b
      \<le> tlsRecordPlaintextBudget"
    by (auto simp: scarceAmount_def Let_def)
qed

text \<open>What \<open>spendScarce\<close> maintains: exact totals, the lead budget, and no share outside the candidates.\<close>

definition scarce_ok ::
    "int list \<Rightarrow> nat list \<Rightarrow> nat list \<Rightarrow> int list \<Rightarrow> int \<Rightarrow> int \<times> int \<times> int list \<Rightarrow> bool" where
  "scarce_ok data carrying cands caps tot st \<longleftrightarrow> (case st of (credit, rec, plan) \<Rightarrow>
     plan_ok carrying caps tot (tot - credit, rec, plan) \<and>
     (\<forall>i<length caps. plan ! i \<le> leadBudget data i) \<and>
     (\<forall>i<length caps. i \<notin> set cands \<longrightarrow> plan ! i = 0))"

lemma scarce_ok_raise:
  assumes "scarce_ok data carrying cands caps tot (credit, rec, plan)" and "distinct carrying"
    and "b \<in> set cands" and "b \<in> set carrying" and "b < length caps" and "caps ! b < 2 ^ 31"
    and "a = scarceAmount data caps credit rec plan b" and "0 < a" and "0 \<le> credit"
  shows "scarce_ok data carrying cands caps tot (credit - a,
     (if plan ! b = 0 then rec + http2FrameHeaderSize else rec) + a, plan[b := int32 (plan ! b + int32 a)])"
proof -
  have ok: "plan_ok carrying caps tot (tot - credit, rec, plan)" using assms(1) by (simp add: scarce_ok_def)
  have p: "0 \<le> plan ! b" "plan ! b \<le> caps ! b" "length plan = length caps"
    using ok assms(4,5) by (auto simp: plan_ok_def)
  note le = scarceAmount_le [OF p(1,2) assms(6), where data = data and credit = credit and rec = rec, folded assms(7)]
  have "int32 (plan ! b + int32 a) = plan ! b + a"
    using le(2) assms(6,8) p(1) by (simp add: in_int32_def)
  moreover have "plan_ok carrying caps tot (tot - credit + a,
     (if plan ! b = 0 then rec + http2FrameHeaderSize else rec) + a, plan[b := plan ! b + a])"
    using assms le by (intro plan_ok_raise [OF ok assms(2)]) auto
  ultimately show ?thesis
    using assms(1,3,5) le(3) p(3) by (auto simp: scarce_ok_def nth_list_update algebra_simps)
qed

lemma spendScarce_spec:
  assumes "scarce_ok data carrying cands caps tot (credit, rec, plan)" and "distinct carrying"
    and "set cands \<subseteq> set carrying"
    and "\<forall>i\<in>set carrying. i < length caps \<and> 0 \<le> caps ! i \<and> caps ! i < 2 ^ 31"
  shows "scarce_ok data carrying cands caps tot (spendScarce data sent cands caps (credit, rec, plan)) \<and>
    (0 < credit \<and> (\<exists>i\<in>set cands. 0 < caps ! i) \<or> 0 < rec \<longrightarrow>
     0 < fst (snd (spendScarce data sent cands caps (credit, rec, plan))))"
  using assms
proof (induction data sent cands caps "(credit, rec, plan)" arbitrary: credit rec plan rule: spendScarce.induct)
  case (1 data sent cands caps credit rec plan)
  let ?stop = "(credit, rec, plan)"
  let ?pick = "pickLeast (scarceEligible data caps plan rec) (lessBodyProgress data sent plan) cands None"
  have pok: "plan_ok carrying caps tot (tot - credit, rec, plan)" using "1.prems"(1) by (simp add: scarce_ok_def)
  have idx: "\<forall>i\<in>set carrying. i < length caps" using "1.prems"(4) by simp
  have rec0: "0 \<le> rec" using plan_ok_rec_nonneg [OF pok idx] .
  show ?case
  proof (cases "credit > 0")
    case False
    then have "spendScarce data sent cands caps ?stop = ?stop" by (subst spendScarce.simps) simp
    with False "1.prems"(1) show ?thesis by simp
  next
    case pos: True
    show ?thesis
    proof (cases ?pick)
      case None
      then have stop: "spendScarce data sent cands caps ?stop = ?stop" by (subst spendScarce.simps) simp
      have "\<not> 0 < caps ! i" if "rec = 0" "i \<in> set cands" for i
      proof -
        have "\<not> scarceEligible data caps plan rec i" using None that(2) by (simp add: pickLeast_None)
        moreover have "plan ! i = 0" using plan_ok_rec_zero [of carrying caps] pok idx that "1.prems"(3) by auto
        ultimately show ?thesis
          using leadBudget_pos [of data i] that(1) by (auto simp: scarceEligible_def flow_constants)
      qed
      with stop "1.prems"(1) rec0 show ?thesis by (auto simp: order_le_less)
    next
      case (Some b)
      then have b: "b \<in> set cands" "scarceEligible data caps plan rec b" using pickLeast_Some by fastforce+
      have bc: "b \<in> set carrying" "b < length caps" "caps ! b < 2 ^ 31" using b(1) "1.prems"(3,4) by auto
      define a where "a = scarceAmount data caps credit rec plan b"
      let ?rec = "(if plan ! b = 0 then rec + http2FrameHeaderSize else rec) + a"
      let ?next = "(credit - a, ?rec, plan[b := int32 (plan ! b + int32 a)])"
      have step: "spendScarce data sent cands caps ?stop = (if a \<le> 0 then ?stop
          else spendScarce data sent cands caps ?next)"
        using pos Some unfolding a_def by (subst spendScarce.simps) (simp add: Let_def)
      show ?thesis
      proof (cases "a \<le> 0")
        case True
        have "rec \<noteq> 0"
        proof
          assume "rec = 0"
          then have "plan ! b = 0" using plan_ok_rec_zero [of carrying caps] pok idx bc(1) by auto
          with \<open>rec = 0\<close> b(2) bc(3) pos leadBudget_pos [of data b] have "0 < a"
            by (auto simp: a_def scarceAmount_def scarceEligible_def Let_def flow_constants in_int32_def)
          with True show False by simp
        qed
        with True step "1.prems"(1) rec0 show ?thesis by simp
      next
        case False
        have "scarce_ok data carrying cands caps tot ?next"
          using scarce_ok_raise [OF "1.prems"(1,2) b(1) bc a_def] False pos by simp
        from "1.hyps" [OF pos Some a_def _ this "1.prems"(2-4)] False
        show ?thesis using step rec0 by (auto simp: http2FrameHeaderSize_def)
      qed
    qed
  qed
qed

text \<open>The planner stops only when the credit is spent, the record is full or no candidate can take more.\<close>

definition scarce_done :: "int list \<Rightarrow> nat list \<Rightarrow> int list \<Rightarrow> int \<times> int \<times> int list \<Rightarrow> bool" where
  "scarce_done data cands caps st \<longleftrightarrow> (case st of (credit, rec, plan) \<Rightarrow>
     credit \<le> 0 \<or> tlsRecordPlaintextBudget \<le> rec \<or> (\<forall>i\<in>set cands. \<not> scarceEligible data caps plan rec i))"

lemma spendScarce_done:
  assumes "scarce_ok data carrying cands caps tot (credit, rec, plan)" and "distinct carrying"
    and "set cands \<subseteq> set carrying"
    and "\<forall>i\<in>set carrying. i < length caps \<and> 0 \<le> caps ! i \<and> caps ! i < 2 ^ 31"
  shows "scarce_done data cands caps (spendScarce data sent cands caps (credit, rec, plan))"
  using assms
proof (induction data sent cands caps "(credit, rec, plan)" arbitrary: credit rec plan rule: spendScarce.induct)
  case (1 data sent cands caps credit rec plan)
  let ?stop = "(credit, rec, plan)"
  show ?case
  proof (cases "credit > 0")
    case False
    then show ?thesis by (subst spendScarce.simps) (simp add: scarce_done_def)
  next
    case pos: True
    show ?thesis
    proof (cases "pickLeast (scarceEligible data caps plan rec) (lessBodyProgress data sent plan) cands None")
      case None
      then have "spendScarce data sent cands caps ?stop = ?stop" by (subst spendScarce.simps) simp
      with None show ?thesis by (simp add: scarce_done_def pickLeast_None)
    next
      case (Some b)
      then have b: "b \<in> set cands" "scarceEligible data caps plan rec b" using pickLeast_Some by fastforce+
      define a where "a = scarceAmount data caps credit rec plan b"
      let ?next = "(credit - a, (if plan ! b = 0 then rec + http2FrameHeaderSize else rec) + a, plan[b := int32 (plan ! b + int32 a)])"
      have step: "spendScarce data sent cands caps ?stop = (if a \<le> 0 then ?stop else spendScarce data sent cands caps ?next)"
        using pos Some unfolding a_def by (subst spendScarce.simps) (simp add: Let_def)
      show ?thesis
      proof (cases "a \<le> 0")
        case True
        have "0 \<le> plan ! b" "caps ! b < 2 ^ 31" using "1.prems" b(1) by (auto simp: scarce_ok_def plan_ok_def)
        then have "tlsRecordPlaintextBudget \<le> rec"
          using True b(2) pos by (auto simp: a_def scarceAmount_def scarceEligible_def Let_def flow_constants in_int32_def split: if_splits)
        then show ?thesis using step True by (simp add: scarce_done_def)
      next
        case False
        have "b \<in> set carrying" "b < length caps" using b(1) "1.prems"(3,4) by auto
        then have "scarce_ok data carrying cands caps tot ?next"
          using scarce_ok_raise [OF "1.prems"(1,2) b(1) _ _ _ a_def] "1.prems"(4) False pos by simp
        from "1.hyps" [OF pos Some a_def _ this "1.prems"(2-4)] False show ?thesis using step by simp
      qed
    qed
  qed
qed

lemma foldl_max_ge: "(mx :: int) \<le> foldl (\<lambda>m i. max m (f i)) mx xs \<and> (\<forall>i\<in>set xs. f i \<le> foldl (\<lambda>m i. max m (f i)) mx xs)"
proof (induction xs arbitrary: mx)
  case (Cons x xs)
  have "max mx (f x) \<le> foldl (\<lambda>m i. max m (f i)) (max mx (f x)) xs" using Cons.IH by blast
  moreover have "\<forall>i\<in>set xs. f i \<le> foldl (\<lambda>m i. max m (f i)) (max mx (f x)) xs" using Cons.IH by blast
  ultimately show ?case by (simp only: foldl_Cons list.set ball_simps max.bounded_iff)
qed simp

lemma foldl_max_mem: "foldl (\<lambda>m i. max m (f i)) (mx :: int) xs = mx \<or> (\<exists>i\<in>set xs. foldl (\<lambda>m i. max m (f i)) mx xs = f i)"
proof (induction xs arbitrary: mx)
  case (Cons x xs)
  then show ?case using Cons.IH [of "max mx (f x)"] by (auto simp: max_def split: if_splits)
qed simp

lemma planScarce_spec:
  assumes "plan_input data sent carrying caps" and "0 \<le> credit"
  shows "\<exists>credit' rec plan. scarce_ok data carrying (filter (\<lambda>i. 0 < caps ! i) carrying) caps credit (credit', rec, plan) \<and>
     (rec = 0 \<longrightarrow> credit = 0 \<or> (\<forall>i\<in>set carrying. caps ! i = 0)) \<and>
     scarce_done data (filter (\<lambda>i. 64 \<le> caps ! i) carrying) caps (credit', rec, plan) \<and>
     planScarceCreditRecord lagging data sent carrying caps credit = (if rec = 0 then NoPlan else Plan plan)"
proof -
  let ?maxCap = "foldl (\<lambda>mx i. max mx (caps ! i)) 0 carrying"
  define cands where "cands = filter (\<lambda>i. caps ! i > 0 \<and> (caps ! i \<ge> min 64 ?maxCap \<or> lagging i)) carrying"
  let ?z = "replicate (length data) (0 :: int)"
  have len: "length caps = length data" and dist: "distinct carrying"
    and idx: "\<forall>i\<in>set carrying. i < length caps \<and> 0 \<le> caps ! i \<and> caps ! i < 2 ^ 31"
    using assms(1) by (auto simp: plan_input_def)
  have "sum_list (map ((!) ?z) carrying) = 0" "sum_list (map (\<lambda>i. recordCost (?z ! i)) carrying) = 0"
    using idx len by (auto simp: recordCost_def intro!: sum_list_map_zero)
  then have start: "scarce_ok data carrying cands caps credit (credit, 0, ?z)"
    using assms(2) len idx by (auto simp: scarce_ok_def plan_ok_def flow_constants leadBudget_def)
  obtain credit' rec plan where run: "spendScarce data sent cands caps (credit, 0, ?z) = (credit', rec, plan)"
    by (cases "spendScarce data sent cands caps (credit, 0, ?z)")
  have fin: "scarce_ok data carrying cands caps credit (credit', rec, plan)"
    and prog: "0 < credit \<and> (\<exists>i\<in>set cands. 0 < caps ! i) \<Longrightarrow> 0 < rec"
    using spendScarce_spec [OF start dist _ idx, of sent] unfolding run by (auto simp: cands_def)
  have some: "\<exists>j\<in>set cands. 0 < caps ! j" if i: "i \<in> set carrying" "caps ! i \<noteq> 0" for i
  proof -
    have "0 < ?maxCap" using i idx foldl_max_ge [of 0 "(!) caps" carrying] by force
    then obtain j where "j \<in> set carrying" "caps ! j = ?maxCap"
      using foldl_max_mem [of "(!) caps" 0 carrying] by auto
    with \<open>0 < ?maxCap\<close> show ?thesis by (auto simp: cands_def)
  qed
  have res: "planScarceCreditRecord lagging data sent carrying caps credit = (if rec = 0 then NoPlan else Plan plan)"
    unfolding planScarceCreditRecord_def Let_def using run by (simp add: cands_def)
  have "scarce_ok data carrying (filter (\<lambda>i. 0 < caps ! i) carrying) caps credit (credit', rec, plan)"
    using fin by (auto simp: scarce_ok_def cands_def)
  moreover have "rec = 0 \<longrightarrow> credit = 0 \<or> (\<forall>i\<in>set carrying. caps ! i = 0)"
    using prog some assms(2) by fastforce
  moreover have "scarce_done data (filter (\<lambda>i. 64 \<le> caps ! i) carrying) caps (credit', rec, plan)"
    using spendScarce_done [OF start dist _ idx, of sent] unfolding run by (auto simp: scarce_done_def cands_def)
  ultimately show ?thesis using res by blast
qed



text \<open>Comparing the two 128-bit products word by word compares the streams' progress exactly, with
  no rounding and no overflow.\<close>

theorem lessBodyProgress_exact:
  "lessBodyProgress data sent plan a b \<longleftrightarrow>
     (sent ! a + plan ! a) * data ! b < (sent ! b + plan ! b) * data ! a"
  by (rule lessBodyProgress_iff)

end
