(* ===== verification/BodySend.thy ===== *)
theory BodySend
  imports Wire BodyPlan
begin

text \<open>
  Sending the request bodies of a batch (\<open>sendWithBody\<close> and what it calls in \<open>tth2/conn.go\<close>). A send
  is a state machine over three phases: try to put everything into one fitting record, otherwise
  advance all streams by greedily planned records, and, when a tail is withheld, release every tail
  at once. Each phase iteration of the source is one step; between steps, and between planning and
  reserving inside one, the read pump may deliver any WINDOW_UPDATE or SETTINGS frame. A step's
  \<open>accepts\<close> and \<open>flushes\<close> are whether the checks before each frame write, the framer, and the flush
  succeed; the first failure ends the send with nothing of that record flushed. \<open>Interrupt\<close> is the
  return on a send failure or a cancelled context at the top of an iteration. \<open>out\<close> logs the flushed
  records; \<open>scratch\<close> is the planner's array, whose stale entries are never read. Waiting for credit is a step that changes nothing; the release delay and the
  drain timeout only choose when steps happen and are not represented.
\<close>

definition maxBodyCarryingStreams :: nat where "maxBodyCarryingStreams = 1024"
definition greedyCreditRecordFloor :: int where "greedyCreditRecordFloor = 8192"

definition hasBodyBytes :: "bytes list \<Rightarrow> bool" where
  "hasBodyBytes bodies \<longleftrightarrow> list_ex (\<lambda>b. length b > 0) bodies"

datatype send_error =
    TooManyBodyStreams nat
  | PivotCount nat nat
  | InvalidPivot nat
  | TailTooLarge nat int
  | TailRecordTooLarge int

text \<open>The loop of \<open>tailReleaseNeeds\<close> over the bodies and pivots, with the running record size.\<close>

fun tailNeeds :: "nat \<Rightarrow> bytes list \<Rightarrow> int list \<Rightarrow> int \<Rightarrow> send_error + (int list \<times> int)" where
  "tailNeeds i (b # bs) (p # ps) rec =
     (if p < 0 \<or> p > int (length b) then Inl (InvalidPivot i)
      else let need = int (length b) - p in
        if need = 0 then map_sum id (\<lambda>(ns, r). (0 # ns, r)) (tailNeeds (Suc i) bs ps rec)
        else if need > tlsRecordPlaintextBudget - http2FrameHeaderSize then Inl (TailTooLarge i need)
        else map_sum id (\<lambda>(ns, r). (int32 need # ns, r))
               (tailNeeds (Suc i) bs ps (rec + (http2FrameHeaderSize + need))))"
| "tailNeeds i _ _ rec = Inr ([], rec)"

definition tailReleaseNeeds :: "bytes list \<Rightarrow> int list \<Rightarrow> send_error + int list" where
  "tailReleaseNeeds bodies pivots =
     (if length pivots \<noteq> length bodies then Inl (PivotCount (length pivots) (length bodies))
      else case tailNeeds 0 bodies pivots 0 of
             Inl e \<Rightarrow> Inl e
           | Inr (needs, rec) \<Rightarrow>
               if rec > tlsRecordPlaintextBudget then Inl (TailRecordTooLarge rec) else Inr needs)"

text \<open>What \<open>sendWithBody\<close> decides before anything is written.\<close>

record send_plan =
  bodies :: "bytes list"
  withheld :: bool
  pivots :: "int list"
  needs :: "int list"

definition sendWithBody :: "bytes list \<Rightarrow> int \<Rightarrow> send_error + send_plan" where
  "sendWithBody bs bodyBytesWithheld =
     (let carrying = length (filter (\<lambda>b. length b > 0) bs) in
      if carrying > maxBodyCarryingStreams then Inl (TooManyBodyStreams carrying)
      else if bodyBytesWithheld = 0 \<or> \<not> hasBodyBytes bs
      then Inr \<lparr>bodies = bs, withheld = False, pivots = [], needs = []\<rparr>
      else let ps = map (\<lambda>b. if length b > 0 then max 0 (int (length b) - bodyBytesWithheld) else 0) bs in
        case tailReleaseNeeds bs ps of
          Inl e \<Rightarrow> Inl e
        | Inr ns \<Rightarrow> Inr \<lparr>bodies = bs, withheld = True, pivots = ps, needs = ns\<rparr>)"

datatype send_phase = Fitting | Greedy | Tail | Done | Failed

record body_send =
  cs :: credit_system
  phase :: send_phase
  sent :: "int list"
  scratch :: "int list"
  out :: "frame list list"

definition phaseData :: "send_plan \<Rightarrow> bytes list" where
  "phaseData p = (if withheld p then map2 (\<lambda>b k. take (nat k) b) (bodies p) (pivots p) else bodies p)"

definition bodyLens :: "bytes list \<Rightarrow> int list" where
  "bodyLens data = map (\<lambda>b. int (length b)) data"

definition carryingOf :: "bytes list \<Rightarrow> nat list" where
  "carryingOf data = filter (\<lambda>i. length (data ! i) > 0) [0..<length data]"

definition afterPhase :: "send_plan \<Rightarrow> send_phase" where
  "afterPhase p = (if withheld p then Tail else Done)"

text \<open>Reserving through the flow control of the batch; the credit history is that of \<open>creditStep\<close>.\<close>

definition tryReserve :: "int list \<Rightarrow> credit_system \<Rightarrow> bool \<times> credit_system" where
  "tryReserve ns c = (fst (reserve (conn c) (flow c) ns), creditStep c (Reserve ns))"

definition emitRecord :: "(frame \<Rightarrow> bool) \<Rightarrow> bool \<Rightarrow> frame list \<Rightarrow> body_send \<Rightarrow> body_send \<Rightarrow> body_send" where
  "emitRecord accepts flushes fs s s' =
     (if list_all accepts fs \<and> flushes then s'\<lparr>out := out s @ [fs]\<rparr> else s\<lparr>phase := Failed\<rparr>)"

text \<open>The sizing loop of \<open>sendFittingBodyRecord\<close>, with its running count of body-carrying streams.\<close>

datatype fitting = FitError nat | NoFit | FitNeeds "int list" int

fun consNeed :: "int \<Rightarrow> fitting \<Rightarrow> fitting" where
  "consNeed n (FitNeeds ns rec) = FitNeeds (n # ns) rec"
| "consNeed n r = r"

fun fittingNeeds :: "int \<Rightarrow> bytes list \<Rightarrow> nat \<Rightarrow> int \<Rightarrow> fitting" where
  "fittingNeeds mx [] carrying rec = FitNeeds [] rec"
| "fittingNeeds mx (b # bs) carrying rec =
     (if length b = 0 then consNeed 0 (fittingNeeds mx bs carrying rec)
      else if carrying + 1 > maxBodyCarryingStreams then FitError (carrying + 1)
      else if int (length b) > mx \<or>
              int (length b) > tlsRecordPlaintextBudget - rec - http2FrameHeaderSize then NoFit
      else consNeed (int32 (int (length b)))
             (fittingNeeds mx bs (carrying + 1) (rec + (http2FrameHeaderSize + int (length b)))))"

definition sendFittingBodyRecord ::
    "(frame \<Rightarrow> bool) \<Rightarrow> bool \<Rightarrow> send_plan \<Rightarrow> body_send \<Rightarrow> body_send" where
  "sendFittingBodyRecord accepts flushes p s =
     (let data = phaseData p in
      case fittingNeeds (peerMaxFrameSize (conn (cs s))) data 0 0 of
        FitError n \<Rightarrow> s\<lparr>phase := Failed\<rparr>
      | NoFit \<Rightarrow> s\<lparr>phase := Greedy\<rparr>
      | FitNeeds ns rec \<Rightarrow>
          if rec = 0 then s\<lparr>phase := afterPhase p\<rparr>
          else (case tryReserve ns (cs s) of
             (False, _) \<Rightarrow> s\<lparr>phase := Greedy\<rparr>
           | (True, c) \<Rightarrow>
               let ids = streamIDs (flow (cs s));
                   fs = map (\<lambda>i. DataFrame (ids ! i) (\<not> withheld p) (data ! i)) (carryingOf data)
               in emitRecord accepts flushes fs (s\<lparr>cs := c\<rparr>)
                    (s\<lparr>cs := c, sent := bodyLens data, phase := afterPhase p\<rparr>)))"

text \<open>The final-record test of \<open>sendGreedyBodyPhase\<close>: the suffixes that remain, while they fit.\<close>

fun finalNeeds :: "int list \<Rightarrow> int list \<Rightarrow> nat list \<Rightarrow> int \<Rightarrow> int list \<Rightarrow> int \<times> int list" where
  "finalNeeds lens snt [] fin rem = (fin, rem)"
| "finalNeeds lens snt (i # is) fin rem =
     (let left = lens ! i - snt ! i; fin = fin + (http2FrameHeaderSize + left)
      in finalNeeds lens snt is fin
           (if fin \<le> tlsRecordPlaintextBudget then rem[i := int32 left] else rem))"

definition streamCap :: "bool \<Rightarrow> int \<Rightarrow> int list \<Rightarrow> int list \<Rightarrow> int list \<Rightarrow> nat \<Rightarrow> int" where
  "streamCap atEnd maxFrame lens snt streamCredit i =
     (let left = lens ! i - snt ! i;
          left = (if atEnd then left - 1 else left);
          cap = min left maxFrame;
          cap = (if streamCredit ! i < int32 cap then streamCredit ! i else cap)
      in if cap > 0 then int32 cap else 0)"

definition capsOf :: "bool \<Rightarrow> int \<Rightarrow> int list \<Rightarrow> int list \<Rightarrow> int list \<Rightarrow> nat list \<Rightarrow> int list" where
  "capsOf atEnd maxFrame lens snt streamCredit carrying =
     map (\<lambda>i. if i \<in> set carrying then streamCap atEnd maxFrame lens snt streamCredit i else 0)
       [0..<length lens]"

definition plannedSizes :: "nat list \<Rightarrow> int list \<Rightarrow> int \<times> int" where
  "plannedSizes carrying plan =
     (sum_list (map (\<lambda>i. if plan ! i > 0 then http2FrameHeaderSize + plan ! i else 0) carrying),
      sum_list (map (\<lambda>i. if plan ! i > 0 then plan ! i else 0) carrying))"

definition choosePlan ::
    "(nat \<Rightarrow> bool) \<Rightarrow> int list \<Rightarrow> int list \<Rightarrow> nat list \<Rightarrow> int list \<Rightarrow> int \<Rightarrow> int list \<Rightarrow> int list" where
  "choosePlan lagging lens snt carrying caps credit plan =
     (let (plannedBytes, plannedPayload) = plannedSizes carrying plan in
      if plannedBytes < greedyCreditRecordFloor then
        (case planScarceCreditRecord lagging lens snt carrying caps credit of
           Plan scarce \<Rightarrow>
             let (scarceBytes, scarcePayload) = plannedSizes carrying scarce in
             if scarcePayload > plannedPayload \<or>
                (scarcePayload = plannedPayload \<and> scarceBytes \<le> plannedBytes) then scarce else plan
         | _ \<Rightarrow> plan)
      else plan)"

fun advanceSent :: "int list \<Rightarrow> nat list \<Rightarrow> int list \<Rightarrow> int list" where
  "advanceSent plan [] snt = snt"
| "advanceSent plan (i # is) snt =
     advanceSent plan is (if plan ! i = 0 then snt else snt[i := snt ! i + plan ! i])"

definition planFrames :: "int list \<Rightarrow> bytes list \<Rightarrow> int list \<Rightarrow> int list \<Rightarrow> nat list \<Rightarrow> frame list" where
  "planFrames ids data snt plan carrying =
     map (\<lambda>i. DataFrame (ids ! i) False (take (nat (plan ! i)) (drop (nat (snt ! i)) (data ! i))))
       (filter (\<lambda>i. plan ! i \<noteq> 0) carrying)"

definition greedyRecord ::
    "(frame \<Rightarrow> bool) \<Rightarrow> bool \<Rightarrow> (nat \<Rightarrow> bool) \<Rightarrow> credit_event list \<Rightarrow> bytes list \<Rightarrow> bool \<Rightarrow> body_send \<Rightarrow> body_send" where
  "greedyRecord accepts flushes lagging peer data atEnd s =
     (let lens = bodyLens data; carrying = carryingOf data; ids = streamIDs (flow (cs s));
          (connCredit, streamCredit) = available (conn (cs s)) (flow (cs s));
          maxFrame = min (peerMaxFrameSize (conn (cs s))) (tlsRecordPlaintextBudget - http2FrameHeaderSize);
          caps = capsOf atEnd maxFrame lens (sent s) streamCredit carrying in
      case planGreedyIntermediateRecordWithScratch lens (sent s) carrying caps connCredit (scratch s) of
        PlanPanic \<Rightarrow> s\<lparr>phase := Failed\<rparr>
      | NoPlan \<Rightarrow> s
      | Plan greedy \<Rightarrow>
          let plan = choosePlan lagging lens (sent s) carrying caps connCredit greedy;
              s = s\<lparr>cs := foldl creditStep (cs s) peer\<rparr> in
          (case tryReserve plan (cs s) of
             (False, _) \<Rightarrow> s
           | (True, c) \<Rightarrow>
               emitRecord accepts flushes (planFrames ids data (sent s) plan carrying) (s\<lparr>cs := c\<rparr>)
                 (s\<lparr>cs := c, sent := advanceSent plan carrying (sent s)\<rparr>)))"

definition sendGreedyBodyPhase ::
    "(frame \<Rightarrow> bool) \<Rightarrow> bool \<Rightarrow> (nat \<Rightarrow> bool) \<Rightarrow> credit_event list \<Rightarrow> send_plan \<Rightarrow> body_send \<Rightarrow> body_send" where
  "sendGreedyBodyPhase accepts flushes lagging peer p s =
     (let data = phaseData p; lens = bodyLens data; carrying = carryingOf data;
          ids = streamIDs (flow (cs s)) in
      if withheld p then
        (if list_all (\<lambda>i. sent s ! i \<ge> lens ! i) carrying then s\<lparr>phase := afterPhase p\<rparr>
         else greedyRecord accepts flushes lagging peer data False s)
      else
        (case finalNeeds lens (sent s) carrying 0 (replicate (length data) 0) of (fin, rem) \<Rightarrow>
           if fin \<le> tlsRecordPlaintextBudget \<and> fst (tryReserve rem (cs s)) then
             let s' = s\<lparr>cs := snd (tryReserve rem (cs s))\<rparr>;
                 fs = map (\<lambda>i. DataFrame (ids ! i) True (drop (nat (sent s ! i)) (data ! i))) carrying
             in emitRecord accepts flushes fs s' (s'\<lparr>sent := lens, phase := Done\<rparr>)
           else greedyRecord accepts flushes lagging peer data True s))"

definition sendFlowControlledBody ::
    "(frame \<Rightarrow> bool) \<Rightarrow> bool \<Rightarrow> (nat \<Rightarrow> bool) \<Rightarrow> credit_event list \<Rightarrow> send_plan \<Rightarrow> body_send \<Rightarrow> body_send" where
  "sendFlowControlledBody accepts flushes lagging peer p s =
     (let carrying = carryingOf (phaseData p) in
      if carrying = [] then s\<lparr>phase := afterPhase p\<rparr>
      else if length carrying > maxBodyCarryingStreams then s\<lparr>phase := Failed\<rparr>
      else sendGreedyBodyPhase accepts flushes lagging peer p s)"

definition writeTailReleaseFrames ::
    "(frame \<Rightarrow> bool) \<Rightarrow> bool \<Rightarrow> send_plan \<Rightarrow> body_send \<Rightarrow> body_send" where
  "writeTailReleaseFrames accepts flushes p s =
     (case tryReserve (needs p) (cs s) of
        (False, _) \<Rightarrow> s
      | (True, c) \<Rightarrow>
          let ids = streamIDs (flow (cs s));
              fs = map (\<lambda>i. DataFrame (ids ! i) True (drop (nat (pivots p ! i)) (bodies p ! i)))
                     (filter (\<lambda>i. needs p ! i \<noteq> 0) [0..<length ids])
          in emitRecord accepts flushes fs (s\<lparr>cs := c\<rparr>)
               (s\<lparr>cs := c, sent := bodyLens (bodies p), phase := Done\<rparr>))"

datatype send_event =
    Peer credit_event
  | Interrupt
  | Advance "frame \<Rightarrow> bool" bool "nat \<Rightarrow> bool" "credit_event list"

fun sendStep :: "send_plan \<Rightarrow> body_send \<Rightarrow> send_event \<Rightarrow> body_send" where
  "sendStep p s (Peer e) = s\<lparr>cs := creditStep (cs s) e\<rparr>"
| "sendStep p s Interrupt = (if phase s = Done then s else s\<lparr>phase := Failed\<rparr>)"
| "sendStep p s (Advance accepts flushes lagging peer) =
     (case phase s of
        Fitting \<Rightarrow> sendFittingBodyRecord accepts flushes p s
      | Greedy \<Rightarrow> sendFlowControlledBody accepts flushes lagging peer p s
      | Tail \<Rightarrow> writeTailReleaseFrames accepts flushes p s
      | _ \<Rightarrow> s)"

definition startSend :: "http2conn \<Rightarrow> int list \<Rightarrow> send_plan \<Rightarrow> body_send" where
  "startSend c ids p = \<lparr>cs = startBatch c ids, phase = Fitting, sent = replicate (length (bodies p)) 0,
     scratch = replicate (length (bodies p)) 0, out = []\<rparr>"

subsection \<open>Delivered bytes\<close>

fun dataFor :: "int \<Rightarrow> frame \<Rightarrow> bytes" where
  "dataFor sid (DataFrame i _ b) = (if i = sid then b else [])"
| "dataFor sid _ = []"

fun endsStream :: "frame \<Rightarrow> bool" where
  "endsStream (DataFrame _ e _) \<longleftrightarrow> e"
| "endsStream _ \<longleftrightarrow> False"

definition streamBytes :: "int \<Rightarrow> frame list list \<Rightarrow> bytes" where
  "streamBytes sid rs = concat (map (dataFor sid) (concat rs))"

lemma streamBytes_snoc: "streamBytes sid (rs @ [r]) = streamBytes sid rs @ concat (map (dataFor sid) r)"
  by (simp add: streamBytes_def)

lemma dataFor_frames:
  assumes "distinct xs" and "distinct ids" and "\<forall>i\<in>set xs. i < length ids" and "j < length ids"
  shows "concat (map (dataFor (ids ! j)) (map (\<lambda>i. DataFrame (ids ! i) e (f i)) xs)) =
    (if j \<in> set xs then f j else [])"
  using assms by (induction xs) (auto simp: nth_eq_iff_index_eq)

text \<open>The invariant about what is on the wire, independent of the phase.\<close>

definition delivered :: "send_plan \<Rightarrow> int list \<Rightarrow> body_send \<Rightarrow> bool" where
  "delivered p ids s \<longleftrightarrow> credit_ok ids (cs s) \<and> length (bodies p) = length ids \<and>
     length (sent s) = length ids \<and> length (scratch s) = length ids \<and>
     (\<forall>i<length ids. 0 \<le> sent s ! i \<and> sent s ! i \<le> int (length (bodies p ! i)) \<and>
        streamBytes (ids ! i) (out s) = take (nat (sent s ! i)) (bodies p ! i) \<and>
        sent s ! i \<le> streamSpent (cs s) ! i \<and>
        (phase s \<noteq> Failed \<longrightarrow> streamSpent (cs s) ! i = sent s ! i)) \<and>
     list_all (\<lambda>r. wireBytes r \<le> tlsRecordPlaintextBudget) (out s)"

lemma wireBytes_dataFrames:
  "wireBytes (map (\<lambda>i. DataFrame (ids ! i) e (f i)) xs) = sum_list (map (\<lambda>i. http2FrameHeaderSize + int (length (f i))) xs)"
  by (induction xs) (simp_all add: frameBytes_def)

text \<open>One record that carries the next \<open>ns ! i\<close> bytes of every stream in \<open>xs\<close>.\<close>

lemma delivered_record:
  assumes del: "delivered p ids s" and ph: "phase s \<noteq> Failed" and dist: "distinct ids"
    and c: "credit_ok ids c" "streamSpent c = map2 (+) (streamSpent (cs s)) ns"
    and ns: "length ns = length ids" "\<forall>i<length ids. 0 \<le> ns ! i \<and> (i \<notin> set xs \<longrightarrow> ns ! i = 0)"
    and xs: "distinct xs" "\<forall>i\<in>set xs. i < length ids"
    and f: "\<forall>i\<in>set xs. f i = take (nat (ns ! i)) (drop (nat (sent s ! i)) (bodies p ! i)) \<and>
        sent s ! i + ns ! i \<le> int (length (bodies p ! i))"
    and fits: "sum_list (map (\<lambda>i. http2FrameHeaderSize + ns ! i) xs) \<le> tlsRecordPlaintextBudget"
  shows "delivered p ids (s\<lparr>cs := c, sent := map2 (+) (sent s) ns, phase := ph',
       out := out s @ [map (\<lambda>i. DataFrame (ids ! i) e (f i)) xs]\<rparr>)"
proof -
  let ?r = "map (\<lambda>i. DataFrame (ids ! i) e (f i)) xs"
  note d = del [unfolded delivered_def]
  have len: "length (sent s) = length ids" "length (streamSpent (cs s)) = length ids"
    using d by (auto simp: credit_ok_def)
  have "int (length (f i)) = ns ! i" if "i \<in> set xs" for i
  proof -
    have "0 \<le> sent s ! i" "0 \<le> ns ! i" "sent s ! i + ns ! i \<le> int (length (bodies p ! i))"
      "length (f i) = min (length (bodies p ! i) - nat (sent s ! i)) (nat (ns ! i))"
      using f ns(2) xs(2) d that by auto
    then show ?thesis by linarith
  qed
  then have "map (\<lambda>i. http2FrameHeaderSize + int (length (f i))) xs = map (\<lambda>i. http2FrameHeaderSize + ns ! i) xs"
    by simp
  then have buf: "wireBytes ?r \<le> tlsRecordPlaintextBudget" using fits by (simp only: wireBytes_dataFrames)
  have "streamBytes (ids ! i) (out s @ [?r]) = take (nat (sent s ! i + ns ! i)) (bodies p ! i)"
    if i: "i < length ids" for i
  proof -
    have "streamBytes (ids ! i) (out s @ [?r]) = take (nat (sent s ! i)) (bodies p ! i) @ (if i \<in> set xs then f i else [])"
      using d i dataFor_frames [OF xs(1) dist xs(2) i] by (simp add: streamBytes_snoc)
    also have "\<dots> = take (nat (sent s ! i) + nat (ns ! i)) (bodies p ! i)"
      using f ns(2) i by (auto simp: take_add)
    also have "nat (sent s ! i) + nat (ns ! i) = nat (sent s ! i + ns ! i)"
      using d ns(2) i by (simp add: nat_add_distrib)
    finally show ?thesis .
  qed
  moreover have "sent s ! i + ns ! i \<le> int (length (bodies p ! i))" if "i < length ids" for i
    using f ns(2) d that by (cases "i \<in> set xs") auto
  ultimately show ?thesis
    using d c ns len buf ph by (simp add: delivered_def)
qed

lemma delivered_failed:
  assumes "delivered p ids s" and "credit_ok ids c" and "streamSpent c = map2 (+) (streamSpent (cs s)) ns"
    and "length ns = length ids" and "\<forall>i<length ids. 0 \<le> ns ! i"
  shows "delivered p ids (s\<lparr>cs := c, phase := Failed\<rparr>)"
  using assms unfolding delivered_def by (auto simp: credit_ok_def add_increasing2)

lemma tryReserve_True:
  assumes "credit_ok ids c" and "tryReserve ns c = (True, c')" and "length ns = length ids"
    and "\<forall>i<length ids. 0 \<le> ns ! i" and "sum_list ns \<le> tlsRecordPlaintextBudget"
  shows "credit_ok ids c' \<and> streamSpent c' = map2 (+) (streamSpent c) ns"
proof
  have nn: "list_all ((\<le>) 0) ns" using assms(3,4) by (simp add: list_all_length)
  have c': "c' = creditStep c (Reserve ns)" and ok: "fst (reserve (conn c) (flow c) ns)"
    using assms(2) by (auto simp: tryReserve_def)
  show "credit_ok ids c'"
    unfolding c' using assms(1,3,5) nn by (intro credit_ok_step) (auto simp: credit_admissible_def)
  show "streamSpent c' = map2 (+) (streamSpent c) ns"
    unfolding c' using ok by (cases "reserve (conn c) (flow c) ns") auto
qed

lemma delivered_emit:
  assumes "delivered p ids s" and "phase s \<noteq> Failed" and "distinct ids"
    and "tryReserve ns (cs s) = (True, c)"
    and "length ns = length ids" and "\<forall>i<length ids. 0 \<le> ns ! i \<and> (i \<notin> set xs \<longrightarrow> ns ! i = 0)"
    and "distinct xs" and "\<forall>i\<in>set xs. i < length ids"
    and "\<forall>i\<in>set xs. f i = take (nat (ns ! i)) (drop (nat (sent s ! i)) (bodies p ! i)) \<and>
        sent s ! i + ns ! i \<le> int (length (bodies p ! i))"
    and "sum_list (map (\<lambda>i. http2FrameHeaderSize + ns ! i) xs) \<le> tlsRecordPlaintextBudget"
    and "sent' = map2 (+) (sent s) ns"
  shows "delivered p ids (emitRecord accepts flushes (map (\<lambda>i. DataFrame (ids ! i) e (f i)) xs) (s\<lparr>cs := c\<rparr>)
      (s\<lparr>cs := c, sent := sent', phase := ph'\<rparr>))"
proof -
  have "sum_list ns = sum_list (map ((!) ns) [0..<length ns])" by (simp add: map_nth)
  also have "\<dots> = sum ((!) ns) {0..<length ns}" by (simp add: sum_list_distinct_conv_sum_set)
  also have "\<dots> = sum ((!) ns) (set xs)" using assms(5,6,8) by (intro sum.mono_neutral_right) auto
  also have "\<dots> = sum_list (map ((!) ns) xs)" using assms(7) by (simp add: sum_list_distinct_conv_sum_set)
  also have "\<dots> \<le> sum_list (map (\<lambda>i. http2FrameHeaderSize + ns ! i) xs)"
    by (intro sum_list_mono) (simp add: http2FrameHeaderSize_def)
  finally have sum: "sum_list ns \<le> tlsRecordPlaintextBudget" using assms(10) by linarith
  have "credit_ok ids (cs s)" using assms(1) by (simp add: delivered_def)
  then have c: "credit_ok ids c" "streamSpent c = map2 (+) (streamSpent (cs s)) ns"
    using tryReserve_True [OF _ assms(4,5) _ sum] assms(6) by auto
  show ?thesis
    using delivered_record [OF assms(1-3) c assms(5-10)] delivered_failed [OF assms(1) c assms(5)] assms(6)
    by (simp add: emitRecord_def assms(11))
qed

subsection \<open>Sizing the records\<close>

lemma sum_carrying:
  "sum_list (map (\<lambda>i. http2FrameHeaderSize + int (length (data ! i))) (carryingOf data)) =
   sum_list (map (\<lambda>b. recordCost (int (length b))) data)"
proof -
  have "sum_list (map (\<lambda>i. http2FrameHeaderSize + int (length (data ! i))) (filter (\<lambda>i. length (data ! i) > 0) xs)) =
      sum_list (map (\<lambda>i. recordCost (int (length (data ! i)))) xs)" for xs
    by (induction xs) (auto simp: recordCost_def)
  moreover have "map (\<lambda>i. recordCost (int (length (data ! i)))) [0..<length data] = map (\<lambda>b. recordCost (int (length b))) data"
    by (intro nth_equalityI) auto
  ultimately show ?thesis by (simp add: carryingOf_def)
qed

lemma fittingNeeds_spec:
  assumes "fittingNeeds mx data k rec = FitNeeds ns rec'" and "0 \<le> rec" and "rec \<le> tlsRecordPlaintextBudget"
  shows "ns = bodyLens data \<and> rec' = rec + sum_list (map (\<lambda>b. recordCost (int (length b))) data) \<and>
    rec' \<le> tlsRecordPlaintextBudget"
  using assms
proof (induction mx data k rec arbitrary: ns rule: fittingNeeds.induct)
  case (2 mx b bs k rec)
  have nested: "\<exists>ns'. r = FitNeeds ns' rec' \<and> ns = n # ns'" if "consNeed n r = FitNeeds ns rec'" for n r
    using that by (cases r) auto
  show ?case
  proof (cases "length b = 0")
    case True
    with "2.prems"(1) nested obtain ns' where "fittingNeeds mx bs k rec = FitNeeds ns' rec'" "ns = 0 # ns'"
      by fastforce
    with "2.IH"(1) [OF True] "2.prems"(2,3) True show ?thesis by (simp add: bodyLens_def recordCost_def)
  next
    case False
    let ?rec = "rec + (http2FrameHeaderSize + int (length b))"
    have cond: "\<not> k + 1 > maxBodyCarryingStreams"
      "\<not> (int (length b) > mx \<or> int (length b) > tlsRecordPlaintextBudget - rec - http2FrameHeaderSize)"
      using "2.prems"(1) False by (auto split: if_splits)
    have "consNeed (int32 (int (length b))) (fittingNeeds mx bs (k + 1) ?rec) = FitNeeds ns rec'"
      using "2.prems"(1) False cond by simp
    from nested [OF this] obtain ns' where
      r: "fittingNeeds mx bs (k + 1) ?rec = FitNeeds ns' rec'" "ns = int32 (int (length b)) # ns'" by blast
    have "int32 (int (length b)) = int (length b)"
      using cond "2.prems"(2) by (intro int32_id) (auto simp: in_int32_def flow_constants)
    moreover have "0 \<le> ?rec" "?rec \<le> tlsRecordPlaintextBudget"
      using cond "2.prems"(2) by (auto simp: http2FrameHeaderSize_def)
    ultimately show ?thesis
      using "2.IH"(2) [OF False cond r(1)] r(2) False by (simp add: bodyLens_def recordCost_def)
  qed
qed (simp add: bodyLens_def)

lemma finalNeeds_spec:
  assumes "distinct is" and "\<forall>i\<in>set is. i < length rem \<and> 0 \<le> lens ! i - snt ! i" and "0 \<le> fin"
    and "finalNeeds lens snt is fin rem = (fin', rem')"
  shows "fin' = fin + sum_list (map (\<lambda>i. http2FrameHeaderSize + (lens ! i - snt ! i)) is) \<and>
    length rem' = length rem \<and>
    (fin' \<le> tlsRecordPlaintextBudget \<longrightarrow>
       (\<forall>i<length rem. rem' ! i = (if i \<in> set is then lens ! i - snt ! i else rem ! i)))"
  using assms
proof (induction "is" arbitrary: fin rem)
  case (Cons i "is")
  let ?left = "lens ! i - snt ! i"
  let ?fin = "fin + (http2FrameHeaderSize + ?left)"
  let ?rem = "if ?fin \<le> tlsRecordPlaintextBudget then rem[i := int32 ?left] else rem"
  have IH: "fin' = ?fin + sum_list (map (\<lambda>i. http2FrameHeaderSize + (lens ! i - snt ! i)) is) \<and>
    length rem' = length ?rem \<and>
    (fin' \<le> tlsRecordPlaintextBudget \<longrightarrow>
       (\<forall>j<length ?rem. rem' ! j = (if j \<in> set is then lens ! j - snt ! j else ?rem ! j)))"
    using Cons.prems by (intro Cons.IH) (auto simp: Let_def http2FrameHeaderSize_def)
  have nn: "0 \<le> sum_list (map (\<lambda>i. http2FrameHeaderSize + (lens ! i - snt ! i)) is)"
    using Cons.prems(2) by (intro sum_list_nonneg) (auto simp: http2FrameHeaderSize_def)
  have small: "int32 ?left = ?left" if "?fin \<le> tlsRecordPlaintextBudget"
    using that Cons.prems(2,3) by (intro int32_id) (auto simp: in_int32_def flow_constants)
  show ?case
  proof (intro conjI impI)
    assume le: "fin' \<le> tlsRecordPlaintextBudget"
    then have "?fin \<le> tlsRecordPlaintextBudget" using IH nn by linarith
    with IH le small Cons.prems(1) show
      "\<forall>j<length rem. rem' ! j = (if j \<in> set (i # is) then lens ! j - snt ! j else rem ! j)"
      by (auto simp: nth_list_update)
  qed (use IH in auto)
qed simp

lemma capsOf_length [simp]: "length (capsOf e mx lens snt cr carrying) = length lens"
  by (simp add: capsOf_def)

lemma streamCap_bounds:
  assumes "0 \<le> mx" and "mx < 2 ^ 31" and "snt ! i \<le> lens ! i" and "e \<Longrightarrow> snt ! i < lens ! i"
    and "in_int32 (cr ! i)"
  shows "0 \<le> streamCap e mx lens snt cr i \<and> streamCap e mx lens snt cr i \<le> mx \<and>
    snt ! i + streamCap e mx lens snt cr i \<le> (if e then lens ! i - 1 else lens ! i)"
proof -
  define left where "left = (if e then lens ! i - snt ! i - 1 else lens ! i - snt ! i)"
  have left: "0 \<le> left" using assms(3,4) by (simp add: left_def)
  have i32: "int32 (min left mx) = min left mx"
    using left assms(1,2) by (intro int32_id) (auto simp: in_int32_def)
  have "streamCap e mx lens snt cr i =
      (let cap = if cr ! i < min left mx then cr ! i else min left mx in if cap > 0 then int32 cap else 0)"
    using i32 by (cases e) (auto simp: streamCap_def left_def Let_def)
  also have "\<dots> = (let cap = if cr ! i < min left mx then cr ! i else min left mx in max 0 cap)"
    using assms(5) i32 by (auto simp: Let_def max_def)
  finally show ?thesis using left assms(1) by (auto simp: left_def Let_def split: if_splits)
qed

text \<open>Whichever planner wins, the record it chose respects the caps and the record budget.\<close>

definition good_plan :: "nat list \<Rightarrow> int list \<Rightarrow> int list \<Rightarrow> bool" where
  "good_plan carrying caps plan \<longleftrightarrow> (\<exists>credit pay rec. plan_ok carrying caps credit (pay, rec, plan))"

lemma good_planD:
  assumes "good_plan carrying caps plan"
  shows "length plan = length caps" and "i < length caps \<Longrightarrow> 0 \<le> plan ! i"
    and "i \<in> set carrying \<Longrightarrow> plan ! i \<le> caps ! i" and "i < length caps \<Longrightarrow> i \<notin> set carrying \<Longrightarrow> plan ! i = 0"
    and "sum_list (map (\<lambda>i. recordCost (plan ! i)) carrying) \<le> tlsRecordPlaintextBudget"
  using assms by (auto simp: good_plan_def plan_ok_def)

lemma choosePlan_good:
  assumes "plan_input lens snt carrying caps" and "0 \<le> credit" and "good_plan carrying caps plan"
  shows "good_plan carrying caps (choosePlan lagging lens snt carrying caps credit plan)"
proof -
  have "good_plan carrying caps scarce"
    if "planScarceCreditRecord lagging lens snt carrying caps credit = Plan scarce" for scarce
    using planScarce_spec [OF assms(1,2), of lagging] that
    by (auto simp: good_plan_def scarce_ok_def split: if_splits)
  with assms(3) show ?thesis
    by (auto simp: choosePlan_def Let_def split: prod.splits plan_outcome.splits)
qed

lemma advanceSent_eq:
  assumes "distinct is" and "\<forall>i\<in>set is. i < length snt" and "length plan = length snt"
    and "\<forall>i<length snt. i \<notin> set is \<longrightarrow> plan ! i = 0"
  shows "advanceSent plan is snt = map2 (+) snt plan"
proof -
  have len: "length (advanceSent plan is snt) = length snt"
    by (induction "is" arbitrary: snt) simp_all
  have "advanceSent plan is snt ! j = (if j \<in> set is then snt ! j + plan ! j else snt ! j)"
    if "j < length snt" for j
    using assms(1,2) that
  proof (induction "is" arbitrary: snt)
    case (Cons i "is")
    let ?s = "if plan ! i = 0 then snt else snt[i := snt ! i + plan ! i]"
    have "advanceSent plan is ?s ! j = (if j \<in> set is then ?s ! j + plan ! j else ?s ! j)"
      using Cons.prems by (intro Cons.IH) auto
    with Cons.prems show ?case by (auto simp: nth_list_update)
  qed simp
  with assms(3,4) len show ?thesis by (intro nth_equalityI) auto
qed

subsection \<open>Phases\<close>

definition plan_wf :: "send_plan \<Rightarrow> int list \<Rightarrow> bool" where
  "plan_wf p ids \<longleftrightarrow> length (bodies p) = length ids \<and>
     (\<forall>i<length ids. int (length (bodies p ! i)) < 2 ^ 63) \<and>
     (withheld p \<longrightarrow> length (pivots p) = length ids \<and> length (needs p) = length ids \<and> hasBodyBytes (bodies p) \<and>
        (\<forall>i<length ids. 0 \<le> pivots p ! i \<and> pivots p ! i \<le> int (length (bodies p ! i)) \<and>
           needs p ! i = int (length (bodies p ! i)) - pivots p ! i \<and>
           (bodies p ! i \<noteq> [] \<longrightarrow> 0 < needs p ! i)) \<and>
        sum_list (map recordCost (needs p)) \<le> tlsRecordPlaintextBudget)"

definition noEnd :: "frame list list \<Rightarrow> bool" where
  "noEnd rs \<longleftrightarrow> list_all (list_all (\<lambda>f. \<not> endsStream f)) rs"

text \<open>The last record ends every body-carrying stream with a non-empty frame, and no earlier one does.\<close>

definition released :: "bytes list \<Rightarrow> int list \<Rightarrow> frame list list \<Rightarrow> bool" where
  "released bs ids rs \<longleftrightarrow>
     (if hasBodyBytes bs
      then \<exists>early f. rs = early @ [map (\<lambda>i. DataFrame (ids ! i) True (f i)) (carryingOf bs)] \<and> noEnd early \<and>
             (\<forall>i\<in>set (carryingOf bs). f i \<noteq> [])
      else rs = [])"

definition phase_ok :: "send_plan \<Rightarrow> int list \<Rightarrow> body_send \<Rightarrow> bool" where
  "phase_ok p ids s \<longleftrightarrow>
     (let data = phaseData p in
      (case phase s of
         Fitting \<Rightarrow> (\<forall>i<length ids. sent s ! i = 0) \<and> out s = []
       | Greedy \<Rightarrow> (\<exists>i<length ids. data ! i \<noteq> []) \<and>
           (\<forall>i<length ids. sent s ! i \<le> int (length (data ! i)) \<and>
              (\<not> withheld p \<and> data ! i \<noteq> [] \<longrightarrow> sent s ! i < int (length (data ! i))))
       | Tail \<Rightarrow> withheld p \<and> (\<forall>i<length ids. sent s ! i = int (length (data ! i)))
       | Done \<Rightarrow> (\<forall>i<length ids. sent s ! i = int (length (bodies p ! i))) \<and> released (bodies p) ids (out s)
       | Failed \<Rightarrow> True) \<and>
      (phase s \<noteq> Done \<longrightarrow> noEnd (out s)))"

definition send_inv :: "send_plan \<Rightarrow> int list \<Rightarrow> body_send \<Rightarrow> bool" where
  "send_inv p ids s \<longleftrightarrow> delivered p ids s \<and> phase_ok p ids s"

lemma phaseData_facts:
  assumes "plan_wf p ids"
  shows "length (phaseData p) = length ids"
    and "i < length ids \<Longrightarrow> phaseData p ! i = take (length (phaseData p ! i)) (bodies p ! i)"
    and "i < length ids \<Longrightarrow> length (phaseData p ! i) \<le> length (bodies p ! i)"
    and "\<not> withheld p \<Longrightarrow> phaseData p = bodies p"
    and "withheld p \<Longrightarrow> i < length ids \<Longrightarrow> int (length (phaseData p ! i)) = pivots p ! i"
  using assms by (auto simp: plan_wf_def phaseData_def min_def)

lemma slice_phase:
  assumes "plan_wf p ids" and "i < length ids" and "a + d \<le> length (phaseData p ! i)"
  shows "take d (drop a (phaseData p ! i)) = take d (drop a (bodies p ! i))"
proof -
  have "take d (drop a (take (length (phaseData p ! i)) (bodies p ! i))) = take d (drop a (bodies p ! i))"
    using assms(3) by (simp add: drop_take min_def)
  then show ?thesis using phaseData_facts(2) [OF assms(1,2)] by simp
qed

lemma carryingOf_facts:
  "distinct (carryingOf data)" "i \<in> set (carryingOf data) \<longleftrightarrow> i < length data \<and> data ! i \<noteq> []"
  by (auto simp: carryingOf_def)

lemma hasBodyBytes_iff: "hasBodyBytes bs \<longleftrightarrow> carryingOf bs \<noteq> []"
proof -
  have "hasBodyBytes bs \<longleftrightarrow> (\<exists>i<length bs. bs ! i \<noteq> [])" by (auto simp: hasBodyBytes_def list_ex_length)
  also have "\<dots> \<longleftrightarrow> carryingOf bs \<noteq> []" by (auto simp: carryingOf_def filter_empty_conv)
  finally show ?thesis .
qed

lemma noEnd_snoc:
  "noEnd rs \<Longrightarrow> noEnd (rs @ [map (\<lambda>i. DataFrame (ids ! i) False (f i)) xs])"
  by (simp add: noEnd_def list_all_iff)

lemma releasedI:
  assumes "noEnd early" and "carryingOf bs \<noteq> []" and "\<forall>i\<in>set (carryingOf bs). f i \<noteq> []"
  shows "released bs ids (early @ [map (\<lambda>i. DataFrame (ids ! i) True (f i)) (carryingOf bs)])"
  using assms unfolding released_def hasBodyBytes_iff by auto

text \<open>A record's outcome: flushed with the new state, or failed with nothing flushed.\<close>

lemma emitRecord_cases:
  obtains "emitRecord accepts flushes fs s s' = s'\<lparr>out := out s @ [fs]\<rparr>"
    | "emitRecord accepts flushes fs s s' = s\<lparr>phase := Failed\<rparr>"
  using that by (cases "list_all accepts fs \<and> flushes") (auto simp: emitRecord_def)

lemma phase_ok_failed: "phase_ok p ids s \<Longrightarrow> phase s \<noteq> Done \<Longrightarrow> phase_ok p ids (s\<lparr>cs := c, phase := Failed\<rparr>)"
  by (simp add: phase_ok_def Let_def)

lemma streamIDs_delivered: "delivered p ids s \<Longrightarrow> streamIDs (flow (cs s)) = ids"
  by (simp add: delivered_def credit_ok_def)

lemma map2_add_zero: "length xs = length ys \<Longrightarrow> \<forall>i<length xs. xs ! i = (0 :: int) \<Longrightarrow> map2 (+) xs ys = ys"
  by (intro nth_equalityI) auto

text \<open>One record preserves the invariant when its success state satisfies the phase's condition.\<close>

lemma send_inv_emit:
  assumes "send_inv p ids s" and "phase s \<noteq> Failed" and "phase s \<noteq> Done" and "distinct ids"
    and "tryReserve ns (cs s) = (True, c)"
    and "length ns = length ids" and "\<forall>i<length ids. 0 \<le> ns ! i \<and> (i \<notin> set xs \<longrightarrow> ns ! i = 0)"
    and "distinct xs" and "\<forall>i\<in>set xs. i < length ids"
    and "\<forall>i\<in>set xs. f i = take (nat (ns ! i)) (drop (nat (sent s ! i)) (bodies p ! i)) \<and>
        sent s ! i + ns ! i \<le> int (length (bodies p ! i))"
    and "sum_list (map (\<lambda>i. http2FrameHeaderSize + ns ! i) xs) \<le> tlsRecordPlaintextBudget"
    and "sent' = map2 (+) (sent s) ns"
    and "phase_ok p ids (s\<lparr>cs := c, sent := sent', phase := ph',
       out := out s @ [map (\<lambda>i. DataFrame (ids ! i) e (f i)) xs]\<rparr>)"
  shows "send_inv p ids (emitRecord accepts flushes (map (\<lambda>i. DataFrame (ids ! i) e (f i)) xs) (s\<lparr>cs := c\<rparr>)
      (s\<lparr>cs := c, sent := sent', phase := ph'\<rparr>))"
proof -
  have inv: "delivered p ids s" "phase_ok p ids s" using assms(1) by (simp_all add: send_inv_def)
  have "phase_ok p ids (emitRecord accepts flushes (map (\<lambda>i. DataFrame (ids ! i) e (f i)) xs) (s\<lparr>cs := c\<rparr>)
      (s\<lparr>cs := c, sent := sent', phase := ph'\<rparr>))"
    using assms(13) phase_ok_failed [OF inv(2) assms(3)] by (simp add: emitRecord_def)
  with delivered_emit [OF inv(1) assms(2,4-12)] show ?thesis by (simp add: send_inv_def)
qed

lemma fittingNeeds_empty: "\<forall>b\<in>set bs. b = [] \<Longrightarrow> fittingNeeds mx bs k r = FitNeeds (bodyLens bs) r"
  by (induction bs) (auto simp: bodyLens_def)

lemma recordCost_sum_zero:
  assumes "sum_list (map (\<lambda>b. recordCost (int (length b))) bs) = 0"
  shows "\<forall>b\<in>set bs. b = []"
  using assms
proof (induction bs)
  case (Cons b bs)
  have "0 \<le> sum_list (map (\<lambda>b. recordCost (int (length b))) bs)"
    by (intro sum_list_nonneg) (auto simp: recordCost_def http2FrameHeaderSize_def)
  moreover have "0 \<le> recordCost (int (length b))" by (simp add: recordCost_def http2FrameHeaderSize_def)
  ultimately have "recordCost (int (length b)) = 0" "sum_list (map (\<lambda>b. recordCost (int (length b))) bs) = 0"
    using Cons.prems by auto
  with Cons.IH show ?case by (auto simp: recordCost_def http2FrameHeaderSize_def split: if_splits)
qed simp

text \<open>A whole phase in one record, when it fits and is reserved.\<close>

lemma send_inv_fitting_record:
  assumes inv: "send_inv p ids s" and wf: "plan_wf p ids" and dist: "distinct ids" and ph: "phase s = Fitting"
    and res: "tryReserve (bodyLens (phaseData p)) (cs s) = (True, c)"
    and fits: "sum_list (map (\<lambda>b. recordCost (int (length b))) (phaseData p)) \<le> tlsRecordPlaintextBudget"
    and some: "\<exists>i<length ids. phaseData p ! i \<noteq> []"
  shows "send_inv p ids (emitRecord accepts flushes
      (map (\<lambda>i. DataFrame (ids ! i) (\<not> withheld p) (phaseData p ! i)) (carryingOf (phaseData p)))
      (s\<lparr>cs := c\<rparr>) (s\<lparr>cs := c, sent := bodyLens (phaseData p), phase := afterPhase p\<rparr>))"
proof -
  let ?data = "phaseData p"
  have zero: "\<forall>i<length ids. sent s ! i = 0" and out: "out s = []" and len: "length (sent s) = length ids"
    using inv ph by (auto simp: send_inv_def phase_ok_def delivered_def Let_def)
  note data = phaseData_facts [OF wf]
  have bl: "length (bodyLens ?data) = length ids" "\<forall>i<length ids. bodyLens ?data ! i = int (length (?data ! i))"
    using data(1) by (auto simp: bodyLens_def)
  have "sum_list (map (\<lambda>i. http2FrameHeaderSize + bodyLens ?data ! i) (carryingOf ?data)) =
      sum_list (map (\<lambda>i. http2FrameHeaderSize + int (length (?data ! i))) (carryingOf ?data))"
    using bl data(1) by (intro arg_cong [where f = sum_list] map_cong) (auto simp: carryingOf_facts)
  then have sum: "sum_list (map (\<lambda>i. http2FrameHeaderSize + bodyLens ?data ! i) (carryingOf ?data)) \<le> tlsRecordPlaintextBudget"
    using fits sum_carrying [of ?data] by simp
  have car: "carryingOf ?data \<noteq> []" using some data(1) by (auto simp: carryingOf_def filter_empty_conv)
  have rel: "released (bodies p) ids ([] @ [map (\<lambda>i. DataFrame (ids ! i) True (bodies p ! i)) (carryingOf (bodies p))])"
    if "\<not> withheld p" using car that data(4) by (intro releasedI) (auto simp: noEnd_def carryingOf_facts)
  have next_ok: "phase_ok p ids (s\<lparr>cs := c, sent := bodyLens ?data, phase := afterPhase p,
      out := out s @ [map (\<lambda>i. DataFrame (ids ! i) (\<not> withheld p) (?data ! i)) (carryingOf ?data)]\<rparr>)"
    using bl data(4) out rel noEnd_snoc [of "[]" ids "(!) ?data" "carryingOf ?data"]
    by (cases "withheld p") (auto simp: phase_ok_def Let_def afterPhase_def noEnd_def)
  show ?thesis
  proof (rule send_inv_emit [OF inv _ _ dist res _ _ _ _ _ sum _ next_ok])
    show "\<forall>i\<in>set (carryingOf ?data). ?data ! i = take (nat (bodyLens ?data ! i)) (drop (nat (sent s ! i)) (bodies p ! i)) \<and>
        sent s ! i + bodyLens ?data ! i \<le> int (length (bodies p ! i))"
      using zero bl data(1,2,3) by (auto simp: carryingOf_facts)
    show "bodyLens ?data = map2 (+) (sent s) (bodyLens ?data)" using zero len bl by (simp add: map2_add_zero)
  qed (use ph bl data(1) carryingOf_facts in auto)
qed

lemma send_inv_fitting:
  assumes inv: "send_inv p ids s" and wf: "plan_wf p ids" and dist: "distinct ids" and ph: "phase s = Fitting"
  shows "send_inv p ids (sendFittingBodyRecord accepts flushes p s)"
proof -
  let ?data = "phaseData p"
  have del: "delivered p ids s" and zero: "\<forall>i<length ids. sent s ! i = 0" and out: "out s = []"
    using inv ph by (auto simp: send_inv_def phase_ok_def Let_def)
  note data = phaseData_facts [OF wf] and ids = streamIDs_delivered [OF del]
  have idle: "send_inv p ids (s\<lparr>phase := Greedy\<rparr>)" if "\<exists>i<length ids. ?data ! i \<noteq> []"
    using that del zero out ph by (auto simp: send_inv_def delivered_def phase_ok_def Let_def noEnd_def)
  have failed: "send_inv p ids (s\<lparr>phase := Failed\<rparr>)"
    using del out ph by (auto simp: send_inv_def delivered_def phase_ok_def Let_def noEnd_def)
  have nofit: "\<exists>i<length ids. ?data ! i \<noteq> []" if "fittingNeeds mx ?data k r \<noteq> FitNeeds (bodyLens ?data) r" for mx k r
    using that fittingNeeds_empty [of ?data mx k r] data(1) by (metis in_set_conv_nth)
  show ?thesis
  proof (cases "fittingNeeds (peerMaxFrameSize (conn (cs s))) ?data 0 0")
    case (FitError n)
    with failed show ?thesis by (simp add: sendFittingBodyRecord_def)
  next
    case NoFit
    then have "\<exists>i<length ids. ?data ! i \<noteq> []" by (intro nofit [of "peerMaxFrameSize (conn (cs s))" 0 0]) simp
    with NoFit idle show ?thesis by (simp add: sendFittingBodyRecord_def)
  next
    case (FitNeeds ns rec)
    have ns: "ns = bodyLens ?data" "rec = sum_list (map (\<lambda>b. recordCost (int (length b))) ?data)"
      "rec \<le> tlsRecordPlaintextBudget"
      using fittingNeeds_spec [OF FitNeeds] by (auto simp: tlsRecordPlaintextBudget_def)
    show ?thesis
    proof (cases "rec = 0")
      case True
      then have empty: "\<forall>i<length ids. ?data ! i = []" using recordCost_sum_zero [of ?data] ns(2) data(1) by auto
      then have "\<not> withheld p \<Longrightarrow> carryingOf (bodies p) = []"
        using data(1,4) by (auto simp: carryingOf_def filter_empty_conv)
      with empty have "send_inv p ids (s\<lparr>phase := afterPhase p\<rparr>)"
        using del zero out ph data(4) unfolding send_inv_def phase_ok_def delivered_def
        by (auto simp: Let_def afterPhase_def noEnd_def released_def hasBodyBytes_iff)
      with True FitNeeds show ?thesis by (simp add: sendFittingBodyRecord_def)
    next
      case False
      with FitNeeds have some: "\<exists>i<length ids. ?data ! i \<noteq> []"
        by (intro nofit [of "peerMaxFrameSize (conn (cs s))" 0 0]) simp
      obtain ok c where r: "tryReserve ns (cs s) = (ok, c)" by (cases "tryReserve ns (cs s)")
      show ?thesis
      proof (cases ok)
        case True
        with r ns(1) have "tryReserve (bodyLens ?data) (cs s) = (True, c)" by simp
        from send_inv_fitting_record [OF inv wf dist ph this _ some] ns(2,3) r True False FitNeeds ids
        show ?thesis by (simp add: sendFittingBodyRecord_def Let_def)
      qed (use r FitNeeds False idle [OF some] in \<open>simp add: sendFittingBodyRecord_def\<close>)
    qed
  qed
qed

definition peer_event :: "int list \<Rightarrow> credit_event \<Rightarrow> bool" where
  "peer_event ids e \<longleftrightarrow> credit_admissible ids e \<and> (case e of Take _ _ \<Rightarrow> False | Reserve _ \<Rightarrow> False | _ \<Rightarrow> True)"

lemma peer_event_spent: "peer_event ids e \<Longrightarrow> streamSpent (creditStep c e) = streamSpent c"
  by (cases e) (auto simp: peer_event_def split: sum.splits option.splits prod.splits)

lemma peer_events_credit:
  "list_all (peer_event ids) es \<Longrightarrow> credit_ok ids c \<Longrightarrow>
   credit_ok ids (foldl creditStep c es) \<and> streamSpent (foldl creditStep c es) = streamSpent c"
proof (induction es arbitrary: c)
  case (Cons e es)
  then have "credit_ok ids (creditStep c e)" by (auto simp: peer_event_def intro: credit_ok_step)
  with Cons peer_event_spent [of ids e c] show ?case by simp
qed simp

lemma send_inv_credit:
  assumes "send_inv p ids s" and "credit_ok ids c" and "streamSpent c = streamSpent (cs s)"
  shows "send_inv p ids (s\<lparr>cs := c\<rparr>)"
  using assms by (auto simp: send_inv_def delivered_def phase_ok_def Let_def cong: send_phase.case_cong)

lemma greedy_input:
  assumes inv: "send_inv p ids s" and wf: "plan_wf p ids" and ph: "phase s = Greedy"
    and caps: "caps = capsOf (\<not> withheld p) (min (peerMaxFrameSize (conn (cs s))) (tlsRecordPlaintextBudget - http2FrameHeaderSize))
        (bodyLens (phaseData p)) (sent s) (stream (flow (cs s))) (carryingOf (phaseData p))"
  shows "plan_input (bodyLens (phaseData p)) (sent s) (carryingOf (phaseData p)) caps \<and>
    (\<forall>i<length ids. sent s ! i + caps ! i \<le> int (length (phaseData p ! i)) \<and>
       (\<not> withheld p \<and> phaseData p ! i \<noteq> [] \<longrightarrow> sent s ! i + caps ! i < int (length (phaseData p ! i))))"
proof -
  let ?data = "phaseData p"
  let ?mx = "min (peerMaxFrameSize (conn (cs s))) (tlsRecordPlaintextBudget - http2FrameHeaderSize)"
  note data = phaseData_facts [OF wf]
  have del: "delivered p ids s" and len: "length (sent s) = length ids" and cok: "credit_ok ids (cs s)"
    using inv by (auto simp: send_inv_def delivered_def)
  have snt: "\<forall>i<length ids. 0 \<le> sent s ! i \<and> sent s ! i \<le> int (length (?data ! i)) \<and>
      (\<not> withheld p \<and> ?data ! i \<noteq> [] \<longrightarrow> sent s ! i < int (length (?data ! i)))"
    using inv ph by (auto simp: send_inv_def delivered_def phase_ok_def Let_def)
  have mx: "0 \<le> ?mx" "?mx < 2 ^ 31"
    using cok by (auto simp: credit_ok_def conn_ok_def flow_constants)
  have win: "in_int32 (stream (flow (cs s)) ! i)" if "i < length ids" for i
  proof -
    have "list_all window_ok (stream (flow (cs s)))" "length (stream (flow (cs s))) = length ids"
      using cok unfolding credit_ok_def flow_ok_def by auto
    then have "window_ok (stream (flow (cs s)) ! i)" using that by (simp add: list_all_length)
    then show ?thesis by (simp add: window_ok_def in_int32_def maxInitialWindowSize_def)
  qed
  have cap: "0 \<le> caps ! i \<and> caps ! i < 2 ^ 31 \<and>
      sent s ! i + caps ! i \<le> (if \<not> withheld p then int (length (?data ! i)) - 1 else int (length (?data ! i)))"
    if i: "i < length ids" "?data ! i \<noteq> []" for i
  proof -
    have "0 \<le> streamCap (\<not> withheld p) ?mx (bodyLens ?data) (sent s) (stream (flow (cs s))) i \<and>
        streamCap (\<not> withheld p) ?mx (bodyLens ?data) (sent s) (stream (flow (cs s))) i \<le> ?mx \<and>
        sent s ! i + streamCap (\<not> withheld p) ?mx (bodyLens ?data) (sent s) (stream (flow (cs s))) i
          \<le> (if \<not> withheld p then bodyLens ?data ! i - 1 else bodyLens ?data ! i)"
      using i snt win data(1) by (intro streamCap_bounds [OF mx]) (auto simp: bodyLens_def)
    then show ?thesis using i mx data(1) by (auto simp: caps capsOf_def carryingOf_facts bodyLens_def)
  qed
  have zero: "caps ! i = 0" if "i < length ids" "?data ! i = []" for i
    using that data(1) by (simp add: caps capsOf_def carryingOf_facts bodyLens_def)
  have small: "int (length (?data ! i)) < 2 ^ 63" if "i < length ids" for i
    using wf data(3) that unfolding plan_wf_def by (meson le_less_trans of_nat_mono)
  have "i < length (bodyLens ?data) \<and> 0 < bodyLens ?data ! i \<and> bodyLens ?data ! i < 2 ^ 63 \<and> 0 \<le> sent s ! i \<and>
      0 \<le> caps ! i \<and> caps ! i < 2 ^ 31 \<and> (0 < caps ! i \<longrightarrow> sent s ! i + caps ! i \<le> bodyLens ?data ! i)"
    if "i \<in> set (carryingOf ?data)" for i
  proof -
    have i: "i < length ids" "?data ! i \<noteq> []" using that data(1) by (simp_all add: carryingOf_facts)
    have "bodyLens ?data ! i = int (length (?data ! i))" using i data(1) by (simp add: bodyLens_def)
    with cap [OF i] small [OF i(1)] snt i data(1) show ?thesis by (auto simp: bodyLens_def split: if_splits)
  qed
  then have "plan_input (bodyLens ?data) (sent s) (carryingOf ?data) caps"
    using len data(1) carryingOf_facts(1) unfolding plan_input_def by (simp add: caps) (simp add: bodyLens_def)
  moreover have "sent s ! i + caps ! i \<le> int (length (?data ! i)) \<and>
       (\<not> withheld p \<and> ?data ! i \<noteq> [] \<longrightarrow> sent s ! i + caps ! i < int (length (?data ! i)))" if "i < length ids" for i
    using cap [OF that] zero [OF that] snt that by (cases "?data ! i = []") (auto split: if_splits)
  ultimately show ?thesis by blast
qed

lemma sum_recordCost_filter:
  "sum_list (map (\<lambda>i. http2FrameHeaderSize + plan ! i) (filter (\<lambda>i. plan ! i \<noteq> 0) xs)) =
   sum_list (map (\<lambda>i. recordCost (plan ! i)) xs)"
  by (induction xs) (auto simp: recordCost_def)

lemma greedy_emit:
  assumes inv: "send_inv p ids s" and wf: "plan_wf p ids" and dist: "distinct ids" and ph: "phase s = Greedy"
    and good: "good_plan (carryingOf (phaseData p)) caps plan" "length caps = length ids"
    and room: "\<forall>i<length ids. sent s ! i + caps ! i \<le> int (length (phaseData p ! i)) \<and>
       (\<not> withheld p \<and> phaseData p ! i \<noteq> [] \<longrightarrow> sent s ! i + caps ! i < int (length (phaseData p ! i)))"
    and res: "tryReserve plan (cs s) = (True, c)"
  shows "send_inv p ids (emitRecord accepts flushes (planFrames ids (phaseData p) (sent s) plan (carryingOf (phaseData p)))
      (s\<lparr>cs := c\<rparr>) (s\<lparr>cs := c, sent := advanceSent plan (carryingOf (phaseData p)) (sent s)\<rparr>))"
proof -
  let ?data = "phaseData p"
  let ?xs = "filter (\<lambda>i. plan ! i \<noteq> 0) (carryingOf ?data)"
  let ?f = "\<lambda>i. take (nat (plan ! i)) (drop (nat (sent s ! i)) (?data ! i))"
  note data = phaseData_facts [OF wf] and gp = good_planD [OF good(1)]
  have del: "delivered p ids s" and pok: "phase_ok p ids s" using inv by (simp_all add: send_inv_def)
  have len: "length (sent s) = length ids" "\<forall>i<length ids. 0 \<le> sent s ! i" using del by (auto simp: delivered_def)
  have le: "0 \<le> plan ! i \<and> plan ! i \<le> caps ! i" if "i < length ids" "i \<in> set (carryingOf ?data)" for i
    using gp(2,3) that good(2) by simp
  have adv: "advanceSent plan (carryingOf ?data) (sent s) = map2 (+) (sent s) plan"
    using len gp(1,4) good(2) data(1) carryingOf_facts by (intro advanceSent_eq) auto
  have bnd: "sent s ! i + plan ! i \<le> int (length (?data ! i)) \<and>
      (\<not> withheld p \<and> ?data ! i \<noteq> [] \<longrightarrow> sent s ! i + plan ! i < int (length (?data ! i)))" if "i < length ids" for i
  proof (cases "i \<in> set (carryingOf ?data)")
    case True
    with le [OF that True] room that show ?thesis by fastforce
  next
    case False
    then have "plan ! i = 0" "?data ! i = []" using gp(4) that good(2) data(1) by (auto simp: carryingOf_facts)
    with pok ph that show ?thesis by (auto simp: phase_ok_def Let_def)
  qed
  have slice: "?f i = take (nat (plan ! i)) (drop (nat (sent s ! i)) (bodies p ! i)) \<and>
      sent s ! i + plan ! i \<le> int (length (bodies p ! i))" if "i \<in> set ?xs" for i
  proof -
    have i: "i < length ids" "i \<in> set (carryingOf ?data)" using that data(1) by (auto simp: carryingOf_facts)
    have "nat (sent s ! i) + nat (plan ! i) \<le> length (?data ! i)"
      using bnd [OF i(1)] le [OF i] len(2) i(1) by (simp add: nat_add_distrib [symmetric] nat_le_iff)
    then show ?thesis using slice_phase [OF wf i(1)] bnd [OF i(1)] data(3) [OF i(1)] by force
  qed
  have nxt: "phase_ok p ids (s\<lparr>cs := c, sent := map2 (+) (sent s) plan, phase := Greedy,
      out := out s @ [map (\<lambda>i. DataFrame (ids ! i) False (?f i)) ?xs]\<rparr>)"
    using pok ph bnd len gp(1) good(2) noEnd_snoc [of "out s" ids ?f ?xs]
    by (simp add: phase_ok_def Let_def)
  have "send_inv p ids (emitRecord accepts flushes (map (\<lambda>i. DataFrame (ids ! i) False (?f i)) ?xs) (s\<lparr>cs := c\<rparr>)
      (s\<lparr>cs := c, sent := map2 (+) (sent s) plan, phase := Greedy\<rparr>))"
  proof (rule send_inv_emit [OF inv _ _ dist res _ _ _ _ _ _ refl nxt])
    show "\<forall>i<length ids. 0 \<le> plan ! i \<and> (i \<notin> set ?xs \<longrightarrow> plan ! i = 0)" using gp(2,4) good(2) by auto
    show "\<forall>i\<in>set ?xs. i < length ids" using data(1) by (auto simp: carryingOf_facts)
    show "\<forall>i\<in>set ?xs. ?f i = take (nat (plan ! i)) (drop (nat (sent s ! i)) (bodies p ! i)) \<and>
        sent s ! i + plan ! i \<le> int (length (bodies p ! i))" using slice by blast
    show "sum_list (map (\<lambda>i. http2FrameHeaderSize + plan ! i) ?xs) \<le> tlsRecordPlaintextBudget"
      unfolding sum_recordCost_filter by (rule gp(5))
  qed (use ph gp(1) good(2) carryingOf_facts(1) in simp_all)
  moreover have "s\<lparr>cs := c, sent := map2 (+) (sent s) plan, phase := Greedy\<rparr> = s\<lparr>cs := c, sent := map2 (+) (sent s) plan\<rparr>"
    using ph by (cases s) simp
  ultimately show ?thesis by (simp add: adv planFrames_def)
qed

lemma send_inv_greedyRecord:
  assumes inv: "send_inv p ids s" and wf: "plan_wf p ids" and dist: "distinct ids" and ph: "phase s = Greedy"
    and peer: "list_all (peer_event ids) es"
  shows "send_inv p ids (greedyRecord accepts flushes lagging es (phaseData p) (\<not> withheld p) s)"
proof -
  let ?data = "phaseData p"
  define caps where "caps = capsOf (\<not> withheld p) (min (peerMaxFrameSize (conn (cs s))) (tlsRecordPlaintextBudget - http2FrameHeaderSize))
        (bodyLens ?data) (sent s) (stream (flow (cs s))) (carryingOf ?data)"
  let ?credit = "peerConnSendWindow (conn (cs s))"
  note inp = greedy_input [OF inv wf ph caps_def]
  have del: "delivered p ids s" using inv by (simp add: send_inv_def)
  have cok: "credit_ok ids (cs s)" and scr: "length (scratch s) = length (bodyLens ?data)"
    using del phaseData_facts(1) [OF wf] by (auto simp: delivered_def bodyLens_def)
  have cr: "0 \<le> ?credit" using cok by (simp add: credit_ok_def conn_ok_def)
  have capl: "length caps = length ids"
    using phaseData_facts(1) [OF wf] by (simp add: caps_def bodyLens_def)
  obtain pay rec plan where ok: "plan_ok (carryingOf ?data) caps ?credit (pay, rec, plan)"
    and res: "planGreedyIntermediateRecordWithScratch (bodyLens ?data) (sent s) (carryingOf ?data) caps ?credit (scratch s) =
       (if pay = 0 then NoPlan else Plan plan)"
    using planGreedy_spec [OF conjunct1 [OF inp] scr cr] by blast
  show ?thesis
  proof (cases "pay = 0")
    case True
    with res inv show ?thesis by (simp add: greedyRecord_def Let_def available_def caps_def)
  next
    case False
    define plan' where "plan' = choosePlan lagging (bodyLens ?data) (sent s) (carryingOf ?data) caps ?credit plan"
    define s1 where "s1 = s\<lparr>cs := foldl creditStep (cs s) es\<rparr>"
    have good: "good_plan (carryingOf ?data) caps plan'"
      unfolding plan'_def using ok by (intro choosePlan_good [OF conjunct1 [OF inp] cr]) (auto simp: good_plan_def)
    have inv1: "send_inv p ids s1"
      unfolding s1_def using peer_events_credit [OF peer cok] by (intro send_inv_credit [OF inv]) auto
    have "greedyRecord accepts flushes lagging es ?data (\<not> withheld p) s =
       (case tryReserve plan' (cs s1) of (False, _) \<Rightarrow> s1
        | (True, c) \<Rightarrow> emitRecord accepts flushes (planFrames ids ?data (sent s1) plan' (carryingOf ?data)) (s1\<lparr>cs := c\<rparr>)
             (s1\<lparr>cs := c, sent := advanceSent plan' (carryingOf ?data) (sent s1)\<rparr>))"
      using res False streamIDs_delivered [OF del]
      by (simp add: greedyRecord_def Let_def available_def caps_def plan'_def s1_def split: prod.split bool.split)
    moreover have "send_inv p ids (emitRecord accepts flushes (planFrames ids ?data (sent s1) plan' (carryingOf ?data)) (s1\<lparr>cs := c\<rparr>)
             (s1\<lparr>cs := c, sent := advanceSent plan' (carryingOf ?data) (sent s1)\<rparr>))"
      if "tryReserve plan' (cs s1) = (True, c)" for c
      using conjunct2 [OF inp] ph by (intro greedy_emit [OF inv1 wf dist _ good capl _ that]) (simp_all add: s1_def)
    ultimately show ?thesis using inv1 by (auto split: prod.splits bool.splits)
  qed
qed

text \<open>The final record of an unwithheld send: every remaining suffix with END_STREAM.\<close>

lemma send_inv_final:
  assumes inv: "send_inv p ids s" and wf: "plan_wf p ids" and dist: "distinct ids" and ph: "phase s = Greedy"
    and nw: "\<not> withheld p" and fin: "finalNeeds (bodyLens (phaseData p)) (sent s) (carryingOf (phaseData p)) 0
        (replicate (length (phaseData p)) 0) = (fin, ns)" "fin \<le> tlsRecordPlaintextBudget"
    and res: "tryReserve ns (cs s) = (True, c)"
  shows "send_inv p ids (emitRecord accepts flushes
      (map (\<lambda>i. DataFrame (ids ! i) True (drop (nat (sent s ! i)) (phaseData p ! i))) (carryingOf (phaseData p)))
      (s\<lparr>cs := c\<rparr>) (s\<lparr>cs := c, sent := bodyLens (phaseData p), phase := Done\<rparr>))"
proof -
  let ?data = "phaseData p" and ?f = "\<lambda>i. drop (nat (sent s ! i)) (phaseData p ! i)"
  note data = phaseData_facts [OF wf]
  have eq: "?data = bodies p" using data(4) nw by simp
  have pok: "phase_ok p ids s" and len: "length (sent s) = length ids" and nn: "\<forall>i<length ids. 0 \<le> sent s ! i"
    using inv by (auto simp: send_inv_def delivered_def)
  have snt: "sent s ! i \<le> int (length (?data ! i)) \<and> (?data ! i \<noteq> [] \<longrightarrow> sent s ! i < int (length (?data ! i)))"
    if "i < length ids" for i using pok ph nw that by (simp add: phase_ok_def Let_def)
  have bl: "bodyLens ?data ! i = int (length (?data ! i))" if "i < length ids" for i
    using that data(1) by (simp add: bodyLens_def)
  have f: "fin = sum_list (map (\<lambda>i. http2FrameHeaderSize + (bodyLens ?data ! i - sent s ! i)) (carryingOf ?data)) \<and>
      length ns = length ids \<and>
      (\<forall>i<length ids. ns ! i = (if i \<in> set (carryingOf ?data) then bodyLens ?data ! i - sent s ! i else 0))"
    using finalNeeds_spec [OF carryingOf_facts(1) _ _ fin(1)] fin(2) snt bl data(1)
    by (auto simp: carryingOf_facts)
  have ns: "ns ! i = int (length (?data ! i)) - sent s ! i" if "i < length ids" for i
    using f snt [OF that] nn that bl data(1) by (auto simp: carryingOf_facts)
  have tot: "sum_list (map (\<lambda>i. http2FrameHeaderSize + ns ! i) (carryingOf ?data)) = fin"
    unfolding conjunct1 [OF f] using ns bl data(1)
    by (intro arg_cong [where f = sum_list] map_cong) (auto simp: carryingOf_facts)
  have adv: "bodyLens ?data = map2 (+) (sent s) ns"
    using conjunct1 [OF conjunct2 [OF f]] len ns data(1) by (auto intro!: nth_equalityI simp: bodyLens_def)
  have nxt: "phase_ok p ids (s\<lparr>cs := c, sent := bodyLens ?data, phase := Done,
      out := out s @ [map (\<lambda>i. DataFrame (ids ! i) True (?f i)) (carryingOf ?data)]\<rparr>)"
  proof -
    have "carryingOf (bodies p) \<noteq> []"
      using pok ph data(1) eq by (auto simp: phase_ok_def Let_def carryingOf_def filter_empty_conv)
    moreover have "noEnd (out s)" using pok ph by (simp add: phase_ok_def Let_def)
    moreover have "?f i \<noteq> []" if "i \<in> set (carryingOf (bodies p))" for i
    proof -
      have i: "i < length ids" "?data ! i \<noteq> []" using that data(1) eq by (simp_all add: carryingOf_facts)
      with snt [OF i(1)] nn have "nat (sent s ! i) < length (?data ! i)" by (simp add: nat_less_iff)
      then show ?thesis by simp
    qed
    ultimately have "released (bodies p) ids (out s @ [map (\<lambda>i. DataFrame (ids ! i) True (?f i)) (carryingOf (bodies p))])"
      by (intro releasedI) auto
    then show ?thesis using bl eq by (simp add: phase_ok_def Let_def)
  qed
  have slice: "?f i = take (nat (ns ! i)) (drop (nat (sent s ! i)) (bodies p ! i)) \<and>
        sent s ! i + ns ! i \<le> int (length (bodies p ! i))" if "i \<in> set (carryingOf ?data)" for i
    using that ns [of i] nn snt [of i] data(1) eq by (auto simp: carryingOf_facts nat_diff_distrib)
  show ?thesis
  proof (rule send_inv_emit [OF inv _ _ dist res _ _ _ _ _ _ adv nxt])
    show "\<forall>i<length ids. 0 \<le> ns ! i \<and> (i \<notin> set (carryingOf ?data) \<longrightarrow> ns ! i = 0)"
    proof (intro allI impI conjI)
      fix i assume i: "i < length ids"
      show "0 \<le> ns ! i" using ns [OF i] snt [OF i] by simp
      show "ns ! i = 0" if "i \<notin> set (carryingOf ?data)" using f i that by simp
    qed
    show "\<forall>i\<in>set (carryingOf ?data). ?f i = take (nat (ns ! i)) (drop (nat (sent s ! i)) (bodies p ! i)) \<and>
        sent s ! i + ns ! i \<le> int (length (bodies p ! i))" using slice by blast
    show "sum_list (map (\<lambda>i. http2FrameHeaderSize + ns ! i) (carryingOf ?data)) \<le> tlsRecordPlaintextBudget"
      unfolding tot by (rule fin(2))
    show "\<forall>i\<in>set (carryingOf ?data). i < length ids" using data(1) by (simp add: carryingOf_facts)
  qed (use ph f carryingOf_facts(1) in simp_all)
qed

lemma send_inv_tail:
  assumes inv: "send_inv p ids s" and wf: "plan_wf p ids" and dist: "distinct ids" and ph: "phase s = Tail"
  shows "send_inv p ids (writeTailReleaseFrames accepts flushes p s)"
proof -
  let ?f = "\<lambda>i. drop (nat (pivots p ! i)) (bodies p ! i)"
  let ?xs = "filter (\<lambda>i. needs p ! i \<noteq> 0) [0..<length ids]"
  note data = phaseData_facts [OF wf]
  have pok: "phase_ok p ids s" and del: "delivered p ids s" and len: "length (sent s) = length ids"
    using inv by (auto simp: send_inv_def delivered_def)
  have wh: "withheld p" and snt: "\<forall>i<length ids. sent s ! i = pivots p ! i"
    using pok ph data(5) by (auto simp: phase_ok_def Let_def)
  have w: "length (needs p) = length ids" "length (bodies p) = length ids" "hasBodyBytes (bodies p)"
    "sum_list (map recordCost (needs p)) \<le> tlsRecordPlaintextBudget"
    using wf wh by (auto simp: plan_wf_def)
  have at: "0 \<le> pivots p ! i \<and> pivots p ! i \<le> int (length (bodies p ! i)) \<and>
      needs p ! i = int (length (bodies p ! i)) - pivots p ! i \<and> (bodies p ! i \<noteq> [] \<longrightarrow> 0 < needs p ! i)"
    if "i < length ids" for i using wf wh that unfolding plan_wf_def by blast
  have xs: "?xs = carryingOf (bodies p)"
  proof -
    have "needs p ! i \<noteq> 0 \<longleftrightarrow> length (bodies p ! i) > 0" if "i < length ids" for i
      using at [OF that] by (cases "bodies p ! i = []") auto
    then show ?thesis unfolding carryingOf_def w(2) by (intro filter_cong) auto
  qed
  have "sum_list (map (\<lambda>i. http2FrameHeaderSize + needs p ! i) ?xs) = sum_list (map (\<lambda>i. recordCost (needs p ! i)) [0..<length ids])"
    by (rule sum_recordCost_filter)
  also have "map (\<lambda>i. recordCost (needs p ! i)) [0..<length ids] = map recordCost (needs p)"
    using w(1) by (intro nth_equalityI) auto
  finally have sum: "sum_list (map (\<lambda>i. http2FrameHeaderSize + needs p ! i) ?xs) \<le> tlsRecordPlaintextBudget"
    using w(4) by simp
  have next_ok: "phase_ok p ids (s\<lparr>cs := c, sent := bodyLens (bodies p), phase := Done,
      out := out s @ [map (\<lambda>i. DataFrame (ids ! i) True (?f i)) ?xs]\<rparr>)" for c
  proof -
    have "released (bodies p) ids (out s @ [map (\<lambda>i. DataFrame (ids ! i) True (?f i)) (carryingOf (bodies p))])"
    proof (intro releasedI ballI)
      fix i assume "i \<in> set (carryingOf (bodies p))"
      then have i: "i < length ids" "bodies p ! i \<noteq> []" using w(2) by (simp_all add: carryingOf_facts)
      from at [OF i(1)] i(2) have "nat (pivots p ! i) < length (bodies p ! i)" by (simp add: nat_less_iff)
      then show "?f i \<noteq> []" by simp
    qed (use pok ph w(3) in \<open>auto simp: phase_ok_def Let_def hasBodyBytes_iff\<close>)
    then show ?thesis using w(2) by (simp add: phase_ok_def Let_def xs bodyLens_def)
  qed
  have emit: "send_inv p ids (emitRecord accepts flushes (map (\<lambda>i. DataFrame (ids ! i) True (?f i)) ?xs)
      (s\<lparr>cs := c\<rparr>) (s\<lparr>cs := c, sent := bodyLens (bodies p), phase := Done\<rparr>))"
    if res: "tryReserve (needs p) (cs s) = (True, c)" for c
  proof (rule send_inv_emit [OF inv _ _ dist res w(1) _ _ _ _ sum _ next_ok])
    show "bodyLens (bodies p) = map2 (+) (sent s) (needs p)"
      using len w at snt by (intro nth_equalityI) (auto simp: bodyLens_def)
    show "\<forall>i\<in>set ?xs. ?f i = take (nat (needs p ! i)) (drop (nat (sent s ! i)) (bodies p ! i)) \<and>
        sent s ! i + needs p ! i \<le> int (length (bodies p ! i))"
      using at snt by (auto simp: nat_diff_distrib)
  qed (use ph at in \<open>auto intro: order.trans [of 0]\<close>)
  show ?thesis
    using emit inv streamIDs_delivered [OF del]
    by (auto simp: writeTailReleaseFrames_def Let_def split: prod.splits bool.splits)
qed

lemma send_inv_greedy:
  assumes inv: "send_inv p ids s" and wf: "plan_wf p ids" and dist: "distinct ids" and ph: "phase s = Greedy"
    and peer: "list_all (peer_event ids) es"
  shows "send_inv p ids (sendFlowControlledBody accepts flushes lagging es p s)"
proof -
  let ?data = "phaseData p" and ?car = "carryingOf (phaseData p)"
  note data = phaseData_facts [OF wf]
  have del: "delivered p ids s" and pok: "phase_ok p ids s" using inv by (simp_all add: send_inv_def)
  have snt: "sent s ! i \<le> int (length (?data ! i))" "0 \<le> sent s ! i" if "i < length ids" for i
    using pok ph del that by (auto simp: phase_ok_def Let_def delivered_def)
  have car: "?car \<noteq> []" using pok ph data(1) by (auto simp: phase_ok_def Let_def carryingOf_def filter_empty_conv)
  have failed: "send_inv p ids (s\<lparr>phase := Failed\<rparr>)"
    using del pok ph by (auto simp: send_inv_def delivered_def phase_ok_def Let_def)
  have tail: "send_inv p ids (s\<lparr>phase := Tail\<rparr>)"
    if wh: "withheld p" and all: "list_all (\<lambda>i. sent s ! i \<ge> bodyLens ?data ! i) ?car"
  proof -
    have "sent s ! i = int (length (?data ! i))" if i: "i < length ids" for i
    proof (cases "?data ! i = []")
      case False
      then have "i \<in> set ?car" using i data(1) by (simp add: carryingOf_facts)
      then have "sent s ! i \<ge> bodyLens ?data ! i" using all by (simp add: list_all_iff)
      then show ?thesis using snt [OF i] i data(1) by (simp add: bodyLens_def)
    qed (use snt [OF i] in simp)
    then show ?thesis using del pok ph wh
      by (auto simp: send_inv_def delivered_def phase_ok_def Let_def)
  qed
  have rec: "send_inv p ids (greedyRecord accepts flushes lagging es ?data (\<not> withheld p) s)"
    by (rule send_inv_greedyRecord [OF inv wf dist ph peer])
  show ?thesis
  proof (cases "length ?car > maxBodyCarryingStreams")
    case True
    with failed car show ?thesis by (simp add: sendFlowControlledBody_def)
  next
    case few: False
    show ?thesis
    proof (cases "withheld p")
      case True
      with few car tail rec show ?thesis
        by (auto simp: sendFlowControlledBody_def sendGreedyBodyPhase_def Let_def afterPhase_def)
    next
      case False
      obtain fin ns where fin: "finalNeeds (bodyLens ?data) (sent s) ?car 0 (replicate (length ?data) 0) = (fin, ns)"
        by (cases "finalNeeds (bodyLens ?data) (sent s) ?car 0 (replicate (length ?data) 0)")
      obtain ok c where r: "tryReserve ns (cs s) = (ok, c)" by (cases "tryReserve ns (cs s)")
      show ?thesis
      proof (cases "fin \<le> tlsRecordPlaintextBudget \<and> ok")
        case True
        with r have "tryReserve ns (cs s) = (True, c)" by simp
        from send_inv_final [OF inv wf dist ph False fin _ this] True r fin few car False streamIDs_delivered [OF del]
        show ?thesis by (simp add: sendFlowControlledBody_def sendGreedyBodyPhase_def Let_def)
      next
        case no: False
        with r fin few car False rec show ?thesis
          by (auto simp: sendFlowControlledBody_def sendGreedyBodyPhase_def Let_def)
      qed
    qed
  qed
qed

subsection \<open>A whole send\<close>

definition send_admissible :: "int list \<Rightarrow> send_event \<Rightarrow> bool" where
  "send_admissible ids e \<longleftrightarrow> (case e of Peer e \<Rightarrow> peer_event ids e | Interrupt \<Rightarrow> True
     | Advance _ _ _ es \<Rightarrow> list_all (peer_event ids) es)"

lemma send_inv_step:
  assumes "plan_wf p ids" and "distinct ids" and "send_inv p ids s" and "send_admissible ids e"
  shows "send_inv p ids (sendStep p s e)"
proof (cases e)
  case (Peer e')
  then have "peer_event ids e'" using assms(4) by (simp add: send_admissible_def)
  then have "list_all (peer_event ids) [e']" by simp
  moreover have "credit_ok ids (cs s)" using assms(3) by (simp add: send_inv_def delivered_def)
  ultimately have "credit_ok ids (creditStep (cs s) e') \<and> streamSpent (creditStep (cs s) e') = streamSpent (cs s)"
    using peer_events_credit [of ids "[e']" "cs s"] by simp
  with Peer send_inv_credit [OF assms(3)] show ?thesis by simp
next
  case Interrupt
  with assms(3) show ?thesis by (auto simp: send_inv_def delivered_def phase_ok_def Let_def)
next
  case (Advance accepts flushes lagging es)
  then have es: "list_all (peer_event ids) es" using assms(4) by (simp add: send_admissible_def)
  show ?thesis
    using Advance send_inv_fitting [OF assms(3,1,2)] send_inv_greedy [OF assms(3,1,2) _ es]
      send_inv_tail [OF assms(3,1,2)] assms(3) by (cases "phase s") simp_all
qed

lemma send_inv_start:
  assumes "plan_wf p ids" and "distinct ids" and "conn_ok c"
  shows "send_inv p ids (startSend c ids p)"
proof -
  have "credit_ok ids (startBatch c ids)" by (rule credit_ok_start [OF assms(3,2)])
  moreover have "length (bodies p) = length ids" using assms(1) by (simp add: plan_wf_def)
  ultimately show ?thesis
    by (auto simp: send_inv_def delivered_def phase_ok_def startSend_def startBatch_def streamBytes_def noEnd_def Let_def)
qed

text \<open>The contract of one send: the steps its caller and its peer may take keep the invariant.\<close>

interpretation sendM: event_steps "sendStep p" "\<lambda>e. plan_wf p ids \<and> distinct ids \<and> send_admissible ids e" "send_inv p ids"
  for p ids
  by unfold_locales (blast intro: send_inv_step)

lemma send_run:
  assumes "plan_wf p ids" and "distinct ids" and "conn_ok c" and "list_all (send_admissible ids) es"
  shows "send_inv p ids (foldl (sendStep p) (startSend c ids p) es)"
  using assms by (intro sendM.inv_foldl send_inv_start) (auto simp: list_all_iff)

text \<open>The plans \<open>sendWithBody\<close> makes are well formed.\<close>

lemma tailNeeds_spec:
  assumes "tailNeeds i bs ps rec = Inr (ns, rec')" and "length bs = length ps"
  shows "length ns = length bs \<and> (\<forall>k<length bs. 0 \<le> ps ! k \<and> ps ! k \<le> int (length (bs ! k)) \<and>
      ns ! k = int (length (bs ! k)) - ps ! k) \<and> rec' = rec + sum_list (map recordCost ns)"
  using assms
proof (induction i bs ps rec arbitrary: ns rule: tailNeeds.induct)
  case (1 i b bs p ps rec)
  let ?need = "int (length b) - p"
  have p: "\<not> (p < 0 \<or> p > int (length b))" using "1.prems"(1) by (auto split: if_splits)
  show ?case
  proof (cases "?need = 0")
    case True
    with "1.prems"(1) p obtain ns' where "tailNeeds (Suc i) bs ps rec = Inr (ns', rec')" "ns = 0 # ns'"
      by (cases "tailNeeds (Suc i) bs ps rec") (auto simp: Let_def)
    with "1.IH"(1) [OF p refl True] "1.prems"(2) p True show ?thesis
      by (auto simp: recordCost_def nth_Cons split: nat.splits)
  next
    case False
    have small: "\<not> ?need > tlsRecordPlaintextBudget - http2FrameHeaderSize"
      using "1.prems"(1) p False by (auto simp: Let_def split: if_splits)
    with "1.prems"(1) p False obtain ns' where
      r: "tailNeeds (Suc i) bs ps (rec + (http2FrameHeaderSize + ?need)) = Inr (ns', rec')" "ns = int32 ?need # ns'"
      by (cases "tailNeeds (Suc i) bs ps (rec + (http2FrameHeaderSize + ?need))") (auto simp: Let_def)
    have "int32 ?need = ?need" using small p by (intro int32_id) (auto simp: in_int32_def flow_constants)
    with "1.IH"(2) [OF p refl False small r(1)] "1.prems"(2) r(2) p False show ?thesis
      by (auto simp: recordCost_def nth_Cons split: nat.splits)
  qed
qed auto

lemma sendWithBody_wf:
  assumes "sendWithBody bs w = Inr p" and "0 \<le> w" and "length bs = length ids"
    and "\<forall>b\<in>set bs. int (length b) < 2 ^ 63"
  shows "plan_wf p ids \<and> bodies p = bs \<and> (withheld p \<longleftrightarrow> w \<noteq> 0 \<and> hasBodyBytes bs)"
proof (cases "w = 0 \<or> \<not> hasBodyBytes bs")
  case True
  with assms show ?thesis by (auto simp: sendWithBody_def Let_def plan_wf_def split: if_splits)
next
  case False
  let ?ps = "map (\<lambda>b. if length b > 0 then max 0 (int (length b) - w) else 0) bs"
  from assms(1) False obtain ns where tail: "tailReleaseNeeds bs ?ps = Inr ns"
      and p: "p = \<lparr>bodies = bs, withheld = True, pivots = ?ps, needs = ns\<rparr>"
    by (auto simp: sendWithBody_def Let_def split: if_splits sum.splits)
  from tail obtain rec where t: "tailNeeds 0 bs ?ps 0 = Inr (ns, rec)" "rec \<le> tlsRecordPlaintextBudget"
    by (auto simp: tailReleaseNeeds_def split: sum.splits if_splits)
  have spec: "length ns = length bs \<and> (\<forall>k<length bs. 0 \<le> ?ps ! k \<and> ?ps ! k \<le> int (length (bs ! k)) \<and>
      ns ! k = int (length (bs ! k)) - ?ps ! k) \<and> rec = 0 + sum_list (map recordCost ns)"
    by (rule tailNeeds_spec [OF t(1)]) simp
  moreover have "0 < ns ! k" if "k < length bs" "bs ! k \<noteq> []" for k
    using spec that False assms(2) by auto
  ultimately show ?thesis using p False assms(3,4) t(2) by (auto simp: plan_wf_def)
qed

text \<open>C2. Bodies arrive intact: however credit updates, planner choices and failures interleave with a
  send, the DATA bytes flushed on each stream are at every moment a prefix of that request's body,
  in order; they are the whole body once the send is done; no flushed record exceeds one TLS record;
  and every byte was paid for with send credit.\<close>

theorem body_bytes_delivered:
  assumes "sendWithBody bs w = Inr p" and "0 \<le> w" and "length bs = length ids" and "distinct ids"
    and "\<forall>b\<in>set bs. int (length b) < 2 ^ 63" and "conn_ok c" and "list_all (send_admissible ids) es"
    and "s = foldl (sendStep p) (startSend c ids p) es" and "i < length ids"
  shows "\<exists>n \<le> length (bs ! i). streamBytes (ids ! i) (out s) = take n (bs ! i) \<and>
      int n \<le> streamSpent (cs s) ! i \<and> (phase s \<noteq> Failed \<longrightarrow> int n = streamSpent (cs s) ! i) \<and>
      (phase s = Done \<longrightarrow> n = length (bs ! i)) \<and>
      list_all (\<lambda>r. wireBytes r \<le> tlsRecordPlaintextBudget) (out s)"
proof -
  have wf: "plan_wf p ids" "bodies p = bs" using sendWithBody_wf [OF assms(1-3,5)] by simp_all
  have "send_inv p ids s" unfolding assms(8) by (rule send_run [OF wf(1) assms(4,6,7)])
  then show ?thesis using assms(9) wf(2)
    by (intro exI [of _ "nat (sent s ! i)"]) (auto simp: send_inv_def delivered_def phase_ok_def Let_def nat_le_iff)
qed

definition demo_bodies :: "bytes list" where
  "demo_bodies = [''abc'', [], ''de'']"

definition demo_send_events :: "send_event list" where
  "demo_send_events = [Advance (\<lambda>_. True) True (\<lambda>_. False) [], Peer (ConnUpdate 10),
     Advance (\<lambda>_. True) True (\<lambda>_. False) []]"

definition demo_send_plan :: send_plan where
  "demo_send_plan = \<lparr>bodies = demo_bodies, withheld = True, pivots = [2, 0, 1], needs = [1, 0, 1]\<rparr>"

lemma demo_sendWithBody: "sendWithBody demo_bodies 1 = Inr demo_send_plan"
  by (simp add: demo_bodies_def demo_send_plan_def sendWithBody_def maxBodyCarryingStreams_def
      hasBodyBytes_def tailReleaseNeeds_def flow_constants in_int32_def)

lemma demo_admissible: "list_all (send_admissible [1, 3, 5]) demo_send_events"
  by (simp add: demo_send_events_def send_admissible_def peer_event_def credit_admissible_def)

lemma demo_send_result:
  "out (foldl (sendStep demo_send_plan) (startSend freshConn [1, 3, 5] demo_send_plan) demo_send_events) =
     [[DataFrame 1 False ''ab'', DataFrame 5 False ''d''], [DataFrame 1 True ''c'', DataFrame 5 True ''e'']]"
  by code_simp

lemma demo_send_phase:
  "phase (foldl (sendStep demo_send_plan) (startSend freshConn [1, 3, 5] demo_send_plan) demo_send_events) = Done"
  by code_simp

theorem body_bytes_delivered_witness:
  "streamBytes 5 (out (foldl (sendStep demo_send_plan) (startSend freshConn [1, 3, 5] demo_send_plan) demo_send_events)) = ''de''"
proof -
  have "distinct [1 :: int, 3, 5]" "\<forall>b\<in>set demo_bodies. int (length b) < 2 ^ 63" "length demo_bodies = length [1 :: int, 3, 5]"
    by (simp_all add: demo_bodies_def)
  from body_bytes_delivered [OF demo_sendWithBody _ this(3,1,2) conn_ok_fresh demo_admissible refl, of 2] demo_send_phase
  show ?thesis by (auto simp: demo_bodies_def)
qed

text \<open>C1. Synchronised release: no flushed record ends any stream before the send is done, and when it is
  done, the last record alone ends every body-carrying stream, each with a non-empty DATA frame, in
  stream order; requests without body bytes get no DATA frame at all.\<close>

theorem bodies_released_together:
  assumes "sendWithBody bs w = Inr p" and "0 \<le> w" and "length bs = length ids" and "distinct ids"
    and "\<forall>b\<in>set bs. int (length b) < 2 ^ 63" and "conn_ok c" and "list_all (send_admissible ids) es"
    and "s = foldl (sendStep p) (startSend c ids p) es"
  shows "if phase s = Done \<and> hasBodyBytes bs
    then \<exists>early f. out s = early @ [map (\<lambda>i. DataFrame (ids ! i) True (f i)) (carryingOf bs)] \<and>
           list_all (list_all (\<lambda>fr. \<not> endsStream fr)) early \<and> (\<forall>i\<in>set (carryingOf bs). f i \<noteq> [])
    else list_all (list_all (\<lambda>fr. \<not> endsStream fr)) (out s)"
proof -
  have wf: "plan_wf p ids" "bodies p = bs" using sendWithBody_wf [OF assms(1-3,5)] by simp_all
  have "phase_ok p ids s"
    using send_run [OF wf(1) assms(4,6,7)] unfolding assms(8) by (simp add: send_inv_def)
  then show ?thesis
    using wf(2) by (auto simp: phase_ok_def Let_def released_def noEnd_def split: if_splits)
qed

theorem bodies_released_together_witness:
  "hasBodyBytes demo_bodies \<and>
   (\<exists>early f. [[DataFrame 1 False ''ab'', DataFrame 5 False ''d''], [DataFrame 1 True ''c'', DataFrame 5 True ''e'']] =
      early @ [map (\<lambda>i. DataFrame ([1, 3, 5] ! i) True (f i)) (carryingOf demo_bodies)])"
proof -
  have side: "distinct [1 :: int, 3, 5]" "\<forall>b\<in>set demo_bodies. int (length b) < 2 ^ 63" "length demo_bodies = length [1 :: int, 3, 5]"
    "hasBodyBytes demo_bodies" by (simp_all add: demo_bodies_def hasBodyBytes_def)
  have "if True then \<exists>early f. [[DataFrame 1 False ''ab'', DataFrame 5 False ''d''], [DataFrame 1 True ''c'', DataFrame 5 True ''e'']] =
        early @ [map (\<lambda>i. DataFrame ([1, 3, 5] ! i) True (f i)) (carryingOf demo_bodies)] \<and>
      list_all (list_all (\<lambda>fr. \<not> endsStream fr)) early \<and> (\<forall>i\<in>set (carryingOf demo_bodies). f i \<noteq> []) else False"
    using bodies_released_together [OF demo_sendWithBody _ side(3,1,2) conn_ok_fresh demo_admissible refl] demo_send_phase side(4)
    unfolding demo_send_result by (simp only: simp_thms if_True zero_le_one)
  then have "\<exists>early f. [[DataFrame 1 False ''ab'', DataFrame 5 False ''d''], [DataFrame 1 True ''c'', DataFrame 5 True ''e'']] =
        early @ [map (\<lambda>i. DataFrame ([1, 3, 5] ! i) True (f i)) (carryingOf demo_bodies)]"
    unfolding if_True by (elim exE conjE) (intro exI)
  with side(4) show ?thesis by (rule conjI)
qed

end
