(* ===== verification/GoStrings.thy ===== *)
theory GoStrings
  imports Prelude
begin

text \<open>
  The parts of Go's \<open>strings\<close> and \<open>strconv\<close> packages that the program uses, on byte strings: search,
  splitting, trimming, ASCII case, and decimal conversion with its two kinds of error. A Go string
  is a list of characters, one per byte.
\<close>

type_synonym str = string

definition code :: "char \<Rightarrow> nat" where
  "code c = of_char c"

definition chr :: "nat \<Rightarrow> char" where
  "chr n = char_of n"

lemma code_chr [simp]: "n < 256 \<Longrightarrow> code (chr n) = n"
  by (simp add: code_def chr_def)

lemma chr_code [simp]: "chr (code c) = c"
  by (simp add: code_def chr_def)

lemma code_less [simp]: "code c < 256"
  by (simp add: code_def)

lemma code_inject [simp]: "code c = code d \<longleftrightarrow> c = d"
  by (simp add: code_def)

subsection \<open>Searching and splitting\<close>

fun HasPrefix :: "str \<Rightarrow> str \<Rightarrow> bool" where
  "HasPrefix s [] \<longleftrightarrow> True"
| "HasPrefix [] (p # ps) \<longleftrightarrow> False"
| "HasPrefix (c # s) (p # ps) \<longleftrightarrow> c = p \<and> HasPrefix s ps"

definition HasSuffix :: "str \<Rightarrow> str \<Rightarrow> bool" where
  "HasSuffix s p \<longleftrightarrow> HasPrefix (rev s) (rev p)"

fun Index :: "str \<Rightarrow> str \<Rightarrow> nat option" where
  "Index [] sep = (if sep = [] then Some 0 else None)"
| "Index (c # s) sep = (if HasPrefix (c # s) sep then Some 0 else map_option Suc (Index s sep))"

definition Contains :: "str \<Rightarrow> str \<Rightarrow> bool" where
  "Contains s sep \<longleftrightarrow> Index s sep \<noteq> None"

text \<open>\<open>Cut\<close> returns the parts around the first occurrence, or the whole string and false.\<close>

definition Cut :: "str \<Rightarrow> str \<Rightarrow> str \<times> str \<times> bool" where
  "Cut s sep = (case Index s sep of
       Some i \<Rightarrow> (take i s, drop (i + length sep) s, True)
     | None \<Rightarrow> (s, [], False))"

definition CutPrefix :: "str \<Rightarrow> str \<Rightarrow> str \<times> bool" where
  "CutPrefix s p = (if HasPrefix s p then (drop (length p) s, True) else (s, False))"

definition TrimSuffix :: "str \<Rightarrow> str \<Rightarrow> str" where
  "TrimSuffix s p = (if HasSuffix s p then take (length s - length p) s else s)"

definition IndexByte :: "str \<Rightarrow> char \<Rightarrow> nat option" where
  "IndexByte s c = Index s [c]"

fun SplitChar :: "char \<Rightarrow> str \<Rightarrow> str list" where
  "SplitChar sep [] = [[]]"
| "SplitChar sep (c # s) =
     (if c = sep then [] # SplitChar sep s
      else case SplitChar sep s of [] \<Rightarrow> [[c]] | p # ps \<Rightarrow> (c # p) # ps)"

fun Join :: "str list \<Rightarrow> str \<Rightarrow> str" where
  "Join [] sep = []"
| "Join [s] sep = s"
| "Join (s # t # ts) sep = s @ sep @ Join (t # ts) sep"

lemma HasPrefix_iff: "HasPrefix s p \<longleftrightarrow> (\<exists>t. s = p @ t)"
  by (induction s p rule: HasPrefix.induct) auto

lemma HasPrefix_append [simp]: "HasPrefix (p @ t) p"
  by (simp add: HasPrefix_iff)

lemma HasPrefix_take: "HasPrefix s p \<longleftrightarrow> length p \<le> length s \<and> take (length p) s = p"
  unfolding HasPrefix_iff by (metis append_eq_conv_conj append_take_drop_id length_append le_add1)

lemma HasSuffix_iff: "HasSuffix s p \<longleftrightarrow> (\<exists>t. s = t @ p)"
  unfolding HasSuffix_def HasPrefix_iff by (metis rev_append rev_rev_ident)

lemma Index_Some:
  "Index s sep = Some i \<Longrightarrow> i \<le> length s \<and> HasPrefix (drop i s) sep \<and> (\<forall>j<i. \<not> HasPrefix (drop j s) sep)"
proof (induction s arbitrary: i)
  case Nil
  then show ?case by (auto split: if_splits)
next
  case (Cons c s)
  show ?case
  proof (cases "HasPrefix (c # s) sep")
    case True
    with Cons.prems show ?thesis by auto
  next
    case False
    with Cons.prems obtain k where k: "Index s sep = Some k" "i = Suc k" by auto
    from Cons.IH [OF k(1)] k(2) False show ?thesis by (auto simp: less_Suc_eq_0_disj)
  qed
qed

lemma Index_None: "Index s sep = None \<longleftrightarrow> (\<forall>j \<le> length s. \<not> HasPrefix (drop j s) sep)"
proof (induction s)
  case Nil
  then show ?case by (cases sep) auto
next
  case (Cons c s)
  have "(\<forall>j \<le> length (c # s). \<not> HasPrefix (drop j (c # s)) sep) \<longleftrightarrow>
      \<not> HasPrefix (c # s) sep \<and> (\<forall>j \<le> length s. \<not> HasPrefix (drop j s) sep)"
    by (simp only: less_Suc_eq_le [symmetric] length_Cons All_less_Suc2 drop0 drop_Suc_Cons)
  with Cons show ?case by auto
qed

lemma Index_split: "Index s sep = Some i \<Longrightarrow> s = take i s @ sep @ drop (i + length sep) s"
  using Index_Some [of s sep i] by (metis HasPrefix_iff append_eq_conv_conj append_take_drop_id drop_drop add.commute)

lemma Cut_found: "Cut s sep = (a, b, True) \<Longrightarrow> s = a @ sep @ b"
  using Index_split by (auto simp: Cut_def split: option.splits)

lemma Cut_not_found: "Cut s sep = (a, b, False) \<Longrightarrow> a = s \<and> b = [] \<and> Index s sep = None"
  by (auto simp: Cut_def split: option.splits)

lemma IndexByte_None: "IndexByte s c = None \<longleftrightarrow> c \<notin> set s"
  by (induction s) (auto simp: IndexByte_def)

lemma IndexByte_Some: "IndexByte s c = Some i \<Longrightarrow> i < length s \<and> s ! i = c \<and> c \<notin> set (take i s)"
  by (induction s arbitrary: i) (auto simp: IndexByte_def split: if_splits)

lemma IndexByte_append: "c \<notin> set a \<Longrightarrow> IndexByte (a @ c # b) c = Some (length a)"
  by (induction a) (auto simp: IndexByte_def)

lemma SplitChar_nonempty [simp]: "SplitChar sep s \<noteq> []"
  by (induction s) (auto split: list.splits)

lemma Join_Cons: "ps \<noteq> [] \<Longrightarrow> Join (p # ps) sep = p @ sep @ Join ps sep"
  by (cases ps) auto

lemma Join_SplitChar: "Join (SplitChar sep s) [sep] = s"
proof (induction s)
  case (Cons c s)
  show ?case
  proof (cases "SplitChar sep s")
    case (Cons p ps)
    then show ?thesis using Cons.IH by (cases ps) (auto simp: Join_Cons)
  qed simp
qed simp

lemma SplitChar_parts: "p \<in> set (SplitChar sep s) \<Longrightarrow> sep \<notin> set p"
proof (induction s arbitrary: p)
  case (Cons c s)
  then show ?case by (auto split: list.splits if_splits)
qed simp

lemma SplitChar_free: "sep \<notin> set p \<Longrightarrow> SplitChar sep p = [p]"
  by (induction p) auto

lemma SplitChar_append: "sep \<notin> set p \<Longrightarrow> SplitChar sep (p @ sep # s) = p # SplitChar sep s"
  by (induction p) auto

lemma SplitChar_Join:
  "ps \<noteq> [] \<Longrightarrow> \<forall>p\<in>set ps. sep \<notin> set p \<Longrightarrow> SplitChar sep (Join ps [sep]) = ps"
proof (induction ps)
  case (Cons p ps)
  then show ?case by (cases ps) (auto simp: SplitChar_free SplitChar_append)
qed simp

subsection \<open>Case and white space\<close>

definition lower :: "char \<Rightarrow> char" where
  "lower c = (if 65 \<le> code c \<and> code c \<le> 90 then chr (code c + 32) else c)"

definition upper :: "char \<Rightarrow> char" where
  "upper c = (if 97 \<le> code c \<and> code c \<le> 122 then chr (code c - 32) else c)"

text \<open>\<open>strings.EqualFold\<close> against an ASCII name without the letters k and s, the only ASCII letters that a
  non-ASCII rune folds to; every use in the program is of that kind unless stated where it is made.\<close>

definition EqualFold :: "str \<Rightarrow> str \<Rightarrow> bool" where
  "EqualFold s t \<longleftrightarrow> map lower s = map lower t"

text \<open>The UTF-8 encodings of the runes \<open>unicode.IsSpace\<close> accepts.\<close>

definition spaceRunes :: "str list" where
  "spaceRunes = map (map chr)
     ([[9], [10], [11], [12], [13], [32], [0xC2, 0x85], [0xC2, 0xA0], [0xE1, 0x9A, 0x80]] @
      map (\<lambda>b. [0xE2, 0x80, b]) [0x80, 0x81, 0x82, 0x83, 0x84, 0x85, 0x86, 0x87, 0x88, 0x89, 0x8A, 0xA8, 0xA9, 0xAF] @
      [[0xE2, 0x81, 0x9F], [0xE3, 0x80, 0x80]])"

function trimPrefixes :: "str list \<Rightarrow> str \<Rightarrow> str" where
  "trimPrefixes rs s =
     (case find (\<lambda>r. r \<noteq> [] \<and> HasPrefix s r) rs of
        None \<Rightarrow> s
      | Some r \<Rightarrow> trimPrefixes rs (drop (length r) s))"
  by pat_completeness auto
termination
proof (relation "measure (\<lambda>(_, s). length s)")
  fix rs s r assume "find (\<lambda>r. r \<noteq> [] \<and> HasPrefix s r) rs = Some r"
  then have "r \<noteq> []" "HasPrefix s r" by (auto simp: find_Some_iff)
  then show "((rs, drop (length r) s), rs, s) \<in> measure (\<lambda>(_, s). length s)"
    by (cases r) (auto simp: HasPrefix_take)
qed simp

declare trimPrefixes.simps [simp del]

definition TrimSpace :: "str \<Rightarrow> str" where
  "TrimSpace s = rev (trimPrefixes (map rev spaceRunes) (rev (trimPrefixes spaceRunes s)))"

subsection \<open>Decimal numbers\<close>

definition isDigit :: "char \<Rightarrow> bool" where
  "isDigit c \<longleftrightarrow> 48 \<le> code c \<and> code c \<le> 57"

definition digitVal :: "char \<Rightarrow> int" where
  "digitVal c = int (code c) - 48"

datatype num_error = ErrSyntax | ErrRange

definition maxUint64 :: int where "maxUint64 = 2 ^ 64 - 1"

fun parseDigits :: "str \<Rightarrow> int \<Rightarrow> int \<times> num_error option" where
  "parseDigits [] n = (n, None)"
| "parseDigits (c # s) n =
     (if \<not> isDigit c then (0, Some ErrSyntax)
      else if n \<ge> maxUint64 div 10 + 1 then (maxUint64, Some ErrRange)
      else let n1 = n * 10 + digitVal c in
        if n1 > maxUint64 then (maxUint64, Some ErrRange) else parseDigits s n1)"

definition ParseUint :: "str \<Rightarrow> int \<times> num_error option" where
  "ParseUint s = (if s = [] then (0, Some ErrSyntax) else parseDigits s 0)"

text \<open>\<open>strconv.ParseInt(s, 10, 64)\<close>, which is also \<open>strconv.Atoi\<close> on a 64-bit platform: a value and an
  error; out of range, the value is the nearest representable one.\<close>

definition ParseInt :: "str \<Rightarrow> int \<times> num_error option" where
  "ParseInt s =
     (if s = [] then (0, Some ErrSyntax)
      else let neg = (hd s = CHR ''-'');
               rest = (if hd s = CHR ''+'' \<or> hd s = CHR ''-'' then tl s else s) in
        case ParseUint rest of (un, e) \<Rightarrow>
          if e = Some ErrSyntax then (0, e)
          else if \<not> neg \<and> un \<ge> 2 ^ 63 then (2 ^ 63 - 1, Some ErrRange)
          else if neg \<and> un > 2 ^ 63 then (- (2 ^ 63), Some ErrRange)
          else (if neg then - un else un, None))"

fun natDigits :: "nat \<Rightarrow> str" where
  "natDigits n = (if n < 10 then [chr (48 + n)] else natDigits (n div 10) @ [chr (48 + n mod 10)])"

declare natDigits.simps [simp del]

definition Itoa :: "int \<Rightarrow> str" where
  "Itoa z = (if z < 0 then CHR ''-'' # natDigits (nat (- z)) else natDigits (nat z))"

lemma isDigit_chr: "d < 10 \<Longrightarrow> isDigit (chr (48 + d)) \<and> digitVal (chr (48 + d)) = int d"
  by (simp add: isDigit_def digitVal_def)

lemma parseDigits_natDigits:
  "int n \<le> maxUint64 \<Longrightarrow> parseDigits (natDigits n @ s) 0 = parseDigits s (int n)"
proof (induction n arbitrary: s rule: natDigits.induct)
  case (1 n)
  show ?case
  proof (cases "n < 10")
    case True
    with "1.prems" isDigit_chr [OF True] show ?thesis
      by (subst natDigits.simps) (simp add: maxUint64_def Let_def)
  next
    case False
    have le: "int (n div 10) \<le> maxUint64 div 10"
      using zdiv_mono1 [OF "1.prems", of 10] by (simp add: zdiv_int)
    then have "int (n div 10) \<le> maxUint64" by (simp add: maxUint64_def)
    note IH = "1.IH" [OF False this, of "chr (48 + n mod 10) # s"]
    have d: "isDigit (chr (48 + n mod 10))" "digitVal (chr (48 + n mod 10)) = int (n mod 10)"
      using isDigit_chr [of "n mod 10"] by simp_all
    have n: "int (n div 10) * 10 + int (n mod 10) = int n" by presburger
    have "parseDigits (natDigits n @ s) 0 = parseDigits (chr (48 + n mod 10) # s) (int (n div 10))"
      using IH False by (subst natDigits.simps) simp
    also have "\<dots> = parseDigits s (int n)"
      using d le "1.prems" unfolding parseDigits.simps d(2) n Let_def by simp
    finally show ?thesis .
  qed
qed

lemma natDigits_nonempty: "natDigits n \<noteq> []"
  by (subst natDigits.simps) simp

lemma ParseUint_natDigits: "int n \<le> maxUint64 \<Longrightarrow> ParseUint (natDigits n) = (int n, None)"
  using parseDigits_natDigits [of n "[]"] natDigits_nonempty by (simp add: ParseUint_def)

lemma natDigits_isDigit: "c \<in> set (natDigits n) \<Longrightarrow> isDigit c"
proof (induction n rule: natDigits.induct)
  case (1 n)
  then show ?case using isDigit_chr [of n] isDigit_chr [of "n mod 10"]
    by (subst (asm) natDigits.simps) (auto split: if_splits)
qed

lemma isDigit_sign: "isDigit c \<Longrightarrow> c \<noteq> CHR ''-'' \<and> c \<noteq> CHR ''+''"
  by (auto simp: isDigit_def code_def)

lemma ParseInt_Itoa:
  assumes "- (2 ^ 63) \<le> z" and "z < 2 ^ 63"
  shows "ParseInt (Itoa z) = (z, None)"
proof (cases "z < 0")
  case True
  then have "ParseUint (natDigits (nat (- z))) = (- z, None)"
    using assms by (subst ParseUint_natDigits) (auto simp: maxUint64_def)
  with True assms show ?thesis by (simp add: ParseInt_def Itoa_def)
next
  case False
  then have p: "ParseUint (natDigits (nat z)) = (z, None)"
    using assms by (subst ParseUint_natDigits) (auto simp: maxUint64_def)
  have "hd (natDigits (nat z)) \<in> set (natDigits (nat z))" by (simp add: natDigits_nonempty)
  then have "hd (natDigits (nat z)) \<noteq> CHR ''-'' \<and> hd (natDigits (nat z)) \<noteq> CHR ''+''"
    using natDigits_isDigit isDigit_sign by blast
  with p False assms show ?thesis by (simp add: ParseInt_def Itoa_def natDigits_nonempty Let_def)
qed

lemma natDigits_inject: "int m \<le> maxUint64 \<Longrightarrow> int n \<le> maxUint64 \<Longrightarrow> natDigits m = natDigits n \<Longrightarrow> m = n"
  by (metis ParseUint_natDigits fst_conv of_nat_eq_iff)

text \<open>What the parser computes, as one value: the digits in front, and the representable integer nearest to them.\<close>

definition digitsValue :: "int \<Rightarrow> str \<Rightarrow> int" where
  "digitsValue n ds = foldl (\<lambda>n c. n * 10 + digitVal c) n ds"

lemma digitsValue_simps [simp]: "digitsValue n [] = n" "digitsValue n (c # s) = digitsValue (n * 10 + digitVal c) s"
  by (simp_all add: digitsValue_def)

lemma digitsValue_ge: "0 \<le> n \<Longrightarrow> list_all isDigit ds \<Longrightarrow> n \<le> digitsValue n ds"
proof (induction ds arbitrary: n)
  case (Cons c ds)
  then have "n \<le> n * 10 + digitVal c" by (simp add: digitVal_def isDigit_def)
  also have "\<dots> \<le> digitsValue (n * 10 + digitVal c) ds" using Cons by (intro Cons.IH) (auto simp: digitVal_def isDigit_def)
  finally show ?case by simp
qed simp

lemma list_all_takeWhile: "list_all P (takeWhile P s)"
  by (induction s) auto

lemma parseDigits_value:
  assumes "0 \<le> n" and "n \<le> maxUint64"
  shows "parseDigits s n = (let ds = takeWhile isDigit s; v = digitsValue n ds in
    if v > maxUint64 then (maxUint64, Some ErrRange) else if ds = s then (v, None) else (0, Some ErrSyntax))"
  using assms
proof (induction s arbitrary: n)
  case (Cons c s)
  show ?case
  proof (cases "isDigit c")
    case True
    let ?n = "n * 10 + digitVal c"
    have n: "0 \<le> ?n" using True Cons.prems by (simp add: isDigit_def digitVal_def)
    show ?thesis
    proof (cases "?n > maxUint64")
      case big: True
      have "?n \<le> digitsValue ?n (takeWhile isDigit s)" by (rule digitsValue_ge [OF n list_all_takeWhile])
      with True big show ?thesis by (simp add: Let_def)
    next
      case False
      then have "\<not> n \<ge> maxUint64 div 10 + 1" using True by (simp add: maxUint64_def isDigit_def digitVal_def)
      with True False Cons.IH [OF n] show ?thesis by (simp add: Let_def)
    qed
  qed (use Cons.prems in simp)
qed (simp add: Let_def)

definition nearestInt64 :: "int \<Rightarrow> int" where
  "nearestInt64 z = max (- (2 ^ 63)) (min (2 ^ 63 - 1) z)"

definition bodyCode :: "bool \<Rightarrow> str \<Rightarrow> int" where
  "bodyCode neg body =
     (let ds = takeWhile isDigit body; v = digitsValue 0 ds in
      if v \<le> maxUint64 \<and> (body = [] \<or> ds \<noteq> body) then 0 else nearestInt64 (if neg then - v else v))"

definition decimalCode :: "str \<Rightarrow> int" where
  "decimalCode s =
     (case s of [] \<Rightarrow> 0
      | c # t \<Rightarrow> if c = CHR ''-'' then bodyCode True t else if c = CHR ''+'' then bodyCode False t else bodyCode False s)"

lemma ParseUint_code:
  "fst (case ParseUint body of (un, e) \<Rightarrow>
      if e = Some ErrSyntax then (0, e)
      else if \<not> neg \<and> un \<ge> 2 ^ 63 then (2 ^ 63 - 1, Some ErrRange)
      else if neg \<and> un > 2 ^ 63 then (- (2 ^ 63), Some ErrRange)
      else (if neg then - un else un, None)) = bodyCode neg body"
proof -
  have "0 \<le> digitsValue 0 (takeWhile isDigit body)" by (rule digitsValue_ge [OF order_refl list_all_takeWhile])
  moreover have "(0 :: int) \<le> maxUint64" by (simp add: maxUint64_def)
  ultimately show ?thesis
    using parseDigits_value [of 0 body]
    by (cases neg) (auto simp: ParseUint_def bodyCode_def Let_def nearestInt64_def maxUint64_def)
qed

lemma ParseInt_code: "fst (ParseInt s) = decimalCode s"
proof (cases s)
  case (Cons c t)
  consider "c = CHR ''-''" | "c = CHR ''+''" | "c \<noteq> CHR ''-''" "c \<noteq> CHR ''+''" by blast
  then show ?thesis
  proof cases
    case 1
    then show ?thesis using ParseUint_code [of True t] by (simp add: ParseInt_def decimalCode_def Cons Let_def)
  next
    case 2
    then show ?thesis using ParseUint_code [of False t] by (simp add: ParseInt_def decimalCode_def Cons Let_def)
  next
    case 3
    then show ?thesis using ParseUint_code [of False s] by (simp add: ParseInt_def decimalCode_def Cons Let_def)
  qed
qed (simp add: ParseInt_def decimalCode_def)

end
