(* ===== verification/ResponseCollect.thy ===== *)
theory ResponseCollect
  imports BatchResult GoStrings
begin

text \<open>
  Reading responses (\<open>tth2/conn.go\<close>): the projection of a decoded header block, the bounded body
  accumulator, the per-stream collector and the loop that gathers a batch's results. A digest is the
  byte sequence written to it. A collector consumes the events its channel and context deliver, in
  the order its \<open>select\<close> takes them; \<open>Waiting\<close> means it has returned nothing yet.
\<close>

type_synonym field = "str \<times> str"

definition UnlimitedResponseBytes :: int where "UnlimitedResponseBytes = -1"

text \<open>\<open>http.StatusText\<close>.\<close>

definition statusTable :: "(int \<times> str) list" where
  "statusTable = [
     (100, ''Continue''), (101, ''Switching Protocols''), (102, ''Processing''), (103, ''Early Hints''),
     (200, ''OK''), (201, ''Created''), (202, ''Accepted''), (203, ''Non-Authoritative Information''),
     (204, ''No Content''), (205, ''Reset Content''), (206, ''Partial Content''), (207, ''Multi-Status''),
     (208, ''Already Reported''), (226, ''IM Used''),
     (300, ''Multiple Choices''), (301, ''Moved Permanently''), (302, ''Found''), (303, ''See Other''),
     (304, ''Not Modified''), (305, ''Use Proxy''), (307, ''Temporary Redirect''), (308, ''Permanent Redirect''),
     (400, ''Bad Request''), (401, ''Unauthorized''), (402, ''Payment Required''), (403, ''Forbidden''),
     (404, ''Not Found''), (405, ''Method Not Allowed''), (406, ''Not Acceptable''),
     (407, ''Proxy Authentication Required''), (408, ''Request Timeout''), (409, ''Conflict''), (410, ''Gone''),
     (411, ''Length Required''), (412, ''Precondition Failed''), (413, ''Request Entity Too Large''),
     (414, ''Request URI Too Long''), (415, ''Unsupported Media Type''),
     (416, ''Requested Range Not Satisfiable''), (417, ''Expectation Failed''), (418, CHR ''I'' # chr 39 # ''m a teapot''),
     (421, ''Misdirected Request''), (422, ''Unprocessable Entity''), (423, ''Locked''), (424, ''Failed Dependency''),
     (425, ''Too Early''), (426, ''Upgrade Required''), (428, ''Precondition Required''), (429, ''Too Many Requests''),
     (431, ''Request Header Fields Too Large''), (451, ''Unavailable For Legal Reasons''),
     (500, ''Internal Server Error''), (501, ''Not Implemented''), (502, ''Bad Gateway''),
     (503, ''Service Unavailable''), (504, ''Gateway Timeout''), (505, ''HTTP Version Not Supported''),
     (506, ''Variant Also Negotiates''), (507, ''Insufficient Storage''), (508, ''Loop Detected''),
     (510, ''Not Extended''), (511, ''Network Authentication Required'')]"

definition StatusText :: "int \<Rightarrow> str" where
  "StatusText c = (case map_of statusTable c of None \<Rightarrow> [] | Some t \<Rightarrow> t)"

fun headerStatus :: "field list \<Rightarrow> (str \<times> int) option" where
  "headerStatus [] = None"
| "headerStatus ((name, val) # fs) =
     (if name = '':status'' then Some (val, fst (ParseInt val)) else headerStatus fs)"

text \<open>The two nested loops of \<open>declaredContentLength\<close>; \<open>None\<close> is an early return of \<open>-1\<close>.\<close>

fun lengthParts :: "int \<Rightarrow> str list \<Rightarrow> int option" where
  "lengthParts len [] = Some len"
| "lengthParts len (part # ps) =
     (case ParseInt (TrimSpace part) of (n, e) \<Rightarrow>
        if e \<noteq> None \<or> n < 0 then None
        else if len \<ge> 0 \<and> n \<noteq> len then None
        else lengthParts n ps)"

fun lengthFields :: "int \<Rightarrow> field list \<Rightarrow> int option" where
  "lengthFields len [] = Some len"
| "lengthFields len ((name, val) # fs) =
     (if \<not> EqualFold name ''content-length'' then lengthFields len fs
      else case lengthParts len (SplitChar (CHR '','') val) of
             None \<Rightarrow> None
           | Some len' \<Rightarrow> lengthFields len' fs)"

definition declaredContentLength :: "field list \<Rightarrow> int" where
  "declaredContentLength fs = (case lengthFields (-1) fs of None \<Rightarrow> -1 | Some n \<Rightarrow> n)"

text \<open>\<open>textproto.CanonicalMIMEHeaderKey\<close> and \<open>Header.Add\<close>.\<close>

definition validHeaderFieldByte :: "char \<Rightarrow> bool" where
  "validHeaderFieldByte c \<longleftrightarrow> isDigit c \<or> (65 \<le> code c \<and> code c \<le> 90) \<or> (97 \<le> code c \<and> code c \<le> 122) \<or>
     c \<in> set (chr 39 # ''!#$%&*+-.^_|~'' @ [chr 96])"

fun canonicalise :: "bool \<Rightarrow> str \<Rightarrow> str" where
  "canonicalise up [] = []"
| "canonicalise up (c # s) = (if up then upper c else lower c) # canonicalise (c = CHR ''-'') s"

definition CanonicalMIMEHeaderKey :: "str \<Rightarrow> str" where
  "CanonicalMIMEHeaderKey s = (if list_all validHeaderFieldByte s then canonicalise True s else s)"

fun addValue :: "str \<Rightarrow> str \<Rightarrow> (str \<times> str list) list \<Rightarrow> (str \<times> str list) list" where
  "addValue k v [] = [(k, [v])]"
| "addValue k v ((k', vs) # h) = (if k' = k then (k', vs @ [v]) # h else (k', vs) # addValue k v h)"

definition capturedHeader :: "field list \<Rightarrow> (str \<times> str list) list" where
  "capturedHeader fs = foldl (\<lambda>h (name, val).
     if HasPrefix name '':'' then h else addValue (CanonicalMIMEHeaderKey name) val h) [] fs"

datatype responseHeaderKind = responseHeaderInformational | responseHeaderFinal | responseHeaderTrailer

definition emptyBody :: ResponseBody where
  "emptyBody = \<lparr>Captured = [], BytesReceived = 0, SHA256 = []\<rparr>"

definition projectResponseHeaderBlock ::
    "field list \<Rightarrow> bool \<Rightarrow> responseHeaderKind \<times> Response option \<times> (str \<times> str list) list option" where
  "projectResponseHeaderBlock fs captureHeaders =
     (case headerStatus fs of
        None \<Rightarrow> (responseHeaderTrailer, None,
                  if \<not> captureHeaders \<or> fs = [] then None else Some (capturedHeader fs))
      | Some (status, c) \<Rightarrow>
          if c \<ge> 100 \<and> c < 200 then (responseHeaderInformational, None, None)
          else (responseHeaderFinal,
            Some \<lparr>Status = status @ '' '' @ StatusText c, StatusCode = c,
                  Header = (if captureHeaders then Some (capturedHeader fs) else None),
                  Trailer = None, ContentLength = declaredContentLength fs, Body = emptyBody\<rparr>,
            None))"

subsection \<open>Bodies\<close>

record responseBodyState =
  digest :: bytes
  captured :: bytes
  bytesAccepted :: int

datatype accept_result = CountExceedsInt64 | CaptureExceedsMemory | Accepted bool responseBodyState

definition accept :: "responseBodyState \<Rightarrow> bytes \<Rightarrow> int \<Rightarrow> int \<Rightarrow> accept_result" where
  "accept s data maxResponseBytes captureBytes =
     (let remaining = maxResponseBytes - bytesAccepted s;
          overflow = (maxResponseBytes > 0 \<and> int (length data) > remaining);
          accepted = (if overflow then take (nat remaining) data else data) in
      if bytesAccepted s > maxInt64 - int (length accepted) then CountExceedsInt64
      else
        let s' = s\<lparr>digest := digest s @ accepted, bytesAccepted := bytesAccepted s + int (length accepted)\<rparr>;
            room = (if captureBytes = UnlimitedResponseBytes then int (length accepted)
                    else captureBytes - int (length (captured s))) in
        if room \<le> 0 then Accepted overflow s'
        else let n = min (int (length accepted)) room in
          if int (length (captured s)) > maxInt64 - n then CaptureExceedsMemory
          else Accepted overflow (s'\<lparr>captured := captured s @ take (nat n) accepted\<rparr>))"

definition newBody :: responseBodyState where
  "newBody = \<lparr>digest = [], captured = [], bytesAccepted = 0\<rparr>"

record sendConfig =
  maxResponseBodyBytes :: int
  responseBodyCaptureBytes :: int
  responseHeaderCapture :: bool

record frameEvent =
  headerKind :: "responseHeaderKind option"
  evResponse :: "Response option"
  evTrailer :: "(str \<times> str list) list option"
  evArrivalSeq :: int
  evData :: bytes
  evEndStream :: bool

text \<open>The errors a collector can return. They are also the causes its batch context can be cancelled with: by the
  caller, by the batch timeout, by a failure elsewhere in the batch, or by the error of any collector.\<close>

datatype collect_error =
    EndedBeforeHeaders int
  | BodyLimit nat int int int
  | BodyError
  | ClosedWithoutReset
  | CallerCancelled
  | BatchTimeout
  | OtherFailure

text \<open>\<open>Cancelled e\<close> is somebody else's cancellation of the shared context; \<open>ContextDone\<close> is the collector's \<open>select\<close>
  taking the branch of the context, which it cannot before the context is cancelled and need not afterwards.\<close>

datatype collect_event =
    Frame frameEvent
  | Closed "StreamError option"
  | Cancelled collect_error
  | ContextDone

datatype outcome =
    Waiting
  | Collected Result "StreamError option"
  | CollectFailed collect_error

record collector =
  colSeq :: int
  colResponse :: "Response option"
  colTrailer :: "(str \<times> str list) list option"
  colBody :: responseBodyState
  colCause :: "collect_error option"

definition newCollector :: collector where
  "newCollector = \<lparr>colSeq = -1, colResponse = None, colTrailer = None, colBody = newBody, colCause = None\<rparr>"

text \<open>\<open>context.Cause\<close> after a cancellation with \<open>e\<close>: the first cause wins.\<close>

fun firstCause :: "collect_error option \<Rightarrow> collect_error \<Rightarrow> collect_error" where
  "firstCause None e = e"
| "firstCause (Some e') e = e'"

definition collectedResult :: "int \<Rightarrow> collector \<Rightarrow> Response \<Rightarrow> Result" where
  "collectedResult sid c r =
     \<lparr>response = Some (r\<lparr>Trailer := colTrailer c,
        Body := \<lparr>Captured = captured (colBody c), BytesReceived = bytesAccepted (colBody c),
                 SHA256 = digest (colBody c)\<rparr>\<rparr>),
      ArrivalRank = 0, Reset = None, arrivalSeq = colSeq c, streamID = sid\<rparr>"

definition completeStream :: "int \<Rightarrow> collector \<Rightarrow> outcome" where
  "completeStream sid c = (case colResponse c of
       None \<Rightarrow> CollectFailed (EndedBeforeHeaders sid)
     | Some r \<Rightarrow> Collected (collectedResult sid c r) None)"

definition resetStreamResult :: "int \<Rightarrow> collector \<Rightarrow> StreamError \<Rightarrow> outcome" where
  "resetStreamResult sid c rst = Collected (case colResponse c of
       None \<Rightarrow> \<lparr>response = None, ArrivalRank = 0, Reset = Some rst, arrivalSeq = 0, streamID = sid\<rparr>
     | Some r \<Rightarrow> (collectedResult sid c r)\<lparr>Reset := Some rst\<rparr>) (Some rst)"

definition takeHeaders :: "frameEvent \<Rightarrow> collector \<Rightarrow> collector" where
  "takeHeaders ev c = (case headerKind ev of
       Some responseHeaderFinal \<Rightarrow> c\<lparr>colSeq := evArrivalSeq ev, colResponse := evResponse ev\<rparr>
     | Some responseHeaderTrailer \<Rightarrow> c\<lparr>colTrailer := evTrailer ev\<rparr>
     | _ \<Rightarrow> c)"

fun collectStream :: "nat \<Rightarrow> int \<Rightarrow> sendConfig \<Rightarrow> collector \<Rightarrow> collect_event list \<Rightarrow> outcome" where
  "collectStream idx sid cfg c [] = Waiting"
| "collectStream idx sid cfg c (Closed rst # es) =
     (case rst of
        Some e \<Rightarrow> resetStreamResult sid c e
      | None \<Rightarrow> CollectFailed (firstCause (colCause c) ClosedWithoutReset))"
| "collectStream idx sid cfg c (Cancelled e # es) =
     collectStream idx sid cfg (c\<lparr>colCause := Some (firstCause (colCause c) e)\<rparr>) es"
| "collectStream idx sid cfg c (ContextDone # es) =
     (case colCause c of Some e \<Rightarrow> CollectFailed e | None \<Rightarrow> collectStream idx sid cfg c es)"
| "collectStream idx sid cfg c (Frame ev # es) =
     (let c = takeHeaders ev c;
          c' = (if evData ev = [] then Inr c
                else case accept (colBody c) (evData ev) (maxResponseBodyBytes cfg) (responseBodyCaptureBytes cfg) of
                       Accepted overflow b \<Rightarrow>
                         if overflow
                         then Inl (firstCause (colCause c) (BodyLimit idx sid (maxResponseBodyBytes cfg) (bytesAccepted b)))
                         else Inr (c\<lparr>colBody := b\<rparr>)
                     | _ \<Rightarrow> Inl BodyError) in
      case c' of
        Inl e \<Rightarrow> CollectFailed e
      | Inr c \<Rightarrow> if evEndStream ev then completeStream sid c else collectStream idx sid cfg c es)"

subsection \<open>Gathering a batch\<close>

record gather =
  results :: "Result list"
  streamErr :: "StreamError option"
  fatalErr :: "collect_error option"
  ctxCause :: "collect_error option"

definition zeroRes :: Result where
  "zeroRes = \<lparr>response = None, ArrivalRank = 0, Reset = None, arrivalSeq = 0, streamID = 0\<rparr>"

text \<open>What the loop sees, in order: an \<open>indexedResult\<close> received, the result with the collector's error, if any, and
  cancellations of the shared context by others (a collector that overflows, the caller, the connection).\<close>

datatype gather_event =
    Got nat outcome
  | ContextCancelled collect_error

fun gatherOne :: "gather \<Rightarrow> gather_event \<Rightarrow> gather" where
  "gatherOne g (Got i (Collected r None)) = g\<lparr>results := (results g)[i := r]\<rparr>"
| "gatherOne g (Got i (Collected r (Some e))) =
     g\<lparr>streamErr := (if streamErr g = None then Some e else streamErr g), results := (results g)[i := r]\<rparr>"
| "gatherOne g (Got i (CollectFailed e)) =
     (if fatalErr g = None
      then let cause = firstCause (ctxCause g) e in
        g\<lparr>ctxCause := Some cause, fatalErr := Some cause, results := (results g)[i := zeroRes]\<rparr>
      else g\<lparr>results := (results g)[i := zeroRes]\<rparr>)"
| "gatherOne g (Got i Waiting) = g"
| "gatherOne g (ContextCancelled e) = g\<lparr>ctxCause := Some (firstCause (ctxCause g) e)\<rparr>"

definition newGather :: "nat \<Rightarrow> gather" where
  "newGather n = \<lparr>results = replicate n zeroRes, streamErr = None, fatalErr = None, ctxCause = None\<rparr>"

definition readResponses :: "nat \<Rightarrow> gather_event list \<Rightarrow> collect_error + (Result list \<times> StreamError option)" where
  "readResponses n events =
     (let g = foldl gatherOne (newGather n) events
      in case fatalErr g of Some e \<Rightarrow> Inl e | None \<Rightarrow> Inr (results g, streamErr g))"

text \<open>The read pump's dispatch: header blocks are numbered in the order they are read, over all streams
  of the batch; \<open>i\<close> is the request whose stream the frame belongs to.\<close>

datatype wireFrame =
    WHeaders nat "field list" bool
  | WData nat bytes bool
  | WReset nat StreamError

fun dispatchFrames :: "bool \<Rightarrow> int \<Rightarrow> wireFrame list \<Rightarrow> (nat \<times> collect_event) list" where
  "dispatchFrames capture arrivals [] = []"
| "dispatchFrames capture arrivals (WHeaders i fs end # ws) =
     (case projectResponseHeaderBlock fs capture of (kind, resp, trailer) \<Rightarrow>
        (i, Frame \<lparr>headerKind = Some kind, evResponse = resp, evTrailer = trailer,
                   evArrivalSeq = arrivals, evData = [], evEndStream = end\<rparr>)
        # dispatchFrames capture (arrivals + 1) ws)"
| "dispatchFrames capture arrivals (WData i d end # ws) =
     (i, Frame \<lparr>headerKind = None, evResponse = None, evTrailer = None,
                evArrivalSeq = 0, evData = d, evEndStream = end\<rparr>)
     # dispatchFrames capture arrivals ws"
| "dispatchFrames capture arrivals (WReset i e # ws) = (i, Closed (Some e)) # dispatchFrames capture arrivals ws"

definition eventsOf :: "nat \<Rightarrow> (nat \<times> collect_event) list \<Rightarrow> collect_event list" where
  "eventsOf i es = map snd (filter (\<lambda>e. fst e = i) es)"

subsection \<open>The accumulator\<close>

definition cappedTo :: "int \<Rightarrow> bytes \<Rightarrow> bytes" where
  "cappedTo cap d = (if cap = UnlimitedResponseBytes then d else take (nat cap) d)"

definition body_ok :: "int \<Rightarrow> int \<Rightarrow> responseBodyState \<Rightarrow> bool" where
  "body_ok limit cap b \<longleftrightarrow> bytesAccepted b = int (length (digest b)) \<and> captured b = cappedTo cap (digest b) \<and>
     (0 < limit \<longrightarrow> int (length (digest b)) \<le> limit)"

lemma body_ok_new: "body_ok limit cap newBody"
  by (simp add: body_ok_def newBody_def cappedTo_def)

lemma capture_extend:
  assumes "-1 \<le> cap" and "captured b = cappedTo cap (digest b)"
    and "room = (if cap = UnlimitedResponseBytes then int (length d) else cap - int (length (captured b)))"
  shows "captured b @ take (nat (min (int (length d)) room)) d = cappedTo cap (digest b @ d)"
proof (cases "cap = UnlimitedResponseBytes")
  case True
  with assms show ?thesis by (simp add: cappedTo_def)
next
  case False
  with assms have "0 \<le> cap" "room = cap - int (min (length (digest b)) (nat cap))"
    by (auto simp: cappedTo_def UnlimitedResponseBytes_def)
  then have "nat (min (int (length d)) room) = min (length d) (nat cap - length (digest b))"
    by linarith
  with False assms(2) show ?thesis by (simp add: cappedTo_def min_def)
qed

lemma accept_spec:
  assumes "body_ok limit cap b" and "-1 \<le> cap" and "int (length (digest b @ d)) \<le> maxInt64"
  shows "\<exists>b'. accept b d limit cap = Accepted (0 < limit \<and> int (length (digest b @ d)) > limit) b' \<and>
     digest b' = (if 0 < limit then take (nat limit) (digest b @ d) else digest b @ d) \<and> body_ok limit cap b'"
proof -
  define ov where "ov = (limit > 0 \<and> int (length d) > limit - bytesAccepted b)"
  define acc where "acc = (if ov then take (nat (limit - bytesAccepted b)) d else d)"
  define room where "room = (if cap = UnlimitedResponseBytes then int (length acc) else cap - int (length (captured b)))"
  have b: "bytesAccepted b = int (length (digest b))" "captured b = cappedTo cap (digest b)"
    "0 < limit \<Longrightarrow> int (length (digest b)) \<le> limit" using assms(1) by (auto simp: body_ok_def)
  have len: "int (length acc) \<le> int (length d)" by (simp add: acc_def)
  have fits: "\<not> bytesAccepted b > maxInt64 - int (length acc)" using assms(3) b(1) len by simp
  have ov: "ov \<longleftrightarrow> 0 < limit \<and> int (length (digest b @ d)) > limit" by (auto simp: ov_def b(1))
  have dig: "digest b @ acc = (if 0 < limit then take (nat limit) (digest b @ d) else digest b @ d)"
    using b by (auto simp: acc_def ov_def nat_diff_distrib)
  have cap: "length (captured b) \<le> length (digest b)" using b(2) by (simp add: cappedTo_def)
  let ?s = "b\<lparr>digest := digest b @ acc, bytesAccepted := bytesAccepted b + int (length acc)\<rparr>"
  have final: "body_ok limit cap (?s\<lparr>captured := cappedTo cap (digest b @ acc)\<rparr>)"
    using dig b(1,3) by (auto simp: body_ok_def)
  have mem: "\<not> int (length (captured b)) > maxInt64 - min (int (length acc)) room"
    using cap assms(3) len by simp
  note ext = capture_extend [OF assms(2) b(2) room_def]
  have "accept b d limit cap = Accepted ov (if room \<le> 0 then ?s else ?s\<lparr>captured := captured b @ take (nat (min (int (length acc)) room)) acc\<rparr>)"
    unfolding accept_def Let_def ov_def [symmetric] acc_def [symmetric] room_def [symmetric]
    using fits mem by simp
  also have "(if room \<le> 0 then ?s else ?s\<lparr>captured := captured b @ take (nat (min (int (length acc)) room)) acc\<rparr>) =
      ?s\<lparr>captured := cappedTo cap (digest b @ acc)\<rparr>"
    using ext by (cases b) auto
  finally show ?thesis using final dig ov by auto
qed

subsection \<open>The collector\<close>

definition bodyOf :: "int \<Rightarrow> bytes \<Rightarrow> responseBodyState" where
  "bodyOf cap d = \<lparr>digest = d, captured = cappedTo cap d, bytesAccepted = int (length d)\<rparr>"

lemma body_ok_bodyOf: "body_ok limit cap b \<Longrightarrow> b = bodyOf cap (digest b)"
  by (cases b) (simp add: body_ok_def bodyOf_def)

lemma takeHeaders_body [simp]: "colBody (takeHeaders ev c) = colBody c"
  by (simp add: takeHeaders_def split: option.split responseHeaderKind.split)

lemma takeHeaders_cause [simp]: "colCause (takeHeaders ev c) = colCause c"
  by (simp add: takeHeaders_def split: option.split responseHeaderKind.split)

lemma takeHeaders_setBody: "takeHeaders ev (c\<lparr>colBody := b\<rparr>) = (takeHeaders ev c)\<lparr>colBody := b\<rparr>"
  by (simp add: takeHeaders_def split: option.split responseHeaderKind.split)

lemma collectStream_frame:
  assumes "0 < maxResponseBodyBytes cfg \<longrightarrow> int (length d) \<le> maxResponseBodyBytes cfg" and "-1 \<le> responseBodyCaptureBytes cfg"
    and "int (length (d @ evData ev)) \<le> maxInt64" and "colBody c = bodyOf (responseBodyCaptureBytes cfg) d"
  shows "collectStream idx sid cfg c (Frame ev # es) =
    (if 0 < maxResponseBodyBytes cfg \<and> int (length (d @ evData ev)) > maxResponseBodyBytes cfg
     then CollectFailed (firstCause (colCause c) (BodyLimit idx sid (maxResponseBodyBytes cfg) (maxResponseBodyBytes cfg)))
     else let c' = (takeHeaders ev c)\<lparr>colBody := bodyOf (responseBodyCaptureBytes cfg) (d @ evData ev)\<rparr> in
       if evEndStream ev then completeStream sid c' else collectStream idx sid cfg c' es)"
proof -
  let ?L = "maxResponseBodyBytes cfg" and ?C = "responseBodyCaptureBytes cfg"
  have ok: "body_ok ?L ?C (bodyOf ?C d)" using assms(1) by (simp add: body_ok_def bodyOf_def)
  show ?thesis
  proof (cases "evData ev = []")
    case True
    have "(takeHeaders ev c)\<lparr>colBody := bodyOf ?C d\<rparr> = takeHeaders ev c"
      using takeHeaders_body [of ev c] assms(4) by (cases "takeHeaders ev c") simp
    with True assms(1) show ?thesis by (auto simp: collectStream.simps(5) Let_def)
  next
    case False
    have "int (length (digest (bodyOf ?C d) @ evData ev)) \<le> maxInt64" using assms(3) by (simp add: bodyOf_def)
    from accept_spec [OF ok assms(2) this] obtain b' where
      acc: "accept (bodyOf ?C d) (evData ev) ?L ?C = Accepted (0 < ?L \<and> int (length (d @ evData ev)) > ?L) b'"
      and b': "digest b' = (if 0 < ?L then take (nat ?L) (d @ evData ev) else d @ evData ev)" "body_ok ?L ?C b'"
      by (auto simp: bodyOf_def)
    show ?thesis
    proof (cases "0 < ?L \<and> int (length (d @ evData ev)) > ?L")
      case True
      then have "length (digest b') = min (length (d @ evData ev)) (nat ?L)" using b'(1) by (simp del: take_append)
      with True have "length (digest b') = nat ?L" by linarith
      then have "bytesAccepted b' = ?L" using b'(2) True by (simp add: body_ok_def)
      with True False acc assms(4) show ?thesis by (simp add: collectStream.simps(5) Let_def)
    next
      case no: False
      then have "b' = bodyOf ?C (d @ evData ev)" using b'(1) body_ok_bodyOf [OF b'(2)] by (simp add: not_less split: if_splits)
      with no False acc assms(4) show ?thesis by (auto simp: Let_def)
    qed
  qed
qed

declare collectStream.simps(5) [simp del]

text \<open>What a list of events carries: the frames, and the causes others cancelled with.\<close>

definition framesOf :: "collect_event list \<Rightarrow> frameEvent list" where
  "framesOf es = concat (map (\<lambda>e. case e of Frame ev \<Rightarrow> [ev] | _ \<Rightarrow> []) es)"

definition causesOf :: "collect_event list \<Rightarrow> collect_error list" where
  "causesOf es = concat (map (\<lambda>e. case e of Cancelled x \<Rightarrow> [x] | _ \<Rightarrow> []) es)"

definition dataOf :: "collect_event list \<Rightarrow> bytes" where
  "dataOf es = concat (map evData (framesOf es))"

lemma ofs_simps [simp]:
  "framesOf [] = []" "causesOf [] = []" "dataOf [] = []"
  "framesOf (Frame ev # es) = ev # framesOf es" "framesOf (Cancelled x # es) = framesOf es"
  "causesOf (Frame ev # es) = causesOf es" "causesOf (Cancelled x # es) = x # causesOf es"
  "dataOf (Frame ev # es) = evData ev @ dataOf es" "dataOf (Cancelled x # es) = dataOf es"
  by (simp_all add: framesOf_def causesOf_def dataOf_def)

definition midStream :: "collect_event \<Rightarrow> bool" where
  "midStream e \<longleftrightarrow> (case e of Frame ev \<Rightarrow> \<not> evEndStream ev | Cancelled _ \<Rightarrow> True | _ \<Rightarrow> False)"

lemma takeHeaders_setCause: "takeHeaders ev (c\<lparr>colCause := x\<rparr>) = (takeHeaders ev c)\<lparr>colCause := x\<rparr>"
  by (simp add: takeHeaders_def split: option.split responseHeaderKind.split)

lemma completeStream_setCause [simp]: "completeStream sid (c\<lparr>colCause := x\<rparr>) = completeStream sid c"
  by (simp add: completeStream_def collectedResult_def split: option.split)

lemma completeStream_setCauseBody [simp]:
  "completeStream sid (c\<lparr>colCause := x, colBody := b\<rparr>) = completeStream sid (c\<lparr>colBody := b\<rparr>)"
  by (simp add: completeStream_def collectedResult_def split: option.split)

lemma foldl_takeHeaders_setBody:
  "foldl (\<lambda>c ev. takeHeaders ev c) (c\<lparr>colBody := b\<rparr>) xs = (foldl (\<lambda>c ev. takeHeaders ev c) c xs)\<lparr>colBody := b\<rparr>"
  by (induction xs arbitrary: c) (simp_all add: takeHeaders_setBody)

lemma foldl_takeHeaders_setCause:
  "foldl (\<lambda>c ev. takeHeaders ev c) (c\<lparr>colCause := b\<rparr>) xs = (foldl (\<lambda>c ev. takeHeaders ev c) c xs)\<lparr>colCause := b\<rparr>"
  by (induction xs arbitrary: c) (simp_all add: takeHeaders_setCause)

definition causeList :: "collect_error option \<Rightarrow> collect_error list" where
  "causeList x = (case x of None \<Rightarrow> [] | Some e \<Rightarrow> [e])"

lemma causeList_hd: "firstCause x e = hd (causeList x @ [e])" "hd (causeList (Some (firstCause x e)) @ es) = hd (causeList x @ e # es)"
  by (cases x; simp add: causeList_def)+

lemma collectStream_under:
  assumes "list_all midStream pre" and "evEndStream l" and "-1 \<le> responseBodyCaptureBytes cfg"
    and "int (length (d @ dataOf (pre @ [Frame l]))) \<le> maxInt64"
    and "colBody c = bodyOf (responseBodyCaptureBytes cfg) d"
    and "0 < maxResponseBodyBytes cfg \<longrightarrow> int (length (d @ dataOf (pre @ [Frame l]))) \<le> maxResponseBodyBytes cfg"
  shows "collectStream idx sid cfg c (pre @ Frame l # es) =
     completeStream sid ((foldl (\<lambda>c ev. takeHeaders ev c) c (framesOf (pre @ [Frame l])))
       \<lparr>colBody := bodyOf (responseBodyCaptureBytes cfg) (d @ dataOf (pre @ [Frame l]))\<rparr>)"
  using assms(1,4-6)
proof (induction pre arbitrary: c d)
  case Nil
  with assms(2,3) collectStream_frame [of cfg d l c idx sid es] show ?case by (auto simp: Let_def)
next
  case (Cons e pre)
  show ?case
  proof (cases e)
    case (Frame ev)
    let ?c = "(takeHeaders ev c)\<lparr>colBody := bodyOf (responseBodyCaptureBytes cfg) (d @ evData ev)\<rparr>"
    have "collectStream idx sid cfg c ((e # pre) @ Frame l # es) = collectStream idx sid cfg ?c (pre @ Frame l # es)"
      using Cons.prems assms(3) Frame
      by (simp only: append_Cons, subst collectStream_frame [of cfg d]) (auto simp: Let_def midStream_def)
    with Cons.IH [of "d @ evData ev" ?c] Cons.prems Frame show ?thesis by (simp add: foldl_takeHeaders_setBody)
  next
    case (Cancelled x)
    with Cons.IH [of d "c\<lparr>colCause := Some (firstCause (colCause c) x)\<rparr>"] Cons.prems
    show ?thesis
      by (simp add: foldl_takeHeaders_setCause)
  qed (use Cons.prems in \<open>simp_all add: midStream_def\<close>)
qed

lemma collectStream_over:
  assumes "list_all midStream pre" and "-1 \<le> responseBodyCaptureBytes cfg"
    and "int (length (d @ dataOf (pre @ [Frame l]))) \<le> maxInt64"
    and "colBody c = bodyOf (responseBodyCaptureBytes cfg) d"
    and "0 < maxResponseBodyBytes cfg" and "int (length d) \<le> maxResponseBodyBytes cfg"
    and "maxResponseBodyBytes cfg < int (length (d @ dataOf (pre @ [Frame l])))"
  shows "\<exists>before ev after. pre @ [Frame l] = before @ Frame ev # after \<and>
     int (length (d @ dataOf before)) \<le> maxResponseBodyBytes cfg \<and>
     maxResponseBodyBytes cfg < int (length (d @ dataOf before @ evData ev)) \<and>
     collectStream idx sid cfg c (pre @ Frame l # es) = CollectFailed (hd (causeList (colCause c) @ causesOf before @
       [BodyLimit idx sid (maxResponseBodyBytes cfg) (maxResponseBodyBytes cfg)]))"
  using assms(1,3,4,6,7)
proof (induction pre arbitrary: c d)
  case Nil
  with assms(2,5) collectStream_frame [of cfg d l c idx sid es]
  show ?case by - (rule exI [of _ "[]"], simp add: causeList_hd)
next
  case (Cons e pre)
  let ?L = "maxResponseBodyBytes cfg"
  show ?case
  proof (cases e)
    case (Frame ev)
    let ?c = "(takeHeaders ev c)\<lparr>colBody := bodyOf (responseBodyCaptureBytes cfg) (d @ evData ev)\<rparr>"
    show ?thesis
    proof (cases "?L < int (length (d @ evData ev))")
      case True
      have "collectStream idx sid cfg c ((e # pre) @ Frame l # es) =
          CollectFailed (hd (causeList (colCause c) @ [BodyLimit idx sid ?L ?L]))"
        using True Cons.prems assms(2,5) Frame
        by (simp only: append_Cons, subst collectStream_frame [of cfg d]) (auto simp: causeList_hd)
      with True Frame Cons.prems(4) show ?thesis by - (rule exI [of _ "[]"], rule exI [of _ ev], rule exI [of _ "pre @ [Frame l]"], simp)
    next
      case False
      have step: "collectStream idx sid cfg c ((e # pre) @ Frame l # es) = collectStream idx sid cfg ?c (pre @ Frame l # es)"
        using False Cons.prems assms(2) Frame
        by (simp only: append_Cons, subst collectStream_frame [of cfg d]) (auto simp: Let_def midStream_def)
      from Cons.IH [of "d @ evData ev" ?c] Cons.prems False Frame obtain before ev' after where
        "pre @ [Frame l] = before @ Frame ev' # after" "int (length ((d @ evData ev) @ dataOf before)) \<le> ?L"
        "?L < int (length ((d @ evData ev) @ dataOf before @ evData ev'))"
        "collectStream idx sid cfg ?c (pre @ Frame l # es) = CollectFailed (hd (causeList (colCause ?c) @ causesOf before @
           [BodyLimit idx sid ?L ?L]))" by auto
      with step Frame show ?thesis
        by - (rule exI [of _ "Frame ev # before"], rule exI [of _ ev'], rule exI [of _ after], simp)
    qed
  next
    case (Cancelled x)
    let ?c = "c\<lparr>colCause := Some (firstCause (colCause c) x)\<rparr>"
    from Cons.IH [of d ?c] Cons.prems Cancelled obtain before ev' after where
      "pre @ [Frame l] = before @ Frame ev' # after" "int (length (d @ dataOf before)) \<le> ?L"
      "?L < int (length (d @ dataOf before @ evData ev'))"
      "collectStream idx sid cfg ?c (pre @ Frame l # es) = CollectFailed (hd (causeList (colCause ?c) @ causesOf before @
         [BodyLimit idx sid ?L ?L]))" by auto
    with Cancelled show ?thesis
      by - (rule exI [of _ "Cancelled x # before"], rule exI [of _ ev'], rule exI [of _ after], simp add: causeList_hd(2))
  qed (use Cons.prems in \<open>simp_all add: midStream_def\<close>)
qed

text \<open>C27. A stream that ends cleanly yields exactly what was sent on it, whatever cancellations its collector has
  overlooked: if its frames stay within the body limit and included final response headers, the result carries the
  arrival number of the last final header block, the digest and length of the concatenated DATA payloads, and their
  prefix up to the capture limit; without final headers it reports that. Above the limit the collector fails at the
  first frame that crosses it, with the first cause its batch context was cancelled with before that frame, and with
  its own limit error, naming exactly the limit as accepted, when there was none.\<close>

theorem collect_complete_stream:
  assumes "list_all midStream pre" and "evEndStream l" and "-1 \<le> responseBodyCaptureBytes cfg"
    and "d = dataOf (pre @ [Frame l])" and "int (length d) \<le> maxInt64"
    and "c = foldl (\<lambda>c ev. takeHeaders ev c) newCollector (framesOf (pre @ [Frame l]))"
  shows "if 0 < maxResponseBodyBytes cfg \<and> int (length d) > maxResponseBodyBytes cfg
     then \<exists>before ev after. pre @ [Frame l] = before @ Frame ev # after \<and>
       int (length (dataOf before)) \<le> maxResponseBodyBytes cfg \<and>
       maxResponseBodyBytes cfg < int (length (dataOf before @ evData ev)) \<and>
       collectStream idx sid cfg newCollector (pre @ Frame l # es) =
         CollectFailed (hd (causesOf before @ [BodyLimit idx sid (maxResponseBodyBytes cfg) (maxResponseBodyBytes cfg)]))
     else collectStream idx sid cfg newCollector (pre @ Frame l # es) = (case colResponse c of
       None \<Rightarrow> CollectFailed (EndedBeforeHeaders sid)
     | Some r \<Rightarrow> Collected
         \<lparr>response = Some (r\<lparr>Trailer := colTrailer c, Body := \<lparr>Captured =
              (if responseBodyCaptureBytes cfg = UnlimitedResponseBytes then d else take (nat (responseBodyCaptureBytes cfg)) d),
              BytesReceived = int (length d), SHA256 = d\<rparr>\<rparr>),
          ArrivalRank = 0, Reset = None, arrivalSeq = colSeq c, streamID = sid\<rparr> None)"
proof -
  have start: "colBody newCollector = bodyOf (responseBodyCaptureBytes cfg) []" "colCause newCollector = None"
    by (simp_all add: newCollector_def newBody_def bodyOf_def cappedTo_def)
  show ?thesis
  proof (cases "0 < maxResponseBodyBytes cfg \<and> int (length d) > maxResponseBodyBytes cfg")
    case True
    then show ?thesis
      using collectStream_over [OF assms(1,3), of "[]" l newCollector idx sid es] assms(4,5) start by (simp add: causeList_def)
  next
    case False
    then have "collectStream idx sid cfg newCollector (pre @ Frame l # es) =
        completeStream sid (c\<lparr>colBody := bodyOf (responseBodyCaptureBytes cfg) d\<rparr>)"
      using collectStream_under [OF assms(1,2,3), of "[]" newCollector idx sid es] assms(4-6) start by auto
    then show ?thesis
      unfolding if_not_P [OF False]
      by (simp add: completeStream_def collectedResult_def bodyOf_def cappedTo_def split: option.split)
  qed
qed

definition demo_headers :: frameEvent where
  "demo_headers = \<lparr>headerKind = Some responseHeaderFinal, evResponse = Some demo_response, evTrailer = None,
     evArrivalSeq = 4, evData = [], evEndStream = False\<rparr>"

definition demo_data :: "bytes \<Rightarrow> bool \<Rightarrow> frameEvent" where
  "demo_data d e = \<lparr>headerKind = None, evResponse = None, evTrailer = None, evArrivalSeq = 0, evData = d, evEndStream = e\<rparr>"

definition demo_cfg :: sendConfig where
  "demo_cfg = \<lparr>maxResponseBodyBytes = 5, responseBodyCaptureBytes = 2, responseHeaderCapture = False\<rparr>"

theorem collect_complete_stream_witness:
  "collectStream 0 1 demo_cfg newCollector ([Frame demo_headers, Cancelled BatchTimeout, Frame (demo_data ''ab'' False)]
       @ Frame (demo_data ''cd'' True) # []) =
     Collected \<lparr>response = Some (demo_response\<lparr>Trailer := None,
       Body := \<lparr>Captured = ''ab'', BytesReceived = 4, SHA256 = ''abcd''\<rparr>\<rparr>),
       ArrivalRank = 0, Reset = None, arrivalSeq = 4, streamID = 1\<rparr> None"
  using collect_complete_stream [of "[Frame demo_headers, Cancelled BatchTimeout, Frame (demo_data ''ab'' False)]"
      "demo_data ''cd'' True" demo_cfg _ _ 0 1 "[]", OF _ _ _ refl _ refl]
  by (simp add: demo_headers_def demo_data_def demo_cfg_def takeHeaders_def newCollector_def maxInt64_def
        UnlimitedResponseBytes_def midStream_def)

subsection \<open>Declared lengths\<close>

definition lengthValues :: "field list \<Rightarrow> str list" where
  "lengthValues fs = concat (map (\<lambda>(name, val). SplitChar (CHR '','') val)
     (filter (\<lambda>(name, val). EqualFold name ''content-length'') fs))"

lemma lengthParts_Some:
  assumes "-1 \<le> len"
  shows "lengthParts len ps = Some n \<longleftrightarrow>
    (if ps = [] then n = len
     else 0 \<le> n \<and> (\<forall>p\<in>set ps. ParseInt (TrimSpace p) = (n, None)) \<and> (len = -1 \<or> len = n))"
  using assms
proof (induction ps arbitrary: len)
  case (Cons p ps)
  obtain m e where pe: "ParseInt (TrimSpace p) = (m, e)" by (cases "ParseInt (TrimSpace p)")
  show ?case
  proof (cases "e \<noteq> None \<or> m < 0")
    case True
    with pe show ?thesis by auto
  next
    case False
    with Cons.IH [of m] Cons.prems pe show ?thesis by (cases "ps = []") auto
  qed
qed auto

lemma lengthFields_Some:
  assumes "-1 \<le> len"
  shows "lengthFields len fs = Some n \<longleftrightarrow>
    (if lengthValues fs = [] then n = len
     else 0 \<le> n \<and> (\<forall>p\<in>set (lengthValues fs). ParseInt (TrimSpace p) = (n, None)) \<and> (len = -1 \<or> len = n))"
  using assms
proof (induction fs arbitrary: len)
  case Nil
  then show ?case by (auto simp: lengthValues_def)
next
  case (Cons f fs)
  obtain name val where f: "f = (name, val)" by (cases f)
  show ?case
  proof (cases "EqualFold name ''content-length''")
    case False
    then have "lengthValues (f # fs) = lengthValues fs" "lengthFields len (f # fs) = lengthFields len fs"
      by (simp_all add: f lengthValues_def)
    with Cons show ?thesis by simp
  next
    case True
    let ?ps = "SplitChar (CHR '','') val"
    have v: "lengthValues (f # fs) = ?ps @ lengthValues fs" using True by (simp add: f lengthValues_def)
    show ?thesis
    proof (cases "lengthParts len ?ps")
      case None
      then have "\<not> (0 \<le> n \<and> (\<forall>p\<in>set ?ps. ParseInt (TrimSpace p) = (n, None)) \<and> (len = -1 \<or> len = n))"
        using lengthParts_Some [OF Cons.prems, of ?ps n] by auto
      with None True show ?thesis unfolding v by (auto simp: f)
    next
      case (Some m)
      then have m: "0 \<le> m" "\<forall>p\<in>set ?ps. ParseInt (TrimSpace p) = (m, None)" "len = -1 \<or> len = m"
        using lengthParts_Some [OF Cons.prems, of ?ps m] by auto
      obtain p where p: "p \<in> set ?ps" by (metis SplitChar_nonempty list.set_sel(1))
      have "lengthFields len (f # fs) = lengthFields m fs" using Some True by (simp add: f)
      moreover have "(\<forall>p\<in>set ?ps. ParseInt (TrimSpace p) = (n, None)) \<longleftrightarrow> n = m" using m(2) p by auto
      ultimately show ?thesis using Cons.IH [of m] m(1,3) unfolding v by (cases "lengthValues fs = []") auto
    qed
  qed
qed

text \<open>A declared content length is reported exactly when it is unambiguous: there is a
  \<open>content-length\<close> value, and every comma-separated part of every such field parses to the same
  non-negative number; in every other case the result is \<open>-1\<close>.\<close>

theorem declaredContentLength_unambiguous:
  "declaredContentLength fs =
    (if lengthValues fs \<noteq> [] \<and>
        (\<exists>n. 0 \<le> n \<and> list_all (\<lambda>p. ParseInt (TrimSpace p) = (n, None)) (lengthValues fs))
     then fst (ParseInt (TrimSpace (hd (lengthValues fs)))) else -1)"
proof (cases "lengthFields (-1) fs")
  case None
  then have "\<not> (lengthValues fs \<noteq> [] \<and> (\<exists>n. 0 \<le> n \<and> (\<forall>p\<in>set (lengthValues fs). ParseInt (TrimSpace p) = (n, None))))"
    using lengthFields_Some [of "-1" fs] by auto
  with None show ?thesis by (auto simp: declaredContentLength_def list_all_iff)
next
  case (Some n)
  then have "if lengthValues fs = [] then n = -1
     else 0 \<le> n \<and> (\<forall>p\<in>set (lengthValues fs). ParseInt (TrimSpace p) = (n, None))"
    using lengthFields_Some [of "-1" fs n] by auto
  with Some show ?thesis
    by (auto simp: declaredContentLength_def list_all_iff split: if_splits)
qed

lemma headerStatus_first:
  "list_all (\<lambda>f. fst f \<noteq> '':status'') pre \<Longrightarrow> headerStatus (pre @ ('':status'', val) # post) = Some (val, decimalCode val)"
  by (induction pre) (auto simp: ParseInt_code)

lemma decimalCode_range: "- (2 ^ 63) \<le> decimalCode val \<and> decimalCode val < 2 ^ 63"
  by (cases val) (auto simp: decimalCode_def bodyCode_def nearestInt64_def Let_def)

lemma bodyCode_digits:
  assumes "ds \<noteq> []" and "list_all isDigit ds"
  shows "bodyCode neg ds = nearestInt64 (if neg then - digitsValue 0 ds else digitsValue 0 ds)"
proof -
  have "takeWhile isDigit ds = ds" using assms(2) by (simp add: takeWhile_eq_all_conv list_all_iff)
  with assms(1) show ?thesis by (simp add: bodyCode_def Let_def del: takeWhile_eq_all_conv)
qed

lemma bodyCode_zero: "body = [] \<or> \<not> isDigit (hd body) \<Longrightarrow> bodyCode neg body = 0"
  by (cases body) (simp_all add: bodyCode_def Let_def maxUint64_def)

lemma decimalCode_digits:
  assumes "ds \<noteq> []" and "list_all isDigit ds"
  shows "decimalCode ds = nearestInt64 (digitsValue 0 ds)" and "decimalCode (CHR ''-'' # ds) = nearestInt64 (- digitsValue 0 ds)"
proof -
  obtain c t where c: "ds = c # t" using assms(1) by (cases ds) auto
  with assms(2) have "c \<noteq> CHR ''-''" "c \<noteq> CHR ''+''" using isDigit_sign by auto
  with c bodyCode_digits [OF assms] show "decimalCode ds = nearestInt64 (digitsValue 0 ds)" by (simp add: decimalCode_def)
  show "decimalCode (CHR ''-'' # ds) = nearestInt64 (- digitsValue 0 ds)"
    using bodyCode_digits [OF assms, of True] by (simp add: decimalCode_def)
qed



subsection \<open>Gathering\<close>

definition outcomeResult :: "outcome \<Rightarrow> Result" where
  "outcomeResult x = (case x of Collected r _ \<Rightarrow> r | _ \<Rightarrow> zeroRes)"

definition isFatal :: "outcome \<Rightarrow> bool" where
  "isFatal x \<longleftrightarrow> (case x of CollectFailed _ \<Rightarrow> True | _ \<Rightarrow> False)"

definition isReset :: "outcome \<Rightarrow> bool" where
  "isReset x \<longleftrightarrow> (case x of Collected _ (Some _) \<Rightarrow> True | _ \<Rightarrow> False)"

definition gots :: "gather_event list \<Rightarrow> (nat \<times> outcome) list" where
  "gots es = concat (map (\<lambda>e. case e of Got i x \<Rightarrow> [(i, x)] | _ \<Rightarrow> []) es)"

definition cancels :: "gather_event list \<Rightarrow> collect_error list" where
  "cancels es = concat (map (\<lambda>e. case e of ContextCancelled x \<Rightarrow> [x] | _ \<Rightarrow> []) es)"

lemma gots_simps [simp]:
  "gots [] = []" "gots (Got i x # es) = (i, x) # gots es" "gots (ContextCancelled e # es) = gots es"
  "cancels [] = []" "cancels (Got i x # es) = cancels es" "cancels (ContextCancelled e # es) = e # cancels es"
  by (simp_all add: gots_def cancels_def)

lemma gather_spec:
  assumes "distinct (map fst (gots es))" and "\<forall>x\<in>set (gots es). fst x < length (results g) \<and> snd x \<noteq> Waiting"
  shows "length (results (foldl gatherOne g es)) = length (results g) \<and>
    (fatalErr (foldl gatherOne g es) = None \<longleftrightarrow> fatalErr g = None \<and> (\<forall>x\<in>set (gots es). \<not> isFatal (snd x))) \<and>
    (streamErr (foldl gatherOne g es) = None \<longleftrightarrow> streamErr g = None \<and> (\<forall>x\<in>set (gots es). \<not> isReset (snd x))) \<and>
    (\<forall>x\<in>set (gots es). results (foldl gatherOne g es) ! fst x = outcomeResult (snd x)) \<and>
    (\<forall>i. i \<notin> fst ` set (gots es) \<longrightarrow> results (foldl gatherOne g es) ! i = results g ! i)"
  using assms
proof (induction es arbitrary: g)
  case (Cons e es)
  show ?case
  proof (cases e)
    case (ContextCancelled y)
    with Cons.IH [of "gatherOne g e"] Cons.prems show ?thesis by simp
  next
    case (Got i out)
    let ?g = "gatherOne g e"
    have one: "length (results ?g) = length (results g) \<and>
        (fatalErr ?g = None \<longleftrightarrow> fatalErr g = None \<and> \<not> isFatal out) \<and>
        (streamErr ?g = None \<longleftrightarrow> streamErr g = None \<and> \<not> isReset out) \<and>
        results ?g = (results g)[i := outcomeResult out]"
      using Cons.prems(2) Got
      by (cases "(g, e)" rule: gatherOne.cases) (auto simp: isFatal_def isReset_def outcomeResult_def Let_def)
    have IH: "length (results (foldl gatherOne ?g es)) = length (results ?g) \<and>
      (fatalErr (foldl gatherOne ?g es) = None \<longleftrightarrow> fatalErr ?g = None \<and> (\<forall>x\<in>set (gots es). \<not> isFatal (snd x))) \<and>
      (streamErr (foldl gatherOne ?g es) = None \<longleftrightarrow> streamErr ?g = None \<and> (\<forall>x\<in>set (gots es). \<not> isReset (snd x))) \<and>
      (\<forall>y\<in>set (gots es). results (foldl gatherOne ?g es) ! fst y = outcomeResult (snd y)) \<and>
      (\<forall>i. i \<notin> fst ` set (gots es) \<longrightarrow> results (foldl gatherOne ?g es) ! i = results ?g ! i)"
      using Cons.prems one Got by (intro Cons.IH) auto
    have i: "i \<notin> fst ` set (gots es)" "i < length (results g)" using Cons.prems Got by force+
    have here: "results (foldl gatherOne ?g es) ! i = outcomeResult out" using IH one i by simp
    show ?thesis using IH one here Got by (auto simp: nth_list_update_neq)
  qed
qed simp

text \<open>The fatal error is the first cause of the batch context when the first fatal result is received.\<close>

lemma gather_fatal:
  assumes "fatalErr g = None" and "\<forall>x\<in>set (gots es). snd x \<noteq> Waiting" and "fatalErr (foldl gatherOne g es) = Some e"
  shows "\<exists>before i e0 after. es = before @ Got i (CollectFailed e0) # after \<and>
    (\<forall>x\<in>set (gots before). \<not> isFatal (snd x)) \<and> e = hd (causeList (ctxCause g) @ cancels before @ [e0])"
  using assms
proof (induction es arbitrary: g)
  case (Cons x es)
  have keep: "fatalErr (foldl gatherOne g' ys) = Some y" if "fatalErr g' = Some y" for g' ys y
    using that
  proof (induction ys arbitrary: g')
    case (Cons z zs)
    then show ?case by (cases "(g', z)" rule: gatherOne.cases) simp_all
  qed simp
  show ?case
  proof (cases "(g, x)" rule: gatherOne.cases)
    case (3 g' i e0)
    then have "fatalErr (gatherOne g x) = Some (firstCause (ctxCause g) e0)" using Cons.prems(1) by (simp add: Let_def)
    from keep [OF this, of es] have "e = firstCause (ctxCause g) e0" using Cons.prems(3) by simp
    with 3 show ?thesis by - (rule exI [of _ "[]"], auto simp: causeList_hd)
  next
    case (5 g' y)
    from Cons.IH [of "gatherOne g x"] Cons.prems 5 obtain before i e0 after where
      "es = before @ Got i (CollectFailed e0) # after" "\<forall>x\<in>set (gots before). \<not> isFatal (snd x)"
      "e = hd (causeList (ctxCause (gatherOne g x)) @ cancels before @ [e0])" by auto
    with 5 show ?thesis by - (rule exI [of _ "x # before"], rule exI [of _ i], rule exI [of _ e0], rule exI [of _ after], simp add: causeList_hd(2))
  next
    case (1 g' i r)
    from Cons.IH [of "gatherOne g x"] Cons.prems 1 obtain before j e0 after where
      "es = before @ Got j (CollectFailed e0) # after" "\<forall>x\<in>set (gots before). \<not> isFatal (snd x)"
      "e = hd (causeList (ctxCause g) @ cancels before @ [e0])" by auto
    with 1 show ?thesis
      by - (rule exI [of _ "x # before"], rule exI [of _ j], rule exI [of _ e0], rule exI [of _ after], simp add: isFatal_def)
  next
    case (2 g' i r y)
    from Cons.IH [of "gatherOne g x"] Cons.prems 2 obtain before j e0 after where
      "es = before @ Got j (CollectFailed e0) # after" "\<forall>x\<in>set (gots before). \<not> isFatal (snd x)"
      "e = hd (causeList (ctxCause g) @ cancels before @ [e0])" by auto
    with 2 show ?thesis
      by - (rule exI [of _ "x # before"], rule exI [of _ j], rule exI [of _ e0], rule exI [of _ after], simp add: isFatal_def)
  qed (use Cons.prems in auto)
qed simp

text \<open>However the collectors of a batch finish, the batch fails exactly when some collector failed fatally, and then
  with the first cause of its context when the first fatal result came in, or that result's own error; otherwise
  every request gets its own collector's result, and an error is reported exactly when some stream was reset.\<close>

theorem readResponses_order_free:
  assumes "distinct (map fst (gots es))" and "set (map fst (gots es)) = {..<n}" and "list_all (\<lambda>x. snd x \<noteq> Waiting) (gots es)"
  shows "case readResponses n es of
     Inl e \<Rightarrow> (\<exists>before i e0 after. es = before @ Got i (CollectFailed e0) # after \<and>
       \<not> list_ex (\<lambda>x. isFatal (snd x)) (gots before) \<and> e = hd (cancels before @ [e0]))
   | Inr (rs, se) \<Rightarrow> \<not> list_ex (\<lambda>x. isFatal (snd x)) (gots es) \<and> length rs = n \<and>
       (\<forall>(i, x)\<in>set (gots es). rs ! i = outcomeResult x) \<and>
       (se = None \<longleftrightarrow> \<not> list_ex (\<lambda>x. isReset (snd x)) (gots es))"
proof -
  let ?g = "foldl gatherOne (newGather n) es"
  have "\<forall>x\<in>set (gots es). fst x < n" using assms(2) by (metis image_eqI lessThan_iff set_map)
  with gather_spec [OF assms(1), of "newGather n"] assms(3)
  have g: "length (results ?g) = n \<and>
    (fatalErr ?g = None \<longleftrightarrow> \<not> list_ex (\<lambda>x. isFatal (snd x)) (gots es)) \<and>
    (streamErr ?g = None \<longleftrightarrow> \<not> list_ex (\<lambda>x. isReset (snd x)) (gots es)) \<and>
    (\<forall>x\<in>set (gots es). results ?g ! fst x = outcomeResult (snd x))"
    by (simp add: list_all_iff list_ex_iff newGather_def)
  show ?thesis
  proof (cases "fatalErr ?g")
    case None
    with g show ?thesis by (auto simp: readResponses_def Let_def)
  next
    case (Some e)
    with gather_fatal [of "newGather n" es e] assms(3)
    show ?thesis by (auto simp: readResponses_def Let_def newGather_def causeList_def list_all_iff list_ex_iff)
  qed
qed

theorem readResponses_order_free_witness:
  "readResponses 2 [Got 1 (Collected (demo_arrived 0) None), Got 0 (Collected demo_reset (Some \<lparr>StreamID = 1, Code = 8\<rparr>))] =
     Inr ([demo_reset, demo_arrived 0], Some \<lparr>StreamID = 1, Code = 8\<rparr>)"
  using readResponses_order_free [of "[Got 1 (Collected (demo_arrived 0) None), Got 0 (Collected demo_reset (Some \<lparr>StreamID = 1, Code = 8\<rparr>))]" 2]
  by (simp add: readResponses_def newGather_def numeral_2_eq_2)

subsection \<open>Arrival numbers are unique\<close>

definition finalSeqs :: "collect_event list \<Rightarrow> int set" where
  "finalSeqs es = {evArrivalSeq ev | ev. Frame ev \<in> set es \<and> headerKind ev = Some responseHeaderFinal}"

lemma finalSeqs_Cons:
  "finalSeqs (e # es) = (case e of Frame ev \<Rightarrow> if headerKind ev = Some responseHeaderFinal then {evArrivalSeq ev} else {}
     | _ \<Rightarrow> {}) \<union> finalSeqs es"
  by (cases e) (auto simp: finalSeqs_def)

text \<open>A collected response carries the number of one of its own final header blocks, and a collected result
  without a response carries the reset.\<close>

lemma collectStream_seq:
  assumes "collectStream idx sid cfg c es = Collected r e" and "colResponse c \<noteq> None \<longrightarrow> colSeq c \<in> S"
  shows "(response r \<noteq> None \<longrightarrow> arrivalSeq r \<in> S \<union> finalSeqs es) \<and> (response r = None \<longrightarrow> Reset r \<noteq> None)"
  using assms
proof (induction idx sid cfg c es arbitrary: S rule: collectStream.induct)
  case (2 idx sid cfg c rst es)
  then show ?case
    by (auto simp: resetStreamResult_def collectedResult_def split: option.splits)
next
  case (3 idx sid cfg c x es)
  then show ?case by (auto simp: finalSeqs_Cons)
next
  case (4 idx sid cfg c es)
  then show ?case by (auto simp: finalSeqs_Cons split: option.splits)
next
  case (5 idx sid cfg c ev es)
  let ?c = "takeHeaders ev c"
  have hd: "colResponse ?c \<noteq> None \<longrightarrow> colSeq ?c \<in> S \<union> finalSeqs (Frame ev # es)"
    using "5.prems"(2) by (auto simp: takeHeaders_def finalSeqs_Cons split: option.splits responseHeaderKind.splits)
  have fin: "(response r \<noteq> None \<longrightarrow> arrivalSeq r \<in> S \<union> finalSeqs (Frame ev # es)) \<and> (response r = None \<longrightarrow> Reset r \<noteq> None)"
    if "completeStream sid (?c\<lparr>colBody := b\<rparr>) = Collected r e" for b
    using that hd by (auto simp: completeStream_def collectedResult_def split: option.splits)
  have same: "?c\<lparr>colBody := colBody ?c\<rparr> = ?c" by simp
  from "5.prems"(1) obtain c' b where c': "c' = ?c\<lparr>colBody := b\<rparr>"
    and run: "(if evEndStream ev then completeStream sid c' else collectStream idx sid cfg c' es) = Collected r e"
    and eq: "(if evData ev = [] then Inr ?c
                else case accept (colBody ?c) (evData ev) (maxResponseBodyBytes cfg) (responseBodyCaptureBytes cfg) of
                       Accepted overflow b \<Rightarrow>
                         if overflow
                         then Inl (firstCause (colCause ?c) (BodyLimit idx sid (maxResponseBodyBytes cfg) (bytesAccepted b)))
                         else Inr (?c\<lparr>colBody := b\<rparr>)
                     | _ \<Rightarrow> Inl BodyError) = Inr c'"
    unfolding collectStream.simps(5) Let_def
    by (cases "evData ev = []") (auto split: accept_result.splits if_splits intro: that [OF same [symmetric]])
  show ?case
  proof (cases "evEndStream ev")
    case True
    with run fin c' show ?thesis by simp
  next
    case False
    have "colResponse c' \<noteq> None \<longrightarrow> colSeq c' \<in> S \<union> finalSeqs (Frame ev # es)" using hd c' by simp
    with "5.IH" [OF refl refl eq False, of "S \<union> finalSeqs (Frame ev # es)"] run False show ?thesis
      by (auto simp: finalSeqs_Cons)
  qed
qed simp_all

lemma finalSeqs_dispatch_ge: "q \<in> finalSeqs (eventsOf i (dispatchFrames cap k ws)) \<Longrightarrow> k \<le> q"
proof (induction cap k ws rule: dispatchFrames.induct)
  case (2 capture k j fs fin ws)
  obtain kind resp trailer where p: "projectResponseHeaderBlock fs capture = (kind, resp, trailer)"
    by (cases "projectResponseHeaderBlock fs capture")
  have "q = k \<or> q \<in> finalSeqs (eventsOf i (dispatchFrames capture (k + 1) ws))"
    using "2.prems" p by (auto simp: eventsOf_def finalSeqs_Cons split: if_splits)
  then show ?case using "2.IH" [OF p [symmetric] refl] by fastforce
qed (auto simp: eventsOf_def finalSeqs_Cons finalSeqs_def split: if_splits)

lemma finalSeqs_dispatch_disjoint:
  "i \<noteq> j \<Longrightarrow> finalSeqs (eventsOf i (dispatchFrames cap k ws)) \<inter> finalSeqs (eventsOf j (dispatchFrames cap k ws)) = {}"
proof (induction cap k ws rule: dispatchFrames.induct)
  case (1 capture k)
  then show ?case by (simp add: eventsOf_def finalSeqs_def)
next
  case (2 capture k m fs fin ws)
  obtain kind resp trailer where p: "projectResponseHeaderBlock fs capture = (kind, resp, trailer)"
    by (cases "projectResponseHeaderBlock fs capture")
  let ?rest = "dispatchFrames capture (k + 1) ws"
  have step: "finalSeqs (eventsOf x (dispatchFrames capture k (WHeaders m fs fin # ws))) \<subseteq>
      (if x = m then {k} else {}) \<union> finalSeqs (eventsOf x ?rest)" for x
    by (auto simp: p eventsOf_def finalSeqs_Cons split: if_splits)
  have fresh: "k \<notin> finalSeqs (eventsOf x ?rest)" for x
    using finalSeqs_dispatch_ge [of k x capture "k + 1" ws] by auto
  have "finalSeqs (eventsOf i ?rest) \<inter> finalSeqs (eventsOf j ?rest) = {}" using 2 p by auto
  with step [of i] step [of j] fresh [of i] fresh [of j] \<open>i \<noteq> j\<close> show ?case
    by (cases "i = m"; cases "j = m") auto
next
  case (3 capture k m d fin ws)
  then show ?case by (auto simp: eventsOf_def finalSeqs_Cons split: if_splits)
next
  case (4 capture k m e ws)
  then show ?case by (auto simp: eventsOf_def finalSeqs_Cons split: if_splits)
qed

lemma distinct_arrivedSeqs:
  assumes "\<And>i j. i < j \<Longrightarrow> j < length rs \<Longrightarrow> Arrived (rs ! i) \<Longrightarrow> Arrived (rs ! j) \<Longrightarrow> arrivalSeq (rs ! i) \<noteq> arrivalSeq (rs ! j)"
  shows "distinct (arrivedSeqs rs)"
  using assms
proof (induction rs)
  case (Cons r rs)
  have "distinct (arrivedSeqs rs)" using Cons.prems by (intro Cons.IH) (metis Suc_less_eq length_Cons nth_Cons_Suc)
  moreover have "arrivalSeq r \<notin> set (arrivedSeqs rs)" if "Arrived r"
  proof
    assume "arrivalSeq r \<in> set (arrivedSeqs rs)"
    then obtain j where "j < length rs" "Arrived (rs ! j)" "arrivalSeq (rs ! j) = arrivalSeq r"
      by (auto simp: arrivedSeqs_def in_set_conv_nth)
    with Cons.prems [of 0 "Suc j"] that show False by simp
  qed
  ultimately show ?case by (auto simp: arrivedSeqs_def)
qed (simp add: arrivedSeqs_def)

text \<open>C28. The internal panics of \<open>newBatchResult\<close> are unreachable: whatever frames the read pump
  dispatches, if every collector of the batch returns a result, the batch result is built.\<close>

theorem batch_result_never_panics:
  assumes "length rs = n"
    and "\<forall>i<n. \<exists>e. collectStream i (sid i) cfg newCollector (eventsOf i (dispatchFrames capture 0 ws)) = Collected (rs ! i) e"
  shows "\<exists>b. newBatchResult rs = Inr b"
proof -
  let ?es = "\<lambda>i. eventsOf i (dispatchFrames capture 0 ws)"
  have r: "(response (rs ! i) \<noteq> None \<longrightarrow> arrivalSeq (rs ! i) \<in> finalSeqs (?es i)) \<and> (response (rs ! i) = None \<longrightarrow> Reset (rs ! i) \<noteq> None)"
    if i: "i < n" for i
  proof -
    obtain e where "collectStream i (sid i) cfg newCollector (?es i) = Collected (rs ! i) e" using assms(2) i by blast
    from collectStream_seq [OF this, of "{}"] show ?thesis by (simp add: newCollector_def)
  qed
  have "list_all collectable rs"
    using r finalSeqs_dispatch_ge assms(1) by (fastforce simp: list_all_length collectable_def Arrived_def)
  moreover have "distinct (arrivedSeqs rs)"
  proof (rule distinct_arrivedSeqs)
    fix i j assume "i < j" "j < length rs" "Arrived (rs ! i)" "Arrived (rs ! j)"
    with r [of i] r [of j] assms(1) finalSeqs_dispatch_disjoint [of i j capture 0 ws]
    show "arrivalSeq (rs ! i) \<noteq> arrivalSeq (rs ! j)" by (auto simp: Arrived_def)
  qed
  ultimately show ?thesis by (simp add: newBatchResult_unfold)
qed

definition demo_frames :: "wireFrame list" where
  "demo_frames = [WHeaders 0 [('':status'', ''103'')] False, WHeaders 0 [('':status'', ''200'')] False, WData 0 ''ok'' True]"

definition demo_collected :: Result where
  "demo_collected = \<lparr>response = Some \<lparr>Status = ''200 OK'', StatusCode = 200, Header = None, Trailer = None,
       ContentLength = -1, Body = \<lparr>Captured = ''ok'', BytesReceived = 2, SHA256 = ''ok''\<rparr>\<rparr>,
     ArrivalRank = 0, Reset = None, arrivalSeq = 1, streamID = 1\<rparr>"

theorem batch_result_never_panics_witness:
  "\<exists>b. newBatchResult [demo_collected] = Inr b"
proof (rule batch_result_never_panics [where n = 1 and sid = "\<lambda>_. 1" and cfg = demo_cfg
    and capture = False and ws = demo_frames])
  have "collectStream 0 1 demo_cfg newCollector (eventsOf 0 (dispatchFrames False 0 demo_frames)) = Collected demo_collected None"
    by code_simp
  then show "\<forall>i<1. \<exists>e. collectStream i 1 demo_cfg newCollector (eventsOf i (dispatchFrames False 0 demo_frames)) =
      Collected ([demo_collected] ! i) e" by auto
qed simp

end
