(* ===== verification/Pool.thy ===== *)
theory Pool
  imports Prelude
begin

text \<open>
  The connection pool of one origin (\<open>tth2/transport.go\<close>): its token semaphore, idle list and epoch, the
  whole of \<open>acquire\<close>, \<open>takeIdle\<close>, \<open>putIdle\<close>, \<open>discard\<close> and \<open>CloseIdleConnections\<close>, and a transition system in
  which any number of callers run them at once. Each critical section, each channel operation and each
  reading of the clock of the source is one step, so that the windows between stamping a connection,
  pooling it and releasing its token are states other callers can observe. A connection taken out of the idle list as
  expired, or by \<open>CloseIdleConnections\<close>, is closed after the lock is released; that changes nothing the pool shows and
  is not a step, and such a connection no longer counts towards the limit.
\<close>

record idleConn =
  conn :: nat
  since :: int

record originPool =
  tokens :: nat
  idle :: "idleConn list"
  epoch :: nat

definition newPool :: "nat \<Rightarrow> originPool" where
  "newPool n = \<lparr>tokens = n, idle = [], epoch = 0\<rparr>"

text \<open>\<open>takeIdle\<close>: the expired connections for the caller to close, the connection to reuse, the epoch.\<close>

fun expiredPrefix :: "int \<Rightarrow> idleConn list \<Rightarrow> nat" where
  "expiredPrefix cutoff [] = 0"
| "expiredPrefix cutoff (c # cs) = (if since c < cutoff then Suc (expiredPrefix cutoff cs) else 0)"

definition takeIdle :: "int \<Rightarrow> int \<Rightarrow> originPool \<Rightarrow> (nat list \<times> nat option \<times> nat) \<times> originPool" where
  "takeIdle idleTimeout now p =
     (let k = (if idleTimeout > 0 \<and> idle p \<noteq> [] then expiredPrefix (now - idleTimeout) (idle p) else 0);
          stale = map conn (take k (idle p)) in
      case drop k (idle p) of
        [] \<Rightarrow> ((stale, None, epoch p), p\<lparr>idle := []\<rparr>)
      | c # cs \<Rightarrow> ((stale, Some (conn c), epoch p), p\<lparr>idle := cs\<rparr>))"

text \<open>The critical section of \<open>putIdle\<close> reports whether the connection was kept; one of an older epoch is
  not, and its caller closes it. Either way the token follows.\<close>

definition appendIdle :: "idleConn \<Rightarrow> nat \<Rightarrow> originPool \<Rightarrow> bool \<times> originPool" where
  "appendIdle ic e p = (if e \<noteq> epoch p then (False, p) else (True, p\<lparr>idle := idle p @ [ic]\<rparr>))"

definition returnToken :: "originPool \<Rightarrow> originPool" where
  "returnToken p = p\<lparr>tokens := tokens p + 1\<rparr>"

definition putIdle :: "int \<Rightarrow> nat \<Rightarrow> nat \<Rightarrow> originPool \<Rightarrow> originPool" where
  "putIdle now c e p = returnToken (snd (appendIdle \<lparr>conn = c, since = now\<rparr> e p))"

text \<open>\<open>discard\<close> closes the connection and frees its slot.\<close>

definition discard :: "originPool \<Rightarrow> originPool" where
  "discard p = returnToken p"

definition CloseIdleConnections :: "originPool \<Rightarrow> originPool" where
  "CloseIdleConnections p = p\<lparr>idle := [], epoch := epoch p + 1\<rparr>"

subsection \<open>Callers running at once\<close>

text \<open>
  A caller is outside the pool, holds a token but no connection yet, is dialling, owns a connection
  (number, epoch, reused), has stamped it for return, has appended it but not yet released the token, or
  is closing it before releasing the token. Connections are numbered in the order they are dialled.
\<close>

datatype caller =
    Outside
  | Slot
  | Dialling nat
  | Owns nat nat bool
  | Returning nat nat int
  | Pooled
  | Dropping nat

record poolSystem =
  pool :: originPool
  clock :: int
  nextConn :: nat
  callers :: "caller list"

definition newSystem :: "nat \<Rightarrow> nat \<Rightarrow> poolSystem" where
  "newSystem n threads = \<lparr>pool = newPool n, clock = 0, nextConn = 0, callers = replicate threads Outside\<rparr>"

definition setCaller :: "nat \<Rightarrow> caller \<Rightarrow> poolSystem \<Rightarrow> poolSystem" where
  "setCaller t c s = s\<lparr>callers := (callers s)[t := c]\<rparr>"

definition acquireTake :: "int \<Rightarrow> nat \<Rightarrow> poolSystem \<Rightarrow> poolSystem" where
  "acquireTake idleTimeout t s =
     (case takeIdle idleTimeout (clock s) (pool s) of
        ((_, Some c, e), p) \<Rightarrow> setCaller t (Owns c e True) (s\<lparr>pool := p\<rparr>)
      | ((_, None, e), p) \<Rightarrow> setCaller t (Dialling e) (s\<lparr>pool := p\<rparr>))"

definition putAppend :: "nat \<Rightarrow> nat \<Rightarrow> nat \<Rightarrow> int \<Rightarrow> poolSystem \<Rightarrow> poolSystem" where
  "putAppend t c e at s =
     (case appendIdle \<lparr>conn = c, since = at\<rparr> e (pool s) of
        (True, p) \<Rightarrow> setCaller t Pooled (s\<lparr>pool := p\<rparr>)
      | (False, p) \<Rightarrow> setCaller t (Dropping c) (s\<lparr>pool := p\<rparr>))"

definition leave :: "nat \<Rightarrow> poolSystem \<Rightarrow> poolSystem" where
  "leave t s = setCaller t Outside (s\<lparr>pool := returnToken (pool s)\<rparr>)"

inductive pool_step :: "int \<Rightarrow> poolSystem \<Rightarrow> poolSystem \<Rightarrow> bool" for idleTimeout :: int where
  tick: "0 \<le> d \<Longrightarrow> pool_step idleTimeout s (s\<lparr>clock := clock s + d\<rparr>)"
| take_token: "t < length (callers s) \<Longrightarrow> callers s ! t = Outside \<Longrightarrow> 0 < tokens (pool s) \<Longrightarrow>
     pool_step idleTimeout s (setCaller t Slot (s\<lparr>pool := (pool s)\<lparr>tokens := tokens (pool s) - 1\<rparr>\<rparr>))"
| take_idle: "t < length (callers s) \<Longrightarrow> callers s ! t = Slot \<Longrightarrow>
     pool_step idleTimeout s (acquireTake idleTimeout t s)"
| dial_ok: "t < length (callers s) \<Longrightarrow> callers s ! t = Dialling e \<Longrightarrow>
     pool_step idleTimeout s (setCaller t (Owns (nextConn s) e False) (s\<lparr>nextConn := nextConn s + 1\<rparr>))"
| dial_fail: "t < length (callers s) \<Longrightarrow> callers s ! t = Dialling e \<Longrightarrow>
     pool_step idleTimeout s (leave t s)"
| stamp: "t < length (callers s) \<Longrightarrow> callers s ! t = Owns c e r \<Longrightarrow>
     pool_step idleTimeout s (setCaller t (Returning c e (clock s)) s)"
| put_append: "t < length (callers s) \<Longrightarrow> callers s ! t = Returning c e at \<Longrightarrow>
     pool_step idleTimeout s (putAppend t c e at s)"
| put_done: "t < length (callers s) \<Longrightarrow> callers s ! t = Pooled \<Longrightarrow>
     pool_step idleTimeout s (leave t s)"
| drop_conn: "t < length (callers s) \<Longrightarrow> callers s ! t = Owns c e r \<Longrightarrow>
     pool_step idleTimeout s (setCaller t (Dropping c) s)"
| drop_done: "t < length (callers s) \<Longrightarrow> callers s ! t = Dropping c \<Longrightarrow>
     pool_step idleTimeout s (leave t s)"
| close_idle: "pool_step idleTimeout s (s\<lparr>pool := CloseIdleConnections (pool s)\<rparr>)"

inductive_cases pool_stepE: "pool_step idleTimeout s u"

subsection \<open>Counting callers\<close>

definition count_callers :: "(caller \<Rightarrow> bool) \<Rightarrow> poolSystem \<Rightarrow> nat" where
  "count_callers P s = length (filter P (callers s))"

lemma filter_update_length:
  "i < length xs \<Longrightarrow> length (filter P (xs[i := y])) + (if P (xs ! i) then 1 else 0) =
     length (filter P xs) + (if P y then 1 else (0 :: nat))"
proof (induction xs arbitrary: i)
  case (Cons x xs)
  then show ?case by (cases i) auto
qed simp

lemma count_setCaller:
  "t < length (callers s) \<Longrightarrow> count_callers P (setCaller t c s) + (if P (callers s ! t) then 1 else 0) =
     count_callers P s + (if P c then 1 else 0)"
  by (simp add: count_callers_def setCaller_def filter_update_length)

lemma count_callers_simps [simp]:
  "count_callers P (s\<lparr>pool := a\<rparr>) = count_callers P s" "count_callers P (s\<lparr>clock := b\<rparr>) = count_callers P s"
  "count_callers P (s\<lparr>nextConn := d\<rparr>) = count_callers P s"
  by (simp_all add: count_callers_def)

lemma setCaller_simps [simp]:
  "pool (setCaller t c s) = pool s" "clock (setCaller t c s) = clock s"
  "nextConn (setCaller t c s) = nextConn s" "callers (setCaller t c s) = (callers s)[t := c]"
  by (simp_all add: setCaller_def)

lemmas pool_defs = returnToken_def CloseIdleConnections_def appendIdle_def putAppend_def leave_def

text \<open>What every client needs of \<open>takeIdle\<close>: the idle list splits into the expired, the reused and the
  rest, and nothing else of the pool changes.\<close>

lemma takeIdle_split:
  assumes "takeIdle tmo now p = ((stale, reuse, e), q)"
  shows "e = epoch p \<and> tokens q = tokens p \<and> epoch q = epoch p \<and> map conn (idle p) =
     stale @ (case reuse of None \<Rightarrow> [] | Some c \<Rightarrow> [c]) @ map conn (idle q) \<and> (reuse = None \<longrightarrow> idle q = [])"
proof -
  define k where "k = (if tmo > 0 \<and> idle p \<noteq> [] then expiredPrefix (now - tmo) (idle p) else 0)"
  have parts: "map conn (take k (idle p)) @ map conn (drop k (idle p)) = map conn (idle p)"
    by (metis append_take_drop_id map_append)
  have run: "((stale, reuse, e), q) = (case drop k (idle p) of
        [] \<Rightarrow> ((map conn (take k (idle p)), None, epoch p), p\<lparr>idle := []\<rparr>)
      | c # cs \<Rightarrow> ((map conn (take k (idle p)), Some (conn c), epoch p), p\<lparr>idle := cs\<rparr>))"
    using assms unfolding takeIdle_def Let_def k_def [symmetric] by (rule sym)
  show ?thesis
  proof (cases "drop k (idle p)")
    case Nil
    with run have "stale = map conn (take k (idle p))" "reuse = None" "e = epoch p" "q = p\<lparr>idle := []\<rparr>" by simp_all
    with parts Nil show ?thesis by simp
  next
    case (Cons c cs)
    with run have "stale = map conn (take k (idle p))" "reuse = Some (conn c)" "e = epoch p" "q = p\<lparr>idle := cs\<rparr>" by simp_all
    with parts Cons show ?thesis by simp
  qed
qed

lemma takeIdle_cases:
  obtains stale reuse q where "takeIdle tmo now p = ((stale, reuse, epoch p), q)"
    and "tokens q = tokens p" and "epoch q = epoch p"
    and "map conn (idle p) = stale @ (case reuse of None \<Rightarrow> [] | Some c \<Rightarrow> [c]) @ map conn (idle q)"
    and "reuse = None \<Longrightarrow> idle q = []"
proof -
  obtain stale reuse e q where "takeIdle tmo now p = ((stale, reuse, e), q)" by (metis prod.collapse)
  with takeIdle_split [OF this] show ?thesis by (intro that) auto
qed

subsection \<open>The connection limit\<close>

definition busy :: "caller \<Rightarrow> bool" where
  "busy c \<longleftrightarrow> c \<noteq> Outside"

definition waiting :: "caller \<Rightarrow> bool" where
  "waiting c \<longleftrightarrow> c = Slot \<or> c = Pooled"

text \<open>Every token is free or held, and an idle connection is always covered by a token that is free,
  just taken, or about to be released.\<close>

definition slots_ok :: "nat \<Rightarrow> poolSystem \<Rightarrow> bool" where
  "slots_ok n s \<longleftrightarrow> tokens (pool s) + count_callers busy s = n \<and>
     length (idle (pool s)) \<le> tokens (pool s) + count_callers waiting s"

text \<open>The connections the limit is about: idle, owned, being dialled, or being closed by their owner.\<close>

definition liveConns :: "poolSystem \<Rightarrow> nat" where
  "liveConns s = length (idle (pool s)) + count_callers (\<lambda>c. busy c \<and> \<not> waiting c) s"

lemma busy_waiting: "count_callers busy s = count_callers waiting s + count_callers (\<lambda>c. busy c \<and> \<not> waiting c) s"
proof -
  have "length (filter busy xs) = length (filter waiting xs) + length (filter (\<lambda>c. busy c \<and> \<not> waiting c) xs)" for xs
    by (induction xs) (auto simp: busy_def waiting_def)
  then show ?thesis by (simp add: count_callers_def)
qed

lemma slots_ok_bound: "slots_ok n s \<Longrightarrow> liveConns s \<le> n \<and> tokens (pool s) \<le> n"
  using busy_waiting [of s] by (simp add: slots_ok_def liveConns_def)

lemma count_initial: "\<not> P Outside \<Longrightarrow> count_callers P (newSystem n threads) = 0"
  by (simp add: count_callers_def newSystem_def)

lemma slots_ok_setCaller:
  assumes "slots_ok n s" and "t < length (callers s)"
    and "tokens p + (if busy c then 1 else 0) = tokens (pool s) + (if busy (callers s ! t) then 1 else 0)"
    and "length (idle p) + tokens (pool s) + (if waiting (callers s ! t) then 1 else 0) \<le>
         length (idle (pool s)) + tokens p + (if waiting c then 1 else 0) \<or>
         idle p = []"
  shows "slots_ok n (setCaller t c (s\<lparr>pool := p\<rparr>))"
proof -
  have eq: "count_callers P (setCaller t c (s\<lparr>pool := p\<rparr>)) = count_callers P (setCaller t c s)" for P
    by (simp add: count_callers_def)
  have "tokens p + count_callers busy (setCaller t c s) = n"
    using assms(1,2,3) count_setCaller [of t s busy c] by (simp add: slots_ok_def split: if_splits)
  moreover have "length (idle p) \<le> tokens p + count_callers waiting (setCaller t c s)"
    using assms(4)
  proof
    assume "length (idle p) + tokens (pool s) + (if waiting (callers s ! t) then 1 else 0) \<le>
         length (idle (pool s)) + tokens p + (if waiting c then 1 else 0)"
    then show ?thesis
      using assms(1,2) count_setCaller [of t s waiting c] by (simp add: slots_ok_def)
  qed simp
  ultimately show ?thesis by (simp add: slots_ok_def eq)
qed

lemma slots_ok_acquireTake:
  assumes ok: "slots_ok n s" and t: "t < length (callers s)" and st: "callers s ! t = Slot"
  shows "slots_ok n (acquireTake tmo t s)"
proof (rule takeIdle_cases [of tmo "clock s" "pool s"])
  fix stale reuse q
  assume run: "takeIdle tmo (clock s) (pool s) = ((stale, reuse, epoch (pool s)), q)"
    and toks: "tokens q = tokens (pool s)"
    and parts: "map conn (idle (pool s)) = stale @ (case reuse of None \<Rightarrow> [] | Some c \<Rightarrow> [c]) @ map conn (idle q)"
    and none: "reuse = None \<Longrightarrow> idle q = []"
  show ?thesis
  proof (cases reuse)
    case None
    with none run toks show ?thesis
      by (auto simp: acquireTake_def st busy_def intro!: slots_ok_setCaller [OF ok t])
  next
    case (Some c)
    with arg_cong [OF parts, of length] have "length (idle q) < length (idle (pool s))" by simp
    with Some run toks show ?thesis
      by (auto simp: acquireTake_def st busy_def waiting_def intro!: slots_ok_setCaller [OF ok t])
  qed
qed

lemma slots_ok_swap:
  assumes "slots_ok n s" and "t < length (callers s)"
    and "busy (callers s ! t) \<and> \<not> waiting (callers s ! t)" and "busy c \<and> \<not> waiting c"
  shows "slots_ok n (setCaller t c s)" and "slots_ok n (setCaller t c (s\<lparr>nextConn := k\<rparr>))"
proof -
  show ok: "slots_ok n (setCaller t c s)"
    using slots_ok_setCaller [OF assms(1,2), of "pool s" c] assms(3,4) by simp
  then show "slots_ok n (setCaller t c (s\<lparr>nextConn := k\<rparr>))"
    by (simp add: slots_ok_def count_callers_def)
qed

lemma slots_ok_quiet:
  assumes "slots_ok n s"
  shows "slots_ok n (s\<lparr>clock := x\<rparr>)" and "slots_ok n (s\<lparr>pool := CloseIdleConnections (pool s)\<rparr>)"
  using assms by (simp_all add: slots_ok_def CloseIdleConnections_def)

lemma slots_ok_step: "slots_ok n s \<Longrightarrow> pool_step tmo s u \<Longrightarrow> slots_ok n u"
  by (erule pool_stepE; hypsubst)
     (auto simp: returnToken_def appendIdle_def putAppend_def leave_def busy_def waiting_def
        intro!: slots_ok_swap slots_ok_quiet slots_ok_acquireTake slots_ok_setCaller)

lemma slots_ok_newSystem: "slots_ok n (newSystem n threads)"
  by (simp add: slots_ok_def count_initial busy_def waiting_def) (simp add: newSystem_def newPool_def)

interpretation poolLimit: transition_system "\<lambda>s. s = newSystem n threads" "pool_step tmo" "slots_ok n"
  for n threads tmo
  by unfold_locales (auto intro: slots_ok_newSystem slots_ok_step)

text \<open>C16. However callers interleave acquiring, dialling, returning, discarding and \<open>CloseIdleConnections\<close>,
  an origin never has more idle, dialling, owned and closing connections than its limit, and the
  token channel never holds more tokens than its capacity, so no release blocks.\<close>
theorem pool_connection_limit:
  assumes "(pool_step idleTimeout)\<^sup>*\<^sup>* (newSystem n threads) s"
  shows "liveConns s \<le> n \<and> tokens (pool s) \<le> n"
  by (rule slots_ok_bound [OF poolLimit.inv_reachable [OF refl assms]])

subsection \<open>Exclusive ownership\<close>

definition holds :: "nat \<Rightarrow> caller \<Rightarrow> bool" where
  "holds k c \<longleftrightarrow> (\<exists>e r. c = Owns k e r) \<or> (\<exists>e at. c = Returning k e at) \<or> c = Dropping k"

definition places :: "nat \<Rightarrow> poolSystem \<Rightarrow> nat" where
  "places k s = length (filter (\<lambda>i. conn i = k) (idle (pool s))) + count_callers (holds k) s"

definition exclusive :: "poolSystem \<Rightarrow> bool" where
  "exclusive s \<longleftrightarrow> (\<forall>k. places k s \<le> (if k < nextConn s then 1 else 0))"

lemma holds_simps [simp]:
  "\<not> holds k Outside" "\<not> holds k Slot" "\<not> holds k (Dialling e)" "\<not> holds k Pooled"
  "holds k (Owns c e r) \<longleftrightarrow> c = k" "holds k (Returning c e at) \<longleftrightarrow> c = k" "holds k (Dropping c) \<longleftrightarrow> c = k"
  by (auto simp: holds_def)

lemma exclusive_setCaller:
  assumes "exclusive s" and "t < length (callers s)" and "nextConn s \<le> m"
    and "\<And>k. length (filter (\<lambda>i. conn i = k) (idle p)) + (if holds k c then 1 else 0) \<le>
       length (filter (\<lambda>i. conn i = k) (idle (pool s))) + (if holds k (callers s ! t) then 1 else 0) +
       (if nextConn s \<le> k \<and> k < m then 1 else 0)"
  shows "exclusive (setCaller t c (s\<lparr>pool := p, nextConn := m\<rparr>))"
  unfolding exclusive_def
proof
  fix k
  have "count_callers (holds k) (setCaller t c (s\<lparr>pool := p, nextConn := m\<rparr>)) = count_callers (holds k) (setCaller t c s)"
    by (simp add: count_callers_def)
  moreover have "places k s \<le> (if k < nextConn s then 1 else 0)" using assms(1) by (simp add: exclusive_def)
  ultimately show "places k (setCaller t c (s\<lparr>pool := p, nextConn := m\<rparr>)) \<le>
      (if k < nextConn (setCaller t c (s\<lparr>pool := p, nextConn := m\<rparr>)) then 1 else 0)"
    using assms(4) [of k] assms(3) count_setCaller [OF assms(2), of "holds k" c] by (simp add: places_def split: if_splits)
qed

lemma length_filter_conn: "length (filter (\<lambda>i. conn i = k) xs) = count_list (map conn xs) k"
  by (induction xs) auto

lemma exclusive_pool:
  assumes "exclusive s" and "t < length (callers s)"
    and "\<And>k. count_list (map conn (idle p)) k + (if holds k c then 1 else 0) \<le>
       count_list (map conn (idle (pool s))) k + (if holds k (callers s ! t) then 1 else 0)"
  shows "exclusive (setCaller t c (s\<lparr>pool := p\<rparr>))"
proof -
  have "s\<lparr>pool := p, nextConn := nextConn s\<rparr> = s\<lparr>pool := p\<rparr>" by simp
  with exclusive_setCaller [of s t "nextConn s" p c] assms show ?thesis by (simp add: length_filter_conn)
qed

lemma exclusive_swap:
  "exclusive s \<Longrightarrow> t < length (callers s) \<Longrightarrow> (\<And>k. holds k c = holds k (callers s ! t)) \<Longrightarrow> exclusive (setCaller t c s)"
  using exclusive_pool [of s t "pool s" c] by simp

lemma exclusive_dial:
  "exclusive s \<Longrightarrow> t < length (callers s) \<Longrightarrow> callers s ! t = Dialling e \<Longrightarrow>
     exclusive (setCaller t (Owns (nextConn s) e False) (s\<lparr>nextConn := nextConn s + 1\<rparr>))"
  using exclusive_setCaller [of s t "nextConn s + 1" "pool s" "Owns (nextConn s) e False"] by simp

lemma exclusive_acquireTake:
  assumes "exclusive s" and "t < length (callers s)" and "callers s ! t = Slot"
  shows "exclusive (acquireTake tmo t s)"
proof (rule takeIdle_cases [of tmo "clock s" "pool s"])
  fix stale reuse q
  assume "takeIdle tmo (clock s) (pool s) = ((stale, reuse, epoch (pool s)), q)"
    and "map conn (idle (pool s)) = stale @ (case reuse of None \<Rightarrow> [] | Some c \<Rightarrow> [c]) @ map conn (idle q)"
  then show ?thesis
    by (auto simp: acquireTake_def assms(3) split: option.split intro!: exclusive_pool [OF assms(1,2)])
qed

lemma exclusive_mono:
  "exclusive s \<Longrightarrow> nextConn u = nextConn s \<Longrightarrow> (\<And>k. places k u \<le> places k s) \<Longrightarrow> exclusive u"
  unfolding exclusive_def by (metis order.trans)

lemma exclusive_quiet:
  assumes "exclusive s"
  shows "exclusive (s\<lparr>clock := x\<rparr>)" and "exclusive (s\<lparr>pool := CloseIdleConnections (pool s)\<rparr>)"
  by (rule exclusive_mono [OF assms]; simp add: places_def CloseIdleConnections_def)+

lemma exclusive_step: "exclusive s \<Longrightarrow> pool_step tmo s u \<Longrightarrow> exclusive u"
  by (erule pool_stepE; hypsubst)
     (auto simp: returnToken_def appendIdle_def putAppend_def leave_def simp del: Suc_eq_plus1 Suc_eq_plus1_left
        intro!: exclusive_swap exclusive_dial [simplified] exclusive_quiet exclusive_acquireTake exclusive_pool)

lemma exclusive_newSystem: "exclusive (newSystem n threads)"
  by (simp add: exclusive_def places_def count_initial) (simp add: newSystem_def newPool_def)

interpretation poolOwners: transition_system "\<lambda>s. s = newSystem n threads" "pool_step tmo" exclusive
  for n threads tmo
  by unfold_locales (auto intro: exclusive_newSystem exclusive_step)

text \<open>C17. A connection is never in two hands: in every reachable state it is pooled at most once, held by
  at most one caller, and never pooled while held; a number not dialled yet is nowhere.\<close>
theorem pool_connection_exclusive:
  assumes "(pool_step idleTimeout)\<^sup>*\<^sup>* (newSystem n threads) s"
  shows "places k s \<le> 1 \<and> (nextConn s \<le> k \<longrightarrow> places k s = 0)"
  using poolOwners.inv_reachable [OF refl assms] by (auto simp: exclusive_def dest!: spec [of _ k] split: if_splits)

subsection \<open>Closing idle connections\<close>

text \<open>After \<open>CloseIdleConnections\<close> at epoch \<open>e0\<close>, with \<open>m\<close> connections dialled so far: their owners carry an
  older epoch, so none of them comes back.\<close>

fun ownedBefore :: "nat \<Rightarrow> nat \<Rightarrow> caller \<Rightarrow> bool" where
  "ownedBefore m e0 (Owns k e _) \<longleftrightarrow> m \<le> k \<or> e < e0"
| "ownedBefore m e0 (Returning k e _) \<longleftrightarrow> m \<le> k \<or> e < e0"
| "ownedBefore m e0 _ \<longleftrightarrow> True"

fun withinEpoch :: "nat \<Rightarrow> caller \<Rightarrow> bool" where
  "withinEpoch E (Owns _ e _) \<longleftrightarrow> e \<le> E"
| "withinEpoch E (Returning _ e _) \<longleftrightarrow> e \<le> E"
| "withinEpoch E (Dialling e) \<longleftrightarrow> e \<le> E"
| "withinEpoch E _ \<longleftrightarrow> True"

definition retired :: "nat \<Rightarrow> nat \<Rightarrow> poolSystem \<Rightarrow> bool" where
  "retired m e0 s \<longleftrightarrow> e0 \<le> epoch (pool s) \<and> m \<le> nextConn s \<and> list_all (\<lambda>i. m \<le> i) (map conn (idle (pool s))) \<and>
     list_all (ownedBefore m e0) (callers s)"

definition epochs_ok :: "poolSystem \<Rightarrow> bool" where
  "epochs_ok s \<longleftrightarrow> list_all (withinEpoch (epoch (pool s))) (callers s)"

lemma list_all_update: "list_all P xs \<Longrightarrow> P y \<Longrightarrow> list_all P (xs[i := y])"
  by (auto simp: list_all_iff dest: in_set_update_cases)

lemma list_all_nthD: "list_all P xs \<Longrightarrow> i < length xs \<Longrightarrow> P (xs ! i)"
  by (simp add: list_all_length)

lemma withinEpoch_Suc: "list_all (withinEpoch E) cs \<Longrightarrow> list_all (withinEpoch (Suc E)) cs"
proof (induction cs)
  case (Cons c cs)
  then show ?case by (cases c) auto
qed simp

lemma epochs_ok_acquireTake: "epochs_ok s \<Longrightarrow> epochs_ok (acquireTake tmo t s)"
  by (rule takeIdle_cases [of tmo "clock s" "pool s"])
     (auto simp: acquireTake_def epochs_ok_def intro!: list_all_update split: option.split)

lemma epochs_ok_step: "epochs_ok s \<Longrightarrow> pool_step tmo s u \<Longrightarrow> epochs_ok u"
  by (erule pool_stepE; hypsubst)
     (force simp: epochs_ok_acquireTake
      | force simp: epochs_ok_def pool_defs withinEpoch_Suc intro!: list_all_update dest: list_all_nthD)+

lemma epochs_ok_newSystem: "epochs_ok (newSystem n threads)"
  by (simp add: epochs_ok_def newSystem_def list_all_length)

interpretation poolEpochs: transition_system "\<lambda>s. s = newSystem n threads" "pool_step tmo" epochs_ok
  for n threads tmo
  by unfold_locales (auto intro: epochs_ok_newSystem epochs_ok_step)

lemma retired_acquireTake: "retired m e0 s \<Longrightarrow> retired m e0 (acquireTake tmo t s)"
  by (rule takeIdle_cases [of tmo "clock s" "pool s"])
     (auto simp: acquireTake_def retired_def intro!: list_all_update split: option.split option.splits)

lemma retired_step: "retired m e0 s \<Longrightarrow> pool_step tmo s u \<Longrightarrow> retired m e0 u"
  by (erule pool_stepE; hypsubst)
     (force simp: retired_acquireTake
      | force simp: retired_def pool_defs intro!: list_all_update dest: list_all_nthD)+

lemma retired_close: "epochs_ok s \<Longrightarrow> retired (nextConn s) (Suc (epoch (pool s))) (s\<lparr>pool := CloseIdleConnections (pool s)\<rparr>)"
proof -
  have "withinEpoch E c \<Longrightarrow> ownedBefore m (Suc E) c" for E c m by (cases c) auto
  then show "epochs_ok s \<Longrightarrow> ?thesis"
    by (auto simp: epochs_ok_def retired_def CloseIdleConnections_def list_all_iff)
qed

interpretation poolRetired: transition_system "retired m e0" "pool_step tmo" "retired m e0"
  for m e0 tmo
  by unfold_locales (auto intro: retired_step)

text \<open>C18. Once \<open>CloseIdleConnections\<close> has run, no connection dialled before it is ever pooled again: whatever
  the callers that still own one do, every connection found idle later was dialled afterwards.\<close>
theorem close_idle_retires_all:
  assumes "(pool_step idleTimeout)\<^sup>*\<^sup>* (newSystem n threads) s"
    and "(pool_step idleTimeout)\<^sup>*\<^sup>* (s\<lparr>pool := CloseIdleConnections (pool s)\<rparr>) u"
  shows "list_all (\<lambda>i. nextConn s \<le> conn i) (idle (pool u))"
  using poolRetired.inv_reachable [OF retired_close [OF poolEpochs.inv_reachable [OF refl assms(1)]] assms(2)]
  by (simp add: retired_def list.pred_map comp_def)

subsection \<open>A concrete run\<close>

text \<open>Two callers dial one connection each; the first stamps its connection, the second stamps later but
  enters the critical section first.\<close>

definition demoPool :: "originPool \<Rightarrow> int \<Rightarrow> caller \<Rightarrow> caller \<Rightarrow> nat \<Rightarrow> poolSystem" where
  "demoPool p now a b k = \<lparr>pool = p, clock = now, nextConn = k, callers = [a, b]\<rparr>"

lemma demo_owned: "(pool_step tmo)\<^sup>*\<^sup>* (newSystem 2 2) (demoPool \<lparr>tokens = 0, idle = [], epoch = 0\<rparr> 0 (Owns 0 0 False) (Owns 1 0 False) 2)"
proof -
  let ?p = "\<lambda>n. \<lparr>tokens = n, idle = [], epoch = 0\<rparr>"
  have start: "newSystem 2 2 = demoPool (?p 2) 0 Outside Outside 0"
    by (simp add: newSystem_def newPool_def demoPool_def numeral_2_eq_2)
  have "pool_step tmo (demoPool (?p 2) 0 Outside Outside 0) (demoPool (?p 1) 0 Slot Outside 0)"
    using take_token [of 0 "demoPool (?p 2) 0 Outside Outside 0" tmo] by (simp add: demoPool_def setCaller_def)
  moreover have "pool_step tmo (demoPool (?p 1) 0 Slot Outside 0) (demoPool (?p 0) 0 Slot Slot 0)"
    using take_token [of 1 "demoPool (?p 1) 0 Slot Outside 0" tmo] by (simp add: demoPool_def setCaller_def)
  moreover have "pool_step tmo (demoPool (?p 0) 0 Slot Slot 0) (demoPool (?p 0) 0 (Dialling 0) Slot 0)"
    using take_idle [of 0 "demoPool (?p 0) 0 Slot Slot 0" tmo] by (simp add: demoPool_def setCaller_def acquireTake_def takeIdle_def)
  moreover have "pool_step tmo (demoPool (?p 0) 0 (Dialling 0) Slot 0) (demoPool (?p 0) 0 (Dialling 0) (Dialling 0) 0)"
    using take_idle [of 1 "demoPool (?p 0) 0 (Dialling 0) Slot 0" tmo]
    by (simp add: demoPool_def setCaller_def acquireTake_def takeIdle_def)
  moreover have "pool_step tmo (demoPool (?p 0) 0 (Dialling 0) (Dialling 0) 0) (demoPool (?p 0) 0 (Owns 0 0 False) (Dialling 0) 1)"
    using dial_ok [of 0 "demoPool (?p 0) 0 (Dialling 0) (Dialling 0) 0" 0 tmo] by (simp add: demoPool_def setCaller_def)
  moreover have "pool_step tmo (demoPool (?p 0) 0 (Owns 0 0 False) (Dialling 0) 1) (demoPool (?p 0) 0 (Owns 0 0 False) (Owns 1 0 False) 2)"
    using dial_ok [of 1 "demoPool (?p 0) 0 (Owns 0 0 False) (Dialling 0) 1" 0 tmo]
    by (simp add: demoPool_def setCaller_def numeral_2_eq_2)
  ultimately show ?thesis unfolding start by (meson rtranclp.rtrancl_refl converse_rtranclp_into_rtranclp)
qed

lemma demo_inverted: "(pool_step tmo)\<^sup>*\<^sup>* (newSystem 2 2)
   (demoPool \<lparr>tokens = 0, idle = [\<lparr>conn = 1, since = 5\<rparr>, \<lparr>conn = 0, since = 0\<rparr>], epoch = 0\<rparr> 5 Pooled Pooled 2)"
proof -
  let ?p = "\<lambda>xs. \<lparr>tokens = 0, idle = xs, epoch = 0\<rparr>"
  note demo_owned [of tmo]
  also have "pool_step tmo (demoPool (?p []) 0 (Owns 0 0 False) (Owns 1 0 False) 2) (demoPool (?p []) 0 (Returning 0 0 0) (Owns 1 0 False) 2)"
    using stamp [of 0 "demoPool (?p []) 0 (Owns 0 0 False) (Owns 1 0 False) 2" 0 0 False tmo] by (simp add: demoPool_def setCaller_def)
  also have "pool_step tmo (demoPool (?p []) 0 (Returning 0 0 0) (Owns 1 0 False) 2) (demoPool (?p []) 5 (Returning 0 0 0) (Owns 1 0 False) 2)"
    using tick [of 5 tmo "demoPool (?p []) 0 (Returning 0 0 0) (Owns 1 0 False) 2"] by (simp add: demoPool_def)
  also have "pool_step tmo (demoPool (?p []) 5 (Returning 0 0 0) (Owns 1 0 False) 2) (demoPool (?p []) 5 (Returning 0 0 0) (Returning 1 0 5) 2)"
    using stamp [of 1 "demoPool (?p []) 5 (Returning 0 0 0) (Owns 1 0 False) 2" 1 0 False tmo] by (simp add: demoPool_def setCaller_def)
  also have "pool_step tmo (demoPool (?p []) 5 (Returning 0 0 0) (Returning 1 0 5) 2)
      (demoPool (?p [\<lparr>conn = 1, since = 5\<rparr>]) 5 (Returning 0 0 0) Pooled 2)"
    using put_append [of 1 "demoPool (?p []) 5 (Returning 0 0 0) (Returning 1 0 5) 2" 1 0 5 tmo]
    by (simp add: demoPool_def setCaller_def putAppend_def appendIdle_def)
  also have "pool_step tmo (demoPool (?p [\<lparr>conn = 1, since = 5\<rparr>]) 5 (Returning 0 0 0) Pooled 2)
      (demoPool (?p [\<lparr>conn = 1, since = 5\<rparr>, \<lparr>conn = 0, since = 0\<rparr>]) 5 Pooled Pooled 2)"
    using put_append [of 0 "demoPool (?p [\<lparr>conn = 1, since = 5\<rparr>]) 5 (Returning 0 0 0) Pooled 2" 0 0 0 tmo]
    by (simp add: demoPool_def setCaller_def putAppend_def appendIdle_def)
  finally show ?thesis .
qed

theorem pool_connection_limit_witness:
  "liveConns (demoPool \<lparr>tokens = 0, idle = [], epoch = 0\<rparr> 0 (Owns 0 0 False) (Owns 1 0 False) 2) = 2"
proof -
  let ?s = "demoPool \<lparr>tokens = 0, idle = [], epoch = 0\<rparr> 0 (Owns 0 0 False) (Owns 1 0 False) 2"
  have "liveConns ?s \<le> 2" using pool_connection_limit [OF demo_owned] by simp
  moreover have "2 \<le> liveConns ?s"
    by (simp add: liveConns_def demoPool_def count_callers_def busy_def waiting_def)
  ultimately show ?thesis by simp
qed

theorem pool_connection_exclusive_witness:
  "places 1 (demoPool \<lparr>tokens = 0, idle = [\<lparr>conn = 1, since = 5\<rparr>, \<lparr>conn = 0, since = 0\<rparr>], epoch = 0\<rparr> 5 Pooled Pooled 2) = 1"
proof -
  let ?s = "demoPool \<lparr>tokens = 0, idle = [\<lparr>conn = 1, since = 5\<rparr>, \<lparr>conn = 0, since = 0\<rparr>], epoch = 0\<rparr> 5 Pooled Pooled 2"
  have "places 1 ?s \<le> 1" using pool_connection_exclusive [OF demo_inverted, of 1] by simp
  moreover have "1 \<le> places 1 ?s" by (simp add: places_def demoPool_def)
  ultimately show ?thesis by simp
qed

theorem close_idle_retires_all_witness:
  "list_all (\<lambda>i. 2 \<le> conn i) (idle (pool ((demoPool \<lparr>tokens = 0, idle = [], epoch = 0\<rparr> 0 (Owns 0 0 False) (Owns 1 0 False) 2)
     \<lparr>pool := \<lparr>tokens = 0, idle = [], epoch = 1\<rparr>\<rparr>)))"
proof -
  let ?s = "demoPool \<lparr>tokens = 0, idle = [], epoch = 0\<rparr> 0 (Owns 0 0 False) (Owns 1 0 False) 2"
  have "list_all (\<lambda>i. nextConn ?s \<le> conn i) (idle (pool (?s\<lparr>pool := CloseIdleConnections (pool ?s)\<rparr>)))"
    by (rule close_idle_retires_all [OF demo_owned rtranclp.rtrancl_refl])
  then show ?thesis by (simp add: demoPool_def CloseIdleConnections_def)
qed

subsection \<open>Eviction\<close>

lemma expiredPrefix_sorted:
  "sorted (map since cs) \<Longrightarrow> take (expiredPrefix cutoff cs) cs = filter (\<lambda>c. since c < cutoff) cs \<and>
     drop (expiredPrefix cutoff cs) cs = filter (\<lambda>c. \<not> since c < cutoff) cs"
proof (induction cs)
  case (Cons c cs)
  show ?case
  proof (cases "since c < cutoff")
    case False
    with Cons.prems have "filter (\<lambda>c. since c < cutoff) cs = []" "filter (\<lambda>c. \<not> since c < cutoff) cs = cs"
      by (auto simp: filter_empty_conv filter_id_conv)
    with False show ?thesis by simp
  qed (use Cons in simp)
qed simp

text \<open>On an idle list in stamp order, \<open>takeIdle\<close> evicts exactly the connections idle for longer than the
  timeout, reuses the oldest of the others and leaves the rest in order.\<close>
theorem takeIdle_evicts_expired:
  assumes "sorted (map since (idle p))" and "0 < idleTimeout"
  shows "takeIdle idleTimeout now p =
     (let live = filter (\<lambda>c. now - since c \<le> idleTimeout) (idle p) in
      ((map conn (filter (\<lambda>c. idleTimeout < now - since c) (idle p)),
        (case live of [] \<Rightarrow> None | c # _ \<Rightarrow> Some (conn c)), epoch p), p\<lparr>idle := tl live\<rparr>))"
proof -
  let ?k = "expiredPrefix (now - idleTimeout) (idle p)"
  have k: "(if idleTimeout > 0 \<and> idle p \<noteq> [] then ?k else 0) = ?k" using assms(2) by auto
  have "filter (\<lambda>c. \<not> since c < now - idleTimeout) (idle p) = filter (\<lambda>c. now - since c \<le> idleTimeout) (idle p)"
    and "filter (\<lambda>c. since c < now - idleTimeout) (idle p) = filter (\<lambda>c. idleTimeout < now - since c) (idle p)"
    by (auto intro: filter_cong)
  with expiredPrefix_sorted [OF assms(1), of "now - idleTimeout"]
  have "take ?k (idle p) = filter (\<lambda>c. idleTimeout < now - since c) (idle p)"
    and "drop ?k (idle p) = filter (\<lambda>c. now - since c \<le> idleTimeout) (idle p)" by simp_all
  then show ?thesis unfolding takeIdle_def k Let_def by (auto split: list.split)
qed

theorem takeIdle_evicts_expired_witness:
  "takeIdle 10 12 \<lparr>tokens = 0, idle = [\<lparr>conn = 0, since = 0\<rparr>, \<lparr>conn = 1, since = 5\<rparr>], epoch = 3\<rparr> =
     (([0], Some 1, 3), \<lparr>tokens = 0, idle = [], epoch = 3\<rparr>)"
  by (subst takeIdle_evicts_expired) simp_all

text \<open>C29. The stamp order is not guaranteed: \<open>putIdle\<close> reads the clock before it takes the lock, so two callers
  can append in the opposite order, and then \<open>takeIdle\<close> hands out a live connection while one idle for longer
  than the timeout stays pooled behind it.\<close>
theorem idle_stamps_can_invert:
  "\<exists>s. (pool_step 10)\<^sup>*\<^sup>* (newSystem 2 2) s \<and> \<not> sorted (map since (idle (pool s))) \<and>
     takeIdle 10 12 (pool s) = (([], Some 1, 0), (pool s)\<lparr>idle := [\<lparr>conn = 0, since = 0\<rparr>]\<rparr>)"
  by (rule exI, intro conjI, rule demo_inverted) (simp_all add: demoPool_def takeIdle_def)

end
