(* ===== verification/ConnUse.thy ===== *)
theory ConnUse
  imports Pool ResponseCollect "HOL-Library.Sublist"
begin

text \<open>
  What a caller does with a pooled connection: \<open>http2conn.attempt\<close> and the retry loop \<open>Transport.sendBatch\<close>
  (\<open>tth2/transport.go\<close>), \<open>Transport.Ping\<close> (\<open>tth2/ping.go\<close>), \<open>Client.Acquire\<close> and the \<open>ConnLease\<close> methods
  (\<open>tth2/lease.go\<close>), and \<open>connOwner\<close> (\<open>tth2/connection_owner.go\<close>). What the network and the clock do in one
  turn of a loop, and what other callers do to the pool meanwhile, is the \<open>turn\<close> record of that turn.
\<close>

datatype sendErr =
    ContextErr
  | DialErr
  | PumpErr
  | PeerStreamLimitErr
  | StreamIDsErr
  | WriteErr
  | DispatchReset StreamError
  | BatchTimeoutErr
  | CollectErr collect_error
  | ResetErr StreamError

fun isLocalBatchTermination :: "sendErr \<Rightarrow> bool" where
  "isLocalBatchTermination BatchTimeoutErr \<longleftrightarrow> True"
| "isLocalBatchTermination (CollectErr (BodyLimit _ _ _ _)) \<longleftrightarrow> True"
| "isLocalBatchTermination (CollectErr BatchTimeout) \<longleftrightarrow> True"
| "isLocalBatchTermination _ \<longleftrightarrow> False"

subsection \<open>One attempt\<close>

text \<open>The stages of an attempt, in the order the code runs them: the pump's error, the peer stream limit,
  stream allocation, activating the response read, dispatch (with whether the header record was
  flushed), and the collected responses.\<close>

record stages =
  pumpErr :: "sendErr option"
  limitErr :: "sendErr option"
  allocErr :: "sendErr option"
  activateErr :: "sendErr option"
  headersSent :: bool
  dispatchErr :: "sendErr option"
  collected :: "collect_error + (Result list \<times> StreamError option)"

datatype attemptOutcome = Outcome "BatchResult option" bool bool "sendErr option"

primrec outBatch :: "attemptOutcome \<Rightarrow> BatchResult option" where "outBatch (Outcome b h k e) = b"
primrec outHeaders :: "attemptOutcome \<Rightarrow> bool" where "outHeaders (Outcome b h k e) = h"
primrec keepConn :: "attemptOutcome \<Rightarrow> bool" where "keepConn (Outcome b h k e) = k"
primrec outErr :: "attemptOutcome \<Rightarrow> sendErr option" where "outErr (Outcome b h k e) = e"

definition attempt :: "nat \<Rightarrow> stages \<Rightarrow> batch_panic + attemptOutcome" where
  "attempt cid st =
     (case pumpErr st of Some e \<Rightarrow> Inr (Outcome None False False (Some e)) | None \<Rightarrow>
      case limitErr st of Some e \<Rightarrow> Inr (Outcome None False True (Some e)) | None \<Rightarrow>
      case allocErr st of Some e \<Rightarrow> Inr (Outcome None False False (Some e)) | None \<Rightarrow>
      case activateErr st of Some e \<Rightarrow> Inr (Outcome None False False (Some e)) | None \<Rightarrow>
      case dispatchErr st of Some e \<Rightarrow> Inr (Outcome None (headersSent st) False (Some e)) | None \<Rightarrow>
      case collected st of
        Inl e \<Rightarrow> Inr (Outcome None (headersSent st) False (Some (CollectErr e)))
      | Inr (rs, se) \<Rightarrow>
          (case newBatchResult rs of
             Inl p \<Rightarrow> Inl p
           | Inr b \<Rightarrow> Inr (Outcome (Some (b\<lparr>Connection := int cid\<rparr>)) (headersSent st) True (map_option ResetErr se))))"

subsection \<open>The other callers\<close>

text \<open>
  The pool is shared. Between any two of a caller's own critical sections and channel operations other callers
  run theirs: they take tokens, take idle connections, append connections, release tokens, and close the idle
  connections. The state is the pool with the number of slots the others hold; taking idle connections, appending
  and releasing are theirs only while they hold a slot.
\<close>

datatype poolAct =
    TakesToken
  | TakesIdle int
  | Appends idleConn nat
  | ReleasesToken
  | ClosesIdle

type_synonym shared = "originPool \<times> nat"

fun otherAct :: "int \<Rightarrow> shared \<Rightarrow> poolAct \<Rightarrow> shared" where
  "otherAct idleTimeout (p, h) TakesToken =
     (if tokens p = 0 then (p, h) else (p\<lparr>tokens := tokens p - 1\<rparr>, h + 1))"
| "otherAct idleTimeout (p, h) (TakesIdle at) = (if h = 0 then (p, h) else (snd (takeIdle idleTimeout at p), h))"
| "otherAct idleTimeout (p, h) (Appends ic e) = (if h = 0 then (p, h) else (snd (appendIdle ic e p), h))"
| "otherAct idleTimeout (p, h) ReleasesToken = (if h = 0 then (p, h) else (returnToken p, h - 1))"
| "otherAct idleTimeout (p, h) ClosesIdle = (CloseIdleConnections p, h)"

definition others :: "int \<Rightarrow> poolAct list \<Rightarrow> shared \<Rightarrow> shared" where
  "others idleTimeout acts s = foldl (otherAct idleTimeout) s acts"

fun appendedBy :: "poolAct \<Rightarrow> nat list" where
  "appendedBy (Appends ic e) = [conn ic]"
| "appendedBy _ = []"

definition appended :: "poolAct list \<Rightarrow> nat list" where
  "appended acts = concat (map appendedBy acts)"

definition slots :: "shared \<Rightarrow> nat" where
  "slots s = tokens (fst s) + snd s"

lemma others_simps [simp]: "others tmo [] s = s" "others tmo (a # acts) s = others tmo acts (otherAct tmo s a)"
  by (simp_all add: others_def)

lemma others_append: "others tmo (as @ bs) s = others tmo bs (others tmo as s)"
  by (simp add: others_def)

lemma appended_simps [simp]: "appended [] = []" "appended (a # acts) = appendedBy a @ appended acts"
  "appended (as @ bs) = appended as @ appended bs"
  by (simp_all add: appended_def)

lemma takeIdle_rest:
  "tokens (snd (takeIdle tmo at p)) = tokens p" "subseq (map conn (idle (snd (takeIdle tmo at p)))) (map conn (idle p))"
  by (rule takeIdle_cases [of tmo at p], simp_all add: list_emb_append2)+

lemma otherAct_idle: "subseq (map conn (idle (fst (otherAct tmo s a)))) (map conn (idle (fst s)) @ appendedBy a)"
proof (cases s)
  case (Pair p h)
  then show ?thesis
  proof (cases a)
    case (TakesIdle at)
    with Pair takeIdle_rest(2) [of tmo at p] show ?thesis by (simp add: list_emb_prefix)
  next
    case (Appends ic e)
    with Pair show ?thesis by (simp add: appendIdle_def list_emb_prefix)
  qed (simp_all add: returnToken_def CloseIdleConnections_def list_emb_prefix)
qed

lemma otherAct_slots: "slots (otherAct tmo s a) = slots s"
  by (cases s; cases a) (simp_all add: slots_def takeIdle_rest appendIdle_def returnToken_def CloseIdleConnections_def)

lemmas otherAct_spec = conjI [OF otherAct_slots otherAct_idle]

lemma others_spec:
  "slots (others tmo acts s) = slots s \<and>
   subseq (map conn (idle (fst (others tmo acts s)))) (map conn (idle (fst s)) @ appended acts)"
proof (induction acts arbitrary: s)
  case (Cons a acts)
  let ?s = "otherAct tmo s a"
  have "subseq (map conn (idle (fst (others tmo acts ?s)))) (map conn (idle (fst ?s)) @ appended acts)" using Cons.IH by blast
  also have "subseq \<dots> ((map conn (idle (fst s)) @ appendedBy a) @ appended acts)"
    using otherAct_spec [of tmo s a] by (intro list_emb_append_mono) auto
  finally have "subseq (map conn (idle (fst (others tmo acts ?s)))) (map conn (idle (fst s)) @ appended (a # acts))"
    by simp
  then show ?case using Cons.IH [of ?s] otherAct_spec [of tmo s a] by simp
qed simp

text \<open>Every step of the pool's transition system is one of these actions, or changes nothing the pool shows, so the
  lists of actions cover whatever any number of callers do.\<close>

definition holders :: "poolSystem \<Rightarrow> nat" where
  "holders s = count_callers (\<lambda>c. c \<noteq> Outside) s"

lemma holders_pos: "t < length (callers s) \<Longrightarrow> callers s ! t \<noteq> Outside \<Longrightarrow> 0 < holders s"
  by (auto simp: holders_def count_callers_def filter_empty_conv dest: nth_mem)

lemma holders_setCaller:
  "t < length (callers s) \<Longrightarrow> callers s ! t \<noteq> Outside \<Longrightarrow> c \<noteq> Outside \<Longrightarrow> holders (setCaller t c s) = holders s"
  "t < length (callers s) \<Longrightarrow> callers s ! t \<noteq> Outside \<Longrightarrow> holders (setCaller t Outside s) = holders s - 1"
  "t < length (callers s) \<Longrightarrow> callers s ! t = Outside \<Longrightarrow> c \<noteq> Outside \<Longrightarrow> holders (setCaller t c s) = Suc (holders s)"
  using count_setCaller [of t s "\<lambda>c. c \<noteq> Outside" c] count_setCaller [of t s "\<lambda>c. c \<noteq> Outside" Outside]
  by (simp_all add: holders_def)

lemma holders_simps [simp]:
  "holders (s\<lparr>pool := a\<rparr>) = holders s" "holders (s\<lparr>clock := b\<rparr>) = holders s" "holders (s\<lparr>nextConn := d\<rparr>) = holders s"
  by (simp_all add: holders_def)

lemma pool_step_others:
  assumes "pool_step tmo s u"
  shows "\<exists>acts. others tmo acts (pool s, holders s) = (pool u, holders u)"
  using assms
proof (cases rule: pool_step.cases)
  case (take_token t)
  then show ?thesis by (intro exI [of _ "[TakesToken]"]) (simp add: holders_setCaller)
next
  case (take_idle t)
  with holders_pos [of t s] show ?thesis
    by (intro exI [of _ "[TakesIdle (clock s)]"]) (simp add: acquireTake_def holders_setCaller split: prod.split option.split)
next
  case (put_append t c e at)
  with holders_pos [of t s] show ?thesis
    by (intro exI [of _ "[Appends \<lparr>conn = c, since = at\<rparr> e]"])
       (simp add: putAppend_def appendIdle_def holders_setCaller)
next
  case (dial_fail t e)
  with holders_pos [of t s] show ?thesis
    by (intro exI [of _ "[ReleasesToken]"]) (simp add: leave_def holders_setCaller)
next
  case (put_done t)
  with holders_pos [of t s] show ?thesis
    by (intro exI [of _ "[ReleasesToken]"]) (simp add: leave_def holders_setCaller)
next
  case (drop_done t c)
  with holders_pos [of t s] show ?thesis
    by (intro exI [of _ "[ReleasesToken]"]) (simp add: leave_def holders_setCaller)
next
  case close_idle
  then show ?thesis by (intro exI [of _ "[ClosesIdle]"]) simp
qed (auto simp: holders_setCaller intro: exI [of _ "[]"])

lemma pool_run_others:
  "(pool_step tmo)\<^sup>*\<^sup>* s u \<Longrightarrow> \<exists>acts. others tmo acts (pool s, holders s) = (pool u, holders u)"
proof (induction rule: rtranclp_induct)
  case base
  then show ?case by (intro exI [of _ "[]"]) simp
next
  case (step v u)
  from step.IH pool_step_others [OF step.hyps(2)] show ?case by (metis others_append)
qed

subsection \<open>Acquiring a connection\<close>

text \<open>
  What happens in one turn of a loop: whether the context has ended before it, what the others do while the caller
  waits for a token and whether its context ends first, what they do between its token and its look at the idle
  list, while it dials, while it uses the connection, and between its pooling or closing the connection and its
  release of the token; the clock it reads and what the network answers.
\<close>

record turn =
  ctxBefore :: bool
  whileWaiting :: "poolAct list"
  ctxWins :: bool
  whileTaking :: "poolAct list"
  now :: int
  whileDialling :: "poolAct list"
  dialled :: "sendErr + nat"
  whileUsing :: "poolAct list"
  outcomeOf :: attemptOutcome
  stampedAt :: int
  whileReturning :: "poolAct list"
  ctxAfter :: bool

text \<open>Without a token the select waits; it ends with the context, or not at all (\<open>None\<close>) where the others release
  none and the context stays.\<close>

definition acquire :: "int \<Rightarrow> turn \<Rightarrow> shared \<Rightarrow> ((sendErr + (nat \<times> bool \<times> nat)) \<times> shared) option" where
  "acquire idleTimeout w s =
     (if ctxBefore w then Some (Inl ContextErr, s)
      else case others idleTimeout (whileWaiting w) s of (p, h) \<Rightarrow>
        if ctxWins w then Some (Inl ContextErr, (p, h))
        else if tokens p = 0 then None
        else case others idleTimeout (whileTaking w) (p\<lparr>tokens := tokens p - 1\<rparr>, h) of (p, h) \<Rightarrow>
          (case takeIdle idleTimeout (now w) p of
             ((_, Some c, e), p) \<Rightarrow> Some (Inr (c, True, e), (p, h))
           | ((_, None, e), p) \<Rightarrow>
               (case others idleTimeout (whileDialling w) (p, h) of (p, h) \<Rightarrow>
                  (case dialled w of
                     Inl err \<Rightarrow> Some (Inl err, (returnToken p, h))
                   | Inr c \<Rightarrow> Some (Inr (c, False, e), (p, h))))))"

text \<open>\<open>putIdle\<close> and \<open>discard\<close> while others run: their token follows later than the rest of their work.\<close>

definition putIdleAmid :: "int \<Rightarrow> turn \<Rightarrow> nat \<Rightarrow> nat \<Rightarrow> shared \<Rightarrow> shared" where
  "putIdleAmid idleTimeout w c e s =
     (case s of (p, h) \<Rightarrow>
        case others idleTimeout (whileReturning w) (snd (appendIdle \<lparr>conn = c, since = stampedAt w\<rparr> e p), h) of (p, h) \<Rightarrow>
          (returnToken p, h))"

definition discardAmid :: "int \<Rightarrow> turn \<Rightarrow> shared \<Rightarrow> shared" where
  "discardAmid idleTimeout w s = (case others idleTimeout (whileReturning w) s of (p, h) \<Rightarrow> (discard p, h))"

lemma putIdleAmid_alone: "whileReturning w = [] \<Longrightarrow> putIdleAmid tmo w c e (p, h) = (putIdle (stampedAt w) c e p, h)"
  and discardAmid_alone: "whileReturning w = [] \<Longrightarrow> discardAmid tmo w (p, h) = (discard p, h)"
  by (simp_all add: putIdleAmid_def discardAmid_def putIdle_def)

definition conns :: "shared \<Rightarrow> nat list" where
  "conns s = map conn (idle (fst s))"

definition addedIn :: "turn \<Rightarrow> nat list" where
  "addedIn w = appended (whileWaiting w) @ appended (whileTaking w) @ appended (whileDialling w) @ appended (whileUsing w) @ appended (whileReturning w)"

lemma others_slots: "others tmo acts s = (p, h) \<Longrightarrow> slots s = tokens p + h"
  and others_conns: "others tmo acts s = (p, h) \<Longrightarrow> subseq (map conn (idle p)) (conns s @ appended acts)"
  using others_spec [of tmo acts s] by (simp_all add: slots_def conns_def)

lemma putIdleAmid_slots: "slots (putIdleAmid tmo w c e s) = Suc (slots s)"
proof -
  obtain p h where s: "s = (p, h)" by (cases s)
  obtain q k where o: "others tmo (whileReturning w) (snd (appendIdle \<lparr>conn = c, since = stampedAt w\<rparr> e p), h) = (q, k)" by fastforce
  from others_slots [OF o] s o show ?thesis
    by (simp add: putIdleAmid_def slots_def returnToken_def appendIdle_def split: if_splits)
qed

lemma discardAmid_spec:
  "slots (discardAmid tmo w s) = Suc (slots s)" "subseq (conns (discardAmid tmo w s)) (conns s @ appended (whileReturning w))"
proof -
  obtain q k where o: "others tmo (whileReturning w) s = (q, k)" by fastforce
  from others_slots [OF o] others_conns [OF o] o
  show "slots (discardAmid tmo w s) = Suc (slots s)" "subseq (conns (discardAmid tmo w s)) (conns s @ appended (whileReturning w))"
    by (simp_all add: discardAmid_def slots_def conns_def discard_def returnToken_def)
qed

lemma acquire_spec:
  assumes "acquire tmo w s = Some (res, s')"
  shows "case res of
     Inl err \<Rightarrow> slots s' = slots s \<and> (err = ContextErr \<or> dialled w = Inl err)
   | Inr (c, reused, e) \<Rightarrow> slots s = Suc (slots s') \<and>
       subseq ((if reused then [c] else []) @ conns s')
         (conns s @ appended (whileWaiting w) @ appended (whileTaking w) @ (if reused then [] else appended (whileDialling w))) \<and>
       (\<not> reused \<longrightarrow> dialled w = Inr c)"
proof (cases "ctxBefore w")
  case True
  with assms show ?thesis by (auto simp: acquire_def)
next
  case live: False
  obtain p1 h1 where o1: "others tmo (whileWaiting w) s = (p1, h1)" by fastforce
  obtain p2 h2 where o2: "others tmo (whileTaking w) (p1\<lparr>tokens := tokens p1 - 1\<rparr>, h1) = (p2, h2)" by fastforce
  have n1: "slots s = tokens p1 + h1" by (rule others_slots [OF o1])
  show ?thesis
  proof (cases "ctxWins w")
    case True
    with live assms n1 show ?thesis by (auto simp: acquire_def slots_def o1)
  next
    case False
    with live assms o1 have pos: "0 < tokens p1" by (auto simp: acquire_def split: if_splits)
    have n2: "tokens p1 - 1 + h1 = tokens p2 + h2" using others_slots [OF o2] by (simp add: slots_def)
    have "subseq (map conn (idle p2)) (map conn (idle p1) @ appended (whileTaking w))"
      using others_conns [OF o2] by (simp add: conns_def)
    also have "subseq \<dots> ((conns s @ appended (whileWaiting w)) @ appended (whileTaking w))"
      using others_conns [OF o1] by (intro list_emb_append_mono) auto
    finally have i2: "subseq (map conn (idle p2)) (conns s @ appended (whileWaiting w) @ appended (whileTaking w))" by simp
    show ?thesis
    proof (rule takeIdle_cases [of tmo "now w" p2])
      fix stale reuse q
      assume t: "takeIdle tmo (now w) p2 = ((stale, reuse, epoch p2), q)" "tokens q = tokens p2"
        "map conn (idle p2) = stale @ (case reuse of None \<Rightarrow> [] | Some c \<Rightarrow> [c]) @ map conn (idle q)"
        "reuse = None \<Longrightarrow> idle q = []"
      show ?thesis
      proof (cases reuse)
        case (Some c)
        have "subseq (c # map conn (idle q)) (map conn (idle p2))" using t(3) Some by (simp add: list_emb_append2)
        with i2 have "subseq (c # map conn (idle q)) (conns s @ appended (whileWaiting w) @ appended (whileTaking w))"
          using subseq_order.trans by blast
        with Some assms live False pos o1 o2 t(1,2) n1 n2 show ?thesis
          by (auto simp: acquire_def slots_def conns_def)
      next
        case None
        obtain p3 h3 where o3: "others tmo (whileDialling w) (q, h2) = (p3, h3)" by fastforce
        have n3: "tokens q + h2 = tokens p3 + h3" using others_slots [OF o3] by (simp add: slots_def)
        have "subseq (map conn (idle p3)) (appended (whileDialling w))"
          using others_conns [OF o3] t(4) None by (simp add: conns_def)
        then have "subseq (map conn (idle p3)) (conns s @ appended (whileWaiting w) @ appended (whileTaking w) @ appended (whileDialling w))"
          by (intro list_emb_append2)
        with None assms live False pos o1 o2 t(1,2) n1 n2 n3 show ?thesis
          by (auto simp: acquire_def slots_def conns_def returnToken_def o3 split: sum.splits)
      qed
    qed
  qed
qed

text \<open>An acquisition that never returns: the others hold every slot and the context has not ended.\<close>

lemma acquire_blocked:
  assumes "acquire tmo w s = None"
  shows "\<not> ctxBefore w \<and> \<not> ctxWins w \<and> tokens (fst (others tmo (whileWaiting w) s)) = 0 \<and> snd (others tmo (whileWaiting w) s) = slots s"
proof -
  obtain p h where o: "others tmo (whileWaiting w) s = (p, h)" by fastforce
  with assms others_slots [OF o] show ?thesis
    by (auto simp: acquire_def split: if_splits prod.splits option.splits sum.splits)
qed

subsection \<open>The retry loop\<close>

text \<open>Turn \<open>i\<close> of the loop reads \<open>w i\<close>. The result carries the connections attempted, in order, with whether each came
  from the pool; a loop that does not return is \<open>None\<close>.\<close>

partial_function (option) sendBatch ::
    "int \<Rightarrow> (nat \<Rightarrow> turn) \<Rightarrow> nat \<Rightarrow> shared \<Rightarrow> ((BatchResult option \<times> sendErr option) \<times> (nat \<times> bool) list \<times> shared) option" where
  "sendBatch idleTimeout w i s =
     (case acquire idleTimeout (w i) s of
        None \<Rightarrow> None
      | Some (Inl err, s) \<Rightarrow> Some ((None, Some err), [], s)
      | Some (Inr (c, reused, e), s) \<Rightarrow>
          (let r = outcomeOf (w i);
               s = others idleTimeout (whileUsing (w i)) s;
               s = (if keepConn r then putIdleAmid idleTimeout (w i) c e s else discardAmid idleTimeout (w i) s) in
           case outErr r of
             None \<Rightarrow> Some ((outBatch r, None), [(c, reused)], s)
           | Some err \<Rightarrow>
               if \<not> keepConn r \<and> reused \<and> \<not> ctxAfter (w i) \<and> \<not> isLocalBatchTermination err
               then Option.bind (sendBatch idleTimeout w (Suc i) s)
                      (\<lambda>(res, tried, s). Some (res, (c, reused) # tried, s))
               else Some ((outBatch r, Some err), [(c, reused)], s)))"

text \<open>The turn asks for another connection.\<close>

definition retries :: "turn \<Rightarrow> bool \<Rightarrow> bool" where
  "retries w reused \<longleftrightarrow> (case outErr (outcomeOf w) of None \<Rightarrow> False
     | Some err \<Rightarrow> \<not> keepConn (outcomeOf w) \<and> reused \<and> \<not> ctxAfter w \<and> \<not> isLocalBatchTermination err)"

lemma sendBatch_unfold:
  "sendBatch tmo w i s = (case acquire tmo (w i) s of
        None \<Rightarrow> None
      | Some (Inl err, s) \<Rightarrow> Some ((None, Some err), [], s)
      | Some (Inr (c, reused, e), s) \<Rightarrow>
          (let s = others tmo (whileUsing (w i)) s in
           if retries (w i) reused
           then Option.bind (sendBatch tmo w (Suc i) (discardAmid tmo (w i) s)) (\<lambda>(res, tried, s). Some (res, (c, reused) # tried, s))
           else Some ((outBatch (outcomeOf (w i)), outErr (outcomeOf (w i))), [(c, reused)],
                if keepConn (outcomeOf (w i)) then putIdleAmid tmo (w i) c e s else discardAmid tmo (w i) s)))"
  by (subst sendBatch.simps) (auto simp: retries_def Let_def split: option.splits sum.splits prod.splits)

definition addedFrom :: "(nat \<Rightarrow> turn) \<Rightarrow> nat \<Rightarrow> nat \<Rightarrow> nat list" where
  "addedFrom w i n = concat (map (\<lambda>k. addedIn (w (i + k))) [0..<n])"

lemma addedFrom_Suc: "addedFrom w i (Suc n) = addedIn (w i) @ addedFrom w (Suc i) n"
proof -
  have "[0..<Suc n] = 0 # map Suc [0..<n]" by (simp add: upt_conv_Cons map_Suc_upt)
  then show ?thesis by (simp add: addedFrom_def comp_def del: upt_Suc)
qed

lemma subseq_skip: "subseq (xs @ zs) (xs @ ys @ zs)"
  by (intro list_emb_append_mono list_emb_append2) auto

text \<open>What one stale attempt does: it gives the slot back and leaves a pool whose connections are among those behind
  the one it took and those the others appended.\<close>

lemma stale_turn:
  assumes "acquire tmo w s = Some (Inr (c, True, e), s1)"
  defines "s2 \<equiv> discardAmid tmo w (others tmo (whileUsing w) s1)"
  shows "slots s2 = slots s" and "subseq (c # conns s2) (conns s @ addedIn w)"
proof -
  let ?u = "others tmo (whileUsing w) s1"
  have a: "slots s = Suc (slots s1)" "subseq (c # conns s1) (conns s @ appended (whileWaiting w) @ appended (whileTaking w))"
    using acquire_spec [OF assms(1)] by simp_all
  have u: "slots ?u = slots s1" "subseq (conns ?u) (conns s1 @ appended (whileUsing w))"
    using others_spec [of tmo "whileUsing w" s1] by (simp_all add: conns_def)
  show "slots s2 = slots s" using a(1) u(1) discardAmid_spec(1) [of tmo w ?u] by (simp add: s2_def)
  have "subseq (conns s2) (conns ?u @ appended (whileReturning w))" unfolding s2_def by (rule discardAmid_spec(2))
  also have "subseq \<dots> ((conns s1 @ appended (whileUsing w)) @ appended (whileReturning w))"
    using u(2) by (intro list_emb_append_mono) auto
  finally have "subseq (c # conns s2) ((c # conns s1) @ appended (whileUsing w) @ appended (whileReturning w))" by simp
  also have "subseq \<dots> ((conns s @ appended (whileWaiting w) @ appended (whileTaking w)) @ appended (whileUsing w) @ appended (whileReturning w))"
    using a(2) by (intro list_emb_append_mono) auto
  also have "subseq \<dots> (conns s @ addedIn w)"
    using subseq_skip [of "conns s @ appended (whileWaiting w) @ appended (whileTaking w)"
        "appended (whileUsing w) @ appended (whileReturning w)" "appended (whileDialling w)"] by (simp add: addedIn_def)
  finally show "subseq (c # conns s2) (conns s @ addedIn w)" .
qed

definition retry_ok :: "(nat \<Rightarrow> turn) \<Rightarrow> nat \<Rightarrow> shared \<Rightarrow>
    (BatchResult option \<times> sendErr option) \<times> (nat \<times> bool) list \<times> shared \<Rightarrow> bool" where
  "retry_ok w i s out \<longleftrightarrow> (case out of (res, tried, s') \<Rightarrow>
     slots s' = slots s \<and>
     subseq (map fst (filter snd tried)) (conns s @ addedFrom w i (length tried)) \<and>
     list_all (\<lambda>k. retries (w (i + k)) (snd (tried ! k))) [0..<length tried - 1] \<and>
     (if tried \<noteq> [] \<and> \<not> retries (w (i + length tried - 1)) (snd (last tried))
      then res = (outBatch (outcomeOf (w (i + length tried - 1))), outErr (outcomeOf (w (i + length tried - 1))))
      else fst res = None \<and> (\<exists>err. snd res = Some err \<and> (err = ContextErr \<or> dialled (w (i + length tried)) = Inl err))))"

lemma retry_ok_Cons:
  assumes "retry_ok w (Suc i) s2 (out, tried, r)" and "retries (w i) True"
    and "slots s2 = slots s" and "subseq (c # conns s2) (conns s @ addedIn (w i))"
  shows "retry_ok w i s (out, (c, True) # tried, r)"
proof -
  note ih = assms(1) [unfolded retry_ok_def prod.case]
  have upt: "[0..<length tried] = (if tried = [] then [] else 0 # map Suc [0..<length tried - 1])"
    by (simp add: upt_conv_Cons map_Suc_upt)
  have "subseq (c # map fst (filter snd tried)) ((c # conns s2) @ addedFrom w (Suc i) (length tried))" using ih by simp
  also have "subseq \<dots> ((conns s @ addedIn (w i)) @ addedFrom w (Suc i) (length tried))"
    using assms(4) by (intro list_emb_append_mono) auto
  finally have "subseq (map fst (filter snd ((c, True) # tried))) (conns s @ addedFrom w i (length ((c, True) # tried)))"
    by (simp add: addedFrom_Suc)
  moreover have "list_all (\<lambda>k. retries (w (i + k)) (snd (((c, True) # tried) ! k))) [0..<length tried]"
    using ih assms(2) by (simp add: upt list.pred_map comp_def)
  moreover have "tried \<noteq> [] \<Longrightarrow> Suc i + length tried - 1 = i + length tried" by (cases tried) auto
  ultimately show ?thesis
    using ih assms(2,3) unfolding retry_ok_def prod.case by (cases "tried = []") auto
qed

lemma last_turn:
  assumes "acquire tmo (w i) s = Some (Inr (c, reused, e), s1)" and "\<not> retries (w i) reused"
  shows "retry_ok w i s ((outBatch (outcomeOf (w i)), outErr (outcomeOf (w i))), [(c, reused)],
     let s = others tmo (whileUsing (w i)) s1 in
     if keepConn (outcomeOf (w i)) then putIdleAmid tmo (w i) c e s else discardAmid tmo (w i) s)"
proof -
  have "reused \<Longrightarrow> subseq [c] (conns s @ addedIn (w i))"
  proof -
    assume reused
    then have "subseq [c] ([c] @ conns s1)" and "subseq ([c] @ conns s1) (conns s @ appended (whileWaiting (w i)) @ appended (whileTaking (w i)))"
      using acquire_spec [OF assms(1)] by simp_all
    moreover have "subseq (conns s @ appended (whileWaiting (w i)) @ appended (whileTaking (w i))) (conns s @ addedIn (w i))"
      using subseq_skip [of "conns s @ appended (whileWaiting (w i)) @ appended (whileTaking (w i))" "[]"
          "appended (whileDialling (w i)) @ appended (whileUsing (w i)) @ appended (whileReturning (w i))"]
      by (simp add: addedIn_def)
    ultimately show ?thesis using subseq_order.trans by blast
  qed
  moreover have "slots s = Suc (slots s1)" using acquire_spec [OF assms(1)] by simp
  ultimately show ?thesis
    using assms(2) others_spec [of tmo "whileUsing (w i)" s1]
    by (auto simp: retry_ok_def Let_def addedFrom_def putIdleAmid_slots discardAmid_spec(1))
qed

lemma sendBatch_retry_ok:
  assumes "sendBatch tmo w i s = Some out"
  shows "retry_ok w i s out"
proof (rule sendBatch.raw_induct [where P = "\<lambda>tmo w i s out. retry_ok w i s out", OF _ assms])
  fix f tmo w i s out
  assume IH: "\<And>tmo w i s out. f tmo w i s = Some out \<Longrightarrow> retry_ok w i s out"
    and prem: "(case acquire tmo (w i) s of
        None \<Rightarrow> None
      | Some (Inl err, s) \<Rightarrow> Some ((None, Some err), [], s)
      | Some (Inr (c, reused, e), s) \<Rightarrow>
          (let r = outcomeOf (w i);
               s = others tmo (whileUsing (w i)) s;
               s = (if keepConn r then putIdleAmid tmo (w i) c e s else discardAmid tmo (w i) s) in
           case outErr r of
             None \<Rightarrow> Some ((outBatch r, None), [(c, reused)], s)
           | Some err \<Rightarrow>
               if \<not> keepConn r \<and> reused \<and> \<not> ctxAfter (w i) \<and> \<not> isLocalBatchTermination err
               then Option.bind (f tmo w (Suc i) s) (\<lambda>(res, tried, s). Some (res, (c, reused) # tried, s))
               else Some ((outBatch r, Some err), [(c, reused)], s))) = Some out"
  show "retry_ok w i s out"
  proof (cases "acquire tmo (w i) s")
    case None
    with prem show ?thesis by simp
  next
    case (Some a)
    then obtain x s1 where a: "acquire tmo (w i) s = Some (x, s1)" by (cases a) auto
    show ?thesis
    proof (cases x)
      case (Inl err)
      with a acquire_spec [OF a] prem show ?thesis by (auto simp: retry_ok_def addedFrom_def)
    next
      case (Inr y)
      obtain c reused e where y: "y = (c, reused, e)" by (cases y)
      note a = a [unfolded Inr y]
      let ?s = "others tmo (whileUsing (w i)) s1"
      have run: "(if retries (w i) reused
           then Option.bind (f tmo w (Suc i) (discardAmid tmo (w i) ?s)) (\<lambda>(res, tried, s). Some (res, (c, reused) # tried, s))
           else Some ((outBatch (outcomeOf (w i)), outErr (outcomeOf (w i))), [(c, reused)],
                if keepConn (outcomeOf (w i)) then putIdleAmid tmo (w i) c e ?s else discardAmid tmo (w i) ?s)) = Some out"
        using prem a by (auto simp: retries_def Let_def split: option.splits if_splits)
      show ?thesis
      proof (cases "retries (w i) reused")
        case False
        with run last_turn [where w = w and i = i, OF a False] show ?thesis by (auto simp: Let_def)
      next
        case True
        then have reused: "reused = True" by (auto simp: retries_def split: option.splits)
        from run True obtain res tried r where rec: "f tmo w (Suc i) (discardAmid tmo (w i) ?s) = Some (res, tried, r)"
          and out: "out = (res, (c, True) # tried, r)" by (auto simp: reused bind_eq_Some_conv)
        from retry_ok_Cons [OF IH [OF rec]] stale_turn [OF a [unfolded reused]] True reused out
        show ?thesis by simp
      qed
    qed
  qed
qed

text \<open>The state at the beginning of the loop's turn \<open>k\<close>, where all turns before it were stale attempts.\<close>

fun staleRun :: "int \<Rightarrow> (nat \<Rightarrow> turn) \<Rightarrow> nat \<Rightarrow> shared \<Rightarrow> nat \<Rightarrow> shared option" where
  "staleRun tmo w i s 0 = Some s"
| "staleRun tmo w i s (Suc k) =
     (case acquire tmo (w i) s of
        Some (Inr (c, reused, e), s) \<Rightarrow>
          if retries (w i) reused
          then staleRun tmo w (Suc i) (discardAmid tmo (w i) (others tmo (whileUsing (w i)) s)) k
          else None
      | _ \<Rightarrow> None)"

lemma staleRun_slots: "staleRun tmo w i s k = Some s' \<Longrightarrow> slots s' = slots s"
proof (induction k arbitrary: i s)
  case (Suc k)
  from Suc.prems obtain c reused e s1 where a: "acquire tmo (w i) s = Some (Inr (c, reused, e), s1)" and r: "retries (w i) reused"
    and rest: "staleRun tmo w (Suc i) (discardAmid tmo (w i) (others tmo (whileUsing (w i)) s1)) k = Some s'"
    by (auto split: option.splits sum.splits prod.splits if_splits)
  from r have "reused = True" by (auto simp: retries_def split: option.splits)
  with a rest Suc.IH [OF rest] stale_turn(1) [of tmo "w i" s c e s1] show ?case by simp
qed simp

text \<open>Why the loop returns: a stale attempt takes one connection out of the idle list, so with only so many appended by
  others it runs out of stale connections.\<close>

lemma sendBatch_returns:
  assumes "\<And>k. length (addedFrom w i k) \<le> n"
    and "\<And>k s'. staleRun tmo w i s k = Some s' \<Longrightarrow> acquire tmo (w (i + k)) s' \<noteq> None"
  shows "sendBatch tmo w i s \<noteq> None"
  using assms
proof (induction "length (conns s) + n" arbitrary: i s n rule: less_induct)
  case less
  obtain x s1 where a: "acquire tmo (w i) s = Some (x, s1)" using less.prems(2) [of 0 s] by auto
  show ?case
  proof (cases x)
    case (Inl err)
    with a show ?thesis by (subst sendBatch_unfold) simp
  next
    case (Inr y)
    obtain c reused e where y: "y = (c, reused, e)" by (cases y)
    note a = a [unfolded Inr y]
    show ?thesis
    proof (cases "retries (w i) reused")
      case False
      with a show ?thesis by (subst sendBatch_unfold) (simp add: Let_def)
    next
      case True
      then have reused: "reused = True" by (auto simp: retries_def split: option.splits)
      let ?s = "discardAmid tmo (w i) (others tmo (whileUsing (w i)) s1)"
      have s: "slots ?s = slots s" "subseq (c # conns ?s) (conns s @ addedIn (w i))"
        using stale_turn [OF a [unfolded reused]] by simp_all
      have len: "Suc (length (conns ?s)) \<le> length (conns s) + length (addedIn (w i))"
        using list_emb_length [OF s(2)] by simp
      have one: "length (addedIn (w i)) \<le> n" using less.prems(1) [of 1] by (simp add: addedFrom_def)
      have "sendBatch tmo w (Suc i) ?s \<noteq> None"
      proof (rule less.hyps [of ?s "n - length (addedIn (w i))"])
        show "length (conns ?s) + (n - length (addedIn (w i))) < length (conns s) + n" using len one by linarith
        show "length (addedFrom w (Suc i) k) \<le> n - length (addedIn (w i))" for k
          using less.prems(1) [of "Suc k"] by (simp add: addedFrom_Suc)
        show "staleRun tmo w (Suc i) ?s k = Some s' \<Longrightarrow> acquire tmo (w (Suc i + k)) s' \<noteq> None" for k s'
          using less.prems(2) [of "Suc k" s'] True a by simp
      qed
      with True reused a show ?thesis by (subst sendBatch_unfold) (auto simp: Let_def)
    qed
  qed
qed

lemma retries_all_pooled:
  assumes "list_all (\<lambda>k. retries (w (i + k)) (snd (tried ! k))) [0..<length tried - 1]"
  shows "length tried \<le> length (filter snd tried) + 1"
proof (cases tried rule: rev_cases)
  case (snoc xs x)
  have "snd y" if y: "y \<in> set xs" for y
  proof -
    obtain k where "k < length xs" "y = xs ! k" using y by (metis in_set_conv_nth)
    with assms snoc have "retries (w (i + k)) (snd y)" by (auto simp: list_all_iff nth_append)
    then show ?thesis by (auto simp: retries_def split: option.splits)
  qed
  then have "filter snd xs = xs" by (simp add: filter_id_conv)
  with snoc show ?thesis by simp
qed simp

text \<open>C19. The retry loop of \<open>sendBatch\<close> among any number of other callers. If it does not return, then either others
  append connections to the pool without end, or after some number of stale attempts it waits for a token with its
  context alive while the others hold every slot. If it returns, the slot is given back; the pooled connections it tried are distinct
  entries, oldest first, of the idle list it found followed by what others appended during its turns, so it made
  at most one attempt more than there are of these; every attempt but the last was on a pooled connection that died,
  uncancelled and not by a local limit; and the outcome of a fresh connection, a surviving one, a cancelled or a
  locally terminated attempt is returned as it is.\<close>
theorem sendBatch_bounded_retry:
  "case sendBatch idleTimeout w i (p, h) of
     None \<Rightarrow> (\<forall>n. \<exists>k. n < length (addedFrom w i k)) \<or>
       (\<exists>k q r. staleRun idleTimeout w i (p, h) k = Some q \<and> \<not> ctxBefore (w (i + k)) \<and> \<not> ctxWins (w (i + k)) \<and>
          others idleTimeout (whileWaiting (w (i + k))) q = (r, tokens p + h) \<and> tokens r = 0)
   | Some (res, tried, (q, k)) \<Rightarrow>
     tokens q + k = tokens p + h \<and>
     subseq (map fst (filter snd tried)) (map conn (idle p) @ addedFrom w i (length tried)) \<and>
     length tried \<le> length (idle p) + length (addedFrom w i (length tried)) + 1 \<and>
     list_all (\<lambda>k. retries (w (i + k)) (snd (tried ! k))) [0..<length tried - 1] \<and>
     (if tried \<noteq> [] \<and> \<not> retries (w (i + length tried - 1)) (snd (last tried))
      then res = (outBatch (outcomeOf (w (i + length tried - 1))), outErr (outcomeOf (w (i + length tried - 1))))
      else fst res = None \<and> (\<exists>err. snd res = Some err \<and> (err = ContextErr \<or> dialled (w (i + length tried)) = Inl err)))"
proof (cases "sendBatch idleTimeout w i (p, h)")
  case None
  then have "\<exists>k q r. staleRun idleTimeout w i (p, h) k = Some q \<and> \<not> ctxBefore (w (i + k)) \<and> \<not> ctxWins (w (i + k)) \<and>
      others idleTimeout (whileWaiting (w (i + k))) q = (r, tokens p + h) \<and> tokens r = 0"
    if few: "\<And>k. length (addedFrom w i k) \<le> n" for n
  proof -
    obtain k s' where s': "staleRun idleTimeout w i (p, h) k = Some s'" "acquire idleTimeout (w (i + k)) s' = None"
      using sendBatch_returns [OF few] \<open>sendBatch idleTimeout w i (p, h) = None\<close> by blast
    obtain r m where r: "others idleTimeout (whileWaiting (w (i + k))) s' = (r, m)" by fastforce
    with acquire_blocked [OF s'(2)] s'(1) staleRun_slots [OF s'(1)] show ?thesis
      by (intro exI [of _ k] exI [of _ s'] exI [of _ r]) (simp add: slots_def)
  qed
  then show ?thesis
    using None by (cases "\<exists>n. \<forall>k. length (addedFrom w i k) \<le> n") (simp_all add: not_le, blast)
next
  case (Some out)
  obtain res tried q k where out: "out = (res, tried, q, k)" by (cases out)
  have ok: "retry_ok w i (p, h) (res, tried, q, k)" using sendBatch_retry_ok [OF Some] out by simp
  then have sub: "subseq (map fst (filter snd tried)) (map conn (idle p) @ addedFrom w i (length tried))"
    and all: "list_all (\<lambda>k. retries (w (i + k)) (snd (tried ! k))) [0..<length tried - 1]"
    by (simp_all add: retry_ok_def conns_def)
  have "length tried \<le> length (idle p) + length (addedFrom w i (length tried)) + 1"
    using list_emb_length [OF sub] retries_all_pooled [OF all] by simp
  with Some out ok show ?thesis by (auto simp: retry_ok_def slots_def conns_def)
qed

subsection \<open>What an attempt reports\<close>

text \<open>An attempt that is handed collected responses keeps its connection exactly when its error is absent,
  a response-phase reset or the peer's stream limit, and carries a batch exactly when every stage up to
  the collection succeeded, in which case the batch names the connection.\<close>
theorem attempt_keeps_healthy:
  assumes "attempt c st = Inr r"
  shows "(keepConn r \<longleftrightarrow> (pumpErr st = None \<and> limitErr st \<noteq> None) \<or> outBatch r \<noteq> None) \<and>
     (outBatch r \<noteq> None \<longleftrightarrow> pumpErr st = None \<and> limitErr st = None \<and> allocErr st = None \<and> activateErr st = None \<and>
        dispatchErr st = None \<and> \<not> isl (collected st)) \<and>
     (case outBatch r of None \<Rightarrow> outErr r \<noteq> None | Some b \<Rightarrow> Connection b = int c \<and>
        outErr r = map_option ResetErr (snd (projr (collected st))))"
  using assms by (auto simp: attempt_def split: option.splits sum.splits prod.splits)

subsection \<open>Pings and leases\<close>

partial_function (option) Ping :: "int \<Rightarrow> (nat \<Rightarrow> turn) \<Rightarrow> nat \<Rightarrow> shared \<Rightarrow> (sendErr option \<times> shared) option" where
  "Ping idleTimeout w i s =
     (case acquire idleTimeout (w i) s of
        None \<Rightarrow> None
      | Some (Inl err, s) \<Rightarrow> Some (Some err, s)
      | Some (Inr (c, reused, e), s) \<Rightarrow>
          (let s = others idleTimeout (whileUsing (w i)) s in
           case outErr (outcomeOf (w i)) of
             None \<Rightarrow> Some (None, putIdleAmid idleTimeout (w i) c e s)
           | Some err \<Rightarrow> if reused \<and> \<not> ctxAfter (w i) then Ping idleTimeout w (Suc i) (discardAmid idleTimeout (w i) s)
                          else Some (Some err, discardAmid idleTimeout (w i) s)))"

text \<open>A ping gives its slot back on every path.\<close>

lemma Ping_slots:
  assumes "Ping tmo w i s = Some (res, s')"
  shows "slots s' = slots s"
proof -
  have "slots (snd out) = slots s" if "Ping tmo w i s = Some out" for out
  proof (rule Ping.raw_induct [where P = "\<lambda>tmo w i s out. slots (snd out) = slots s", OF _ that])
    fix f tmo w i s out
    assume IH: "\<And>tmo w i s out. f tmo w i s = Some out \<Longrightarrow> slots (snd out) = slots s"
      and prem: "(case acquire tmo (w i) s of
        None \<Rightarrow> None
      | Some (Inl err, s) \<Rightarrow> Some (Some err, s)
      | Some (Inr (c, reused, e), s) \<Rightarrow>
          (let s = others tmo (whileUsing (w i)) s in
           case outErr (outcomeOf (w i)) of
             None \<Rightarrow> Some (None, putIdleAmid tmo (w i) c e s)
           | Some err \<Rightarrow> if reused \<and> \<not> ctxAfter (w i) then f tmo w (Suc i) (discardAmid tmo (w i) s)
                          else Some (Some err, discardAmid tmo (w i) s))) = Some out"
    from prem obtain x s1 where a: "acquire tmo (w i) s = Some (x, s1)" by (auto split: option.splits)
    show "slots (snd out) = slots s"
    proof (cases x)
      case (Inl err)
      with a prem acquire_spec [OF a] show ?thesis by auto
    next
      case (Inr y)
      obtain c reused e where y: "y = (c, reused, e)" by (cases y)
      let ?s = "others tmo (whileUsing (w i)) s1"
      have n: "slots s = Suc (slots s1)" "slots ?s = slots s1"
        using acquire_spec [OF a] Inr y others_spec [of tmo "whileUsing (w i)" s1] by simp_all
      show ?thesis
      proof (cases "outErr (outcomeOf (w i)) \<noteq> None \<and> reused \<and> \<not> ctxAfter (w i)")
        case True
        with prem a Inr y have "f tmo w (Suc i) (discardAmid tmo (w i) ?s) = Some out" by auto
        from IH [OF this] n discardAmid_spec(1) [of tmo "w i" ?s] show ?thesis by simp
      next
        case False
        with prem a Inr y n show ?thesis
          by (auto simp: Let_def putIdleAmid_slots discardAmid_spec(1) split: option.splits)
      qed
    qed
  qed
  from this [OF assms] show ?thesis by simp
qed

record connOwner =
  ownConn :: nat
  ownEpoch :: nat
  held :: bool
  ownReused :: bool

definition unheld :: "connOwner \<Rightarrow> connOwner" where
  "unheld o1 = o1\<lparr>ownConn := 0, held := False, ownReused := False\<rparr>"

definition ownerAcquire :: "int \<Rightarrow> turn \<Rightarrow> connOwner \<times> shared \<Rightarrow> ((sendErr + bool) \<times> connOwner \<times> shared) option" where
  "ownerAcquire idleTimeout w x = (case x of (o1, s) \<Rightarrow>
     if held o1 then Some (Inr False, o1, s)
     else case acquire idleTimeout w s of
       None \<Rightarrow> None
     | Some (Inl err, s) \<Rightarrow> Some (Inl err, o1, s)
     | Some (Inr (c, reused, e), s) \<Rightarrow>
         Some (Inr True, \<lparr>ownConn = c, ownEpoch = e, held = True, ownReused = reused\<rparr>, s))"

definition ownerSend :: "int \<Rightarrow> turn \<Rightarrow> connOwner \<times> shared \<Rightarrow> (BatchResult option \<times> bool \<times> sendErr option) \<times> connOwner \<times> shared" where
  "ownerSend idleTimeout w x = (case x of (o1, s) \<Rightarrow>
     let r = outcomeOf w; s = others idleTimeout (whileUsing w) s in
     case outErr r of
       None \<Rightarrow> ((outBatch r, False, None), o1\<lparr>ownReused := False\<rparr>, s)
     | Some err \<Rightarrow>
         if keepConn r then ((outBatch r, False, Some err), o1\<lparr>ownReused := False\<rparr>, s)
         else let untried = ownReused o1 \<and> \<not> isLocalBatchTermination err in
           ((None, \<not> ctxAfter w \<and> untried, Some err), unheld o1, discardAmid idleTimeout w s))"

definition ownerRelease :: "int \<Rightarrow> turn \<Rightarrow> connOwner \<times> shared \<Rightarrow> connOwner \<times> shared" where
  "ownerRelease idleTimeout w x = (case x of (o1, s) \<Rightarrow>
     if held o1 then (unheld o1, putIdleAmid idleTimeout w (ownConn o1) (ownEpoch o1) s) else (o1, s))"

definition ownerDiscard :: "int \<Rightarrow> turn \<Rightarrow> connOwner \<times> shared \<Rightarrow> connOwner \<times> shared" where
  "ownerDiscard idleTimeout w x = (case x of (o1, s) \<Rightarrow>
     if held o1 then (unheld o1, discardAmid idleTimeout w s) else (o1, s))"

datatype leaseState = leaseClosed | leaseActive | leaseInvalid

record ConnLease =
  leaseOwner :: connOwner
  leaseOrigin :: string
  leaseID :: nat
  leaseStatus :: leaseState

datatype leaseErr = ErrLeaseClosed | ErrLeaseInvalid | PrepareErr | OriginDiffers | LeaseSendErr sendErr

partial_function (option) Acquire :: "int \<Rightarrow> (nat \<Rightarrow> turn) \<Rightarrow> nat \<Rightarrow> string \<Rightarrow> shared \<Rightarrow> ((sendErr + ConnLease) \<times> shared) option" where
  "Acquire idleTimeout w i origin s =
     (case acquire idleTimeout (w i) s of
        None \<Rightarrow> None
      | Some (Inl err, s) \<Rightarrow> Some (Inl err, s)
      | Some (Inr (c, reused, e), s) \<Rightarrow>
          (let s = others idleTimeout (whileUsing (w i)) s in
           case (if reused then outErr (outcomeOf (w i)) else None) of
             Some err \<Rightarrow> if ctxAfter (w i) then Some (Inl err, discardAmid idleTimeout (w i) s)
                          else Acquire idleTimeout w (Suc i) origin (discardAmid idleTimeout (w i) s)
           | None \<Rightarrow> Some (Inr \<lparr>leaseOwner = \<lparr>ownConn = c, ownEpoch = e, held = True, ownReused = reused\<rparr>,
                          leaseOrigin = origin, leaseID = c, leaseStatus = leaseActive\<rparr>, s)))"

text \<open>What \<open>prepareBatch\<close> makes of a call's requests is part of the call: an error, or the batch origin.\<close>

datatype leaseCall =
    LeaseSend "string option" turn
  | LeaseClose turn
  | LeaseDiscard turn
  | Meanwhile "poolAct list"

text \<open>\<open>Meanwhile\<close> is what other callers do between two calls on the lease.\<close>

fun leaseStep :: "int \<Rightarrow> ConnLease \<times> shared \<Rightarrow> leaseCall \<Rightarrow> (BatchResult option \<times> leaseErr option) \<times> ConnLease \<times> shared" where
  "leaseStep idleTimeout (l, s) (LeaseSend prepared w) =
     (case leaseStatus l of
        leaseClosed \<Rightarrow> ((None, Some ErrLeaseClosed), l, s)
      | leaseInvalid \<Rightarrow> ((None, Some ErrLeaseInvalid), l, s)
      | leaseActive \<Rightarrow>
          (case prepared of
             None \<Rightarrow> ((None, Some PrepareErr), l, s)
           | Some origin \<Rightarrow>
               if origin \<noteq> leaseOrigin l then ((None, Some OriginDiffers), l, s)
               else (case ownerSend idleTimeout w (leaseOwner l, s) of ((batch, _, err), o1, s) \<Rightarrow>
                 ((batch, map_option LeaseSendErr err),
                  l\<lparr>leaseOwner := o1, leaseStatus := (if held o1 then leaseActive else leaseInvalid)\<rparr>, s))))"
| "leaseStep idleTimeout (l, s) (LeaseClose w) =
     (if leaseStatus l \<noteq> leaseActive then ((None, None), l, s)
      else case ownerRelease idleTimeout w (leaseOwner l, s) of (o1, s) \<Rightarrow>
        ((None, None), l\<lparr>leaseOwner := o1, leaseStatus := leaseClosed\<rparr>, s))"
| "leaseStep idleTimeout (l, s) (LeaseDiscard w) =
     (if leaseStatus l \<noteq> leaseActive then ((None, None), l, s)
      else case ownerDiscard idleTimeout w (leaseOwner l, s) of (o1, s) \<Rightarrow>
        ((None, None), l\<lparr>leaseOwner := o1, leaseStatus := leaseClosed\<rparr>, s))"
| "leaseStep idleTimeout (l, s) (Meanwhile acts) = ((None, None), l, others idleTimeout acts s)"

subsection \<open>A lease and its slot\<close>

definition leaseSlots :: "ConnLease \<Rightarrow> nat" where
  "leaseSlots l = (if leaseStatus l = leaseActive then 1 else 0)"

definition lease_ok :: "ConnLease \<Rightarrow> bool" where
  "lease_ok l \<longleftrightarrow> (leaseStatus l = leaseActive \<longleftrightarrow> held (leaseOwner l)) \<and>
     (leaseStatus l = leaseActive \<longrightarrow> ownConn (leaseOwner l) = leaseID l)"

definition lease_inv :: "nat \<Rightarrow> nat \<Rightarrow> ConnLease \<times> shared \<Rightarrow> bool" where
  "lease_inv n k x \<longleftrightarrow> lease_ok (fst x) \<and> slots (snd x) + leaseSlots (fst x) = n \<and> leaseID (fst x) = k"

lemmas lease_defs = lease_inv_def lease_ok_def leaseSlots_def ownerSend_def ownerRelease_def ownerDiscard_def unheld_def Let_def

lemma lease_inv_step: "lease_inv n k x \<Longrightarrow> lease_inv n k (snd (leaseStep tmo x c))"
  by (cases x; cases c)
     (auto simp: lease_defs others_spec putIdleAmid_slots discardAmid_spec(1) split: option.splits leaseState.splits if_splits)

interpretation leaseM: event_steps "\<lambda>x c. snd (leaseStep tmo x c)" "\<lambda>_. True" "lease_inv n k" for tmo n k
  by unfold_locales (rule lease_inv_step)

lemma Acquire_lease:
  assumes "Acquire tmo w i origin s = Some (res, s')"
  shows "case res of
     Inl _ \<Rightarrow> slots s' = slots s
   | Inr l \<Rightarrow> lease_inv (slots s) (leaseID l) (l, s') \<and> leaseStatus l = leaseActive \<and> leaseOrigin l = origin"
proof -
  define Q where "Q = (\<lambda>(tmo :: int) (w :: nat \<Rightarrow> turn) (i :: nat) origin s out. case out of (res, s') \<Rightarrow> (case res of
     Inl (_ :: sendErr) \<Rightarrow> slots s' = slots s
   | Inr l \<Rightarrow> lease_inv (slots s) (leaseID l) (l, s') \<and> leaseStatus l = leaseActive \<and> leaseOrigin l = origin))"
  have "Q tmo w i origin s (res, s')"
  proof (rule Acquire.raw_induct [where P = Q, OF _ assms])
    fix f tmo w i origin s out
    assume IH: "\<And>tmo w i origin s out. f tmo w i origin s = Some out \<Longrightarrow> Q tmo w i origin s out"
      and prem: "(case acquire tmo (w i) s of
        None \<Rightarrow> None
      | Some (Inl err, s) \<Rightarrow> Some (Inl err, s)
      | Some (Inr (c, reused, e), s) \<Rightarrow>
          (let s = others tmo (whileUsing (w i)) s in
           case (if reused then outErr (outcomeOf (w i)) else None) of
             Some err \<Rightarrow> if ctxAfter (w i) then Some (Inl err, discardAmid tmo (w i) s)
                          else f tmo w (Suc i) origin (discardAmid tmo (w i) s)
           | None \<Rightarrow> Some (Inr \<lparr>leaseOwner = \<lparr>ownConn = c, ownEpoch = e, held = True, ownReused = reused\<rparr>,
                          leaseOrigin = origin, leaseID = c, leaseStatus = leaseActive\<rparr>, s))) = Some out"
    from prem obtain x s1 where a: "acquire tmo (w i) s = Some (x, s1)" by (auto split: option.splits)
    show "Q tmo w i origin s out"
    proof (cases x)
      case (Inl err)
      with a prem acquire_spec [OF a] show ?thesis by (auto simp: Q_def)
    next
      case (Inr y)
      obtain c reused e where y: "y = (c, reused, e)" by (cases y)
      let ?s = "others tmo (whileUsing (w i)) s1"
      have n: "slots s = Suc (slots s1)" "slots ?s = slots s1"
        using acquire_spec [OF a] Inr y others_spec [of tmo "whileUsing (w i)" s1] by simp_all
      show ?thesis
      proof (cases "reused \<and> outErr (outcomeOf (w i)) \<noteq> None \<and> \<not> ctxAfter (w i)")
        case True
        with prem a Inr y have "f tmo w (Suc i) origin (discardAmid tmo (w i) ?s) = Some out" by auto
        from IH [OF this] have "Q tmo w (Suc i) origin (discardAmid tmo (w i) ?s) out" .
        moreover have "slots (discardAmid tmo (w i) ?s) = slots s" using n discardAmid_spec(1) [of tmo "w i" ?s] by simp
        ultimately show ?thesis by (simp only: Q_def)
      next
        case False
        with prem a Inr y n show ?thesis
          by (auto simp: Q_def Let_def discardAmid_spec(1) lease_inv_def lease_ok_def leaseSlots_def split: option.splits if_splits)
      qed
    qed
  qed
  then show ?thesis by (simp add: Q_def)
qed

definition onLease :: "leaseCall \<Rightarrow> bool" where
  "onLease c \<longleftrightarrow> (case c of Meanwhile _ \<Rightarrow> False | _ \<Rightarrow> True)"

lemma leaseStep_inactive:
  "leaseStatus (fst x) \<noteq> leaseActive \<Longrightarrow> onLease c \<Longrightarrow> snd (leaseStep tmo x c) = x \<and> fst (fst (leaseStep tmo x c)) = None"
  by (cases x; cases c) (auto simp: onLease_def split: leaseState.splits)

lemma lease_inactive_run:
  "leaseStatus (fst x) \<noteq> leaseActive \<Longrightarrow> list_all onLease cs \<Longrightarrow> foldl (\<lambda>x c. snd (leaseStep tmo x c)) x cs = x"
  by (induction cs) (simp_all add: leaseStep_inactive)

text \<open>C20. A lease holds exactly one slot while it is active and none afterwards: whatever is called on it and whatever
  other callers do with the pool, in whatever order, the slot goes back exactly once, the connection identity never
  changes, and an active lease owns that very connection.\<close>
theorem lease_returns_slot_once:
  assumes "Acquire idleTimeout w i origin (p, h) = Some (Inr l, s)"
    and "foldl (\<lambda>x c. snd (leaseStep idleTimeout x c)) (l, s) calls = (l', (q, k))"
  shows "tokens q + k + (if leaseStatus l' = leaseActive then 1 else 0) = tokens p + h \<and> leaseID l' = leaseID l \<and>
     held (leaseOwner l') = (leaseStatus l' = leaseActive) \<and> (held (leaseOwner l') \<longrightarrow> ownConn (leaseOwner l') = leaseID l)"
proof -
  have "lease_inv (tokens p + h) (leaseID l) (l, s)"
    using Acquire_lease [OF assms(1)] by (simp add: slots_def)
  from leaseM.inv_foldl [OF this, of calls idleTimeout] assms(2) have "lease_inv (tokens p + h) (leaseID l) (l', q, k)"
    by (simp add: list_all_iff)
  then show ?thesis by (auto simp: lease_inv_def lease_ok_def leaseSlots_def slots_def)
qed

text \<open>A closed or invalid lease is inert: every later call leaves the lease and the pool as they are and
  returns no batch, and a send reports which of the two it is.\<close>
theorem lease_inert_after_end:
  assumes "leaseStatus l \<noteq> leaseActive" and "list_all onLease calls"
  shows "foldl (\<lambda>x c. snd (leaseStep idleTimeout x c)) (l, s) calls = (l, s) \<and>
     fst (leaseStep idleTimeout (l, s) (LeaseSend prepared t)) =
       (None, Some (if leaseStatus l = leaseClosed then ErrLeaseClosed else ErrLeaseInvalid))"
  using assms lease_inactive_run [of "(l, s)" calls] by (auto split: leaseState.split)

subsection \<open>Concrete uses\<close>

definition demo_turn :: "nat \<Rightarrow> turn" where
  "demo_turn i = \<lparr>ctxBefore = False, whileWaiting = [ReleasesToken], ctxWins = False, whileTaking = [], now = 0,
     whileDialling = [TakesToken], dialled = Inr 7, whileUsing = [],
     outcomeOf = (if i = 0 then Outcome None False False (Some PumpErr) else Outcome None True True None),
     stampedAt = 4, whileReturning = [], ctxAfter = False\<rparr>"

definition demo_idle :: originPool where
  "demo_idle = \<lparr>tokens = 0, idle = [\<lparr>conn = 3, since = 0\<rparr>], epoch = 0\<rparr>"

definition demo_lease :: ConnLease where
  "demo_lease = \<lparr>leaseOwner = \<lparr>ownConn = 7, ownEpoch = 0, held = True, ownReused = False\<rparr>,
     leaseOrigin = ''h:443'', leaseID = 7, leaseStatus = leaseActive\<rparr>"

lemma demo_acquire: "Acquire 0 demo_turn 0 ''h:443'' (demo_idle, 1) = Some (Inr demo_lease, \<lparr>tokens = 0, idle = [], epoch = 0\<rparr>, 0)"
  by (subst Acquire.simps, subst Acquire.simps)
     (simp add: acquire_def takeIdle_def demo_turn_def demo_idle_def demo_lease_def discardAmid_def discard_def returnToken_def)

theorem lease_returns_slot_once_witness:
  "snd (foldl (\<lambda>x c. snd (leaseStep 0 x c)) (demo_lease, (\<lparr>tokens = 0, idle = [], epoch = 0\<rparr>, 0))
     [LeaseClose (demo_turn 1), Meanwhile [TakesToken], LeaseDiscard (demo_turn 1)]) =
     (\<lparr>tokens = 0, idle = [\<lparr>conn = 7, since = 4\<rparr>], epoch = 0\<rparr>, 1) \<and> tokens demo_idle + 1 = 1"
proof -
  let ?calls = "[LeaseClose (demo_turn 1), Meanwhile [TakesToken], LeaseDiscard (demo_turn 1)]"
  let ?r = "foldl (\<lambda>x c. snd (leaseStep 0 x c)) (demo_lease, (\<lparr>tokens = 0, idle = [], epoch = 0\<rparr>, 0)) ?calls"
  have "tokens (fst (snd ?r)) + snd (snd ?r) + (if leaseStatus (fst ?r) = leaseActive then 1 else 0) = tokens demo_idle + 1"
    using lease_returns_slot_once [OF demo_acquire, of ?calls "fst ?r" "fst (snd ?r)" "snd (snd ?r)"] by simp
  moreover have "snd ?r = (\<lparr>tokens = 0, idle = [\<lparr>conn = 7, since = 4\<rparr>], epoch = 0\<rparr>, 1) \<and> leaseStatus (fst ?r) = leaseClosed"
    by (simp add: demo_lease_def demo_turn_def ownerRelease_def unheld_def putIdleAmid_def returnToken_def appendIdle_def)
  ultimately show ?thesis by simp
qed

theorem lease_inert_after_end_witness:
  "fst (leaseStep 0 (demo_lease\<lparr>leaseStatus := leaseInvalid\<rparr>, (demo_idle, 1)) (LeaseSend None (demo_turn 0))) = (None, Some ErrLeaseInvalid)"
  using lease_inert_after_end [of "demo_lease\<lparr>leaseStatus := leaseInvalid\<rparr>" "[]" 0 "(demo_idle, 1)" None "demo_turn 0"]
  by (simp add: demo_lease_def)

definition demo_stages :: stages where
  "demo_stages = \<lparr>pumpErr = None, limitErr = None, allocErr = None, activateErr = None, headersSent = True,
     dispatchErr = None, collected = Inr ([demo_arrived 0], None)\<rparr>"

theorem attempt_keeps_healthy_witness:
  "\<exists>r. attempt 7 demo_stages = Inr r \<and> keepConn r \<and> outErr r = None"
proof -
  obtain r where r: "attempt 7 demo_stages = Inr r"
    by (simp add: attempt_def demo_stages_def newBatchResult_def demo_arrived_def demo_response_def Arrived_def)
  with attempt_keeps_healthy [OF r] show ?thesis by (auto simp: demo_stages_def split: option.splits)
qed

end
