(* ===== verification/Pacing.thy ===== *)
theory Pacing
  imports Prelude "HOL-Library.Sublist"
begin

text \<open>
  The pacing scheduler of an origin (\<open>tth2/pacing.go\<close>): admissions queue per trial run, one scheduler loop grants
  them, and neither the origin's nor a run's ceiling on batch and request starts is ever exceeded.

  Pointers are numbers into two stores, \<open>adms\<close> for admissions (an admission's number is its \<open>seq\<close>) and \<open>runOf\<close>
  for runs, run 0 being the direct run; \<open>runs\<close> lists the members of the Go map in the order a range visits them.
  Times are nanoseconds, the zero time is 0 and every clock reading is later. The floating-point interval
  \<open>requestInterval(width, requestsPerSecond)\<close> is the field \<open>reqGap\<close> of a configuration.
\<close>

record paceConfig =
  rateSet :: bool
  reqGap :: "nat \<Rightarrow> int"
  minBatchInterval :: int

definition active :: "paceConfig \<Rightarrow> bool" where
  "active c \<longleftrightarrow> rateSet c \<or> 0 < minBatchInterval c"

record paceState =
  config :: paceConfig
  lastAt :: int
  started :: bool

definition laterTime :: "int \<Rightarrow> int \<Rightarrow> int" where
  "laterTime a b = (if a < b then b else a)"

definition readyAt :: "paceState \<Rightarrow> nat \<Rightarrow> int" where
  "readyAt s width =
     (if \<not> started s then 0
      else let ready = lastAt s + minBatchInterval (config s); d = reqGap (config s) width in
        if 0 < d then laterTime ready (lastAt s + d) else ready)"

record paceRun =
  state :: paceState
  queue :: "nat list"
  closed :: bool

record paceAdmission =
  width :: nat
  ctxDone :: bool
  cancelled :: bool
  granted :: bool

record paceScheduler =
  adms :: "nat \<Rightarrow> paceAdmission"
  runOf :: "nat \<Rightarrow> paceRun"
  runs :: "nat list"
  nextRun :: nat
  running :: bool
  originState :: paceState
  nextSeq :: nat
  selected :: "nat option"
  selectedRun :: "nat option"

definition freshState :: "paceConfig \<Rightarrow> paceState" where
  "freshState c = \<lparr>config = c, lastAt = 0, started = False\<rparr>"

definition emptyRun :: "paceConfig \<Rightarrow> paceRun" where
  "emptyRun c = \<lparr>state = freshState c, queue = [], closed = False\<rparr>"

definition noLimits :: paceConfig where
  "noLimits = \<lparr>rateSet = False, reqGap = (\<lambda>_. 0), minBatchInterval = 0\<rparr>"

definition newPaceScheduler :: "paceConfig \<Rightarrow> paceScheduler" where
  "newPaceScheduler c = \<lparr>adms = (\<lambda>_. \<lparr>width = 0, ctxDone = False, cancelled = False, granted = False\<rparr>),
     runOf = (\<lambda>_. emptyRun noLimits), runs = [0], nextRun = 1, running = False, originState = freshState c,
     nextSeq = 0, selected = None, selectedRun = None\<rparr>"

definition newRun :: "paceConfig \<Rightarrow> paceScheduler \<Rightarrow> paceScheduler" where
  "newRun c s = s\<lparr>runOf := (runOf s)(nextRun s := emptyRun c), runs := runs s @ [nextRun s], nextRun := nextRun s + 1\<rparr>"

text \<open>The first half of \<open>wait\<close>, which queues the admission and starts the loop; the nil run is run 0.\<close>

definition enqueue :: "nat \<Rightarrow> nat \<Rightarrow> paceScheduler \<Rightarrow> paceScheduler" where
  "enqueue r w s = s\<lparr>adms := (adms s)(nextSeq s := \<lparr>width = w, ctxDone = False, cancelled = False, granted = False\<rparr>),
     nextSeq := nextSeq s + 1, runOf := (runOf s)(r := runOf s r\<lparr>queue := queue (runOf s r) @ [nextSeq s]\<rparr>), running := True\<rparr>"

text \<open>The second half, once the context is done: a grant that has already happened wins.\<close>

definition abandon :: "nat \<Rightarrow> paceScheduler \<Rightarrow> paceScheduler" where
  "abandon a s = (if granted (adms s a) then s else s\<lparr>adms := (adms s)(a := adms s a\<lparr>cancelled := True\<rparr>)\<rparr>)"

definition closeRun :: "nat \<Rightarrow> paceScheduler \<Rightarrow> paceScheduler" where
  "closeRun r s = s\<lparr>runOf := (runOf s)(r := runOf s r\<lparr>closed := True\<rparr>),
     runs := (if queue (runOf s r) = [] then filter (\<lambda>q. q \<noteq> r) (runs s) else runs s)\<rparr>"

definition dead :: "paceScheduler \<Rightarrow> nat \<Rightarrow> bool" where
  "dead s a \<longleftrightarrow> cancelled (adms s a) \<or> ctxDone (adms s a)"

definition pruneRun :: "nat \<Rightarrow> paceScheduler \<Rightarrow> paceScheduler" where
  "pruneRun r s =
     (let gone = takeWhile (dead s) (queue (runOf s r)); q = dropWhile (dead s) (queue (runOf s r));
          hit = (case selected s of None \<Rightarrow> False | Some a \<Rightarrow> a \<in> set gone);
          s = s\<lparr>runOf := (runOf s)(r := runOf s r\<lparr>queue := q\<rparr>),
            selected := (if hit then None else selected s), selectedRun := (if hit then None else selectedRun s)\<rparr> in
      if r \<noteq> 0 \<and> closed (runOf s r) \<and> q = [] then s\<lparr>runs := filter (\<lambda>p. p \<noteq> r) (runs s)\<rparr> else s)"

definition pruneCancelled :: "paceScheduler \<Rightarrow> paceScheduler" where
  "pruneCancelled s = fold pruneRun (runs s) s"

definition hasQueuedAdmissions :: "paceScheduler \<Rightarrow> bool" where
  "hasQueuedAdmissions s \<longleftrightarrow> list_ex (\<lambda>r. queue (runOf s r) \<noteq> []) (runs s)"

definition selectVisit :: "int \<Rightarrow> nat \<Rightarrow> int \<times> paceScheduler \<Rightarrow> int \<times> paceScheduler" where
  "selectVisit now r = (\<lambda>(earliest, s).
     case queue (runOf s r) of
       [] \<Rightarrow> (earliest, s)
     | a # _ \<Rightarrow>
         let ready = readyAt (state (runOf s r)) (width (adms s a)) in
         if now < ready then (if earliest = 0 \<or> ready < earliest then ready else earliest, s)
         else if selected s = None \<or> a < the (selected s) then (earliest, s\<lparr>selected := Some a, selectedRun := Some r\<rparr>)
         else (earliest, s))"

definition selectAdmission :: "int \<Rightarrow> paceScheduler \<Rightarrow> int \<times> paceScheduler" where
  "selectAdmission now s = fold (selectVisit now) (runs s) (0, s)"

definition removeSelected :: "paceScheduler \<Rightarrow> paceScheduler" where
  "removeSelected s =
     (case selectedRun s of
        None \<Rightarrow> s\<lparr>selected := None, selectedRun := None\<rparr>
      | Some r \<Rightarrow>
          let q = queue (runOf s r); q = (if q \<noteq> [] \<and> Some (hd q) = selected s then tl q else q);
              s = s\<lparr>runOf := (runOf s)(r := runOf s r\<lparr>queue := q\<rparr>), selected := None, selectedRun := None\<rparr> in
          if r \<noteq> 0 \<and> closed (runOf s r) \<and> q = [] then s\<lparr>runs := filter (\<lambda>p. p \<noteq> r) (runs s)\<rparr> else s)"

definition day :: int where "day = 24 * 60 * 60 * 1000000000"

definition begin_at :: "int \<Rightarrow> paceState \<Rightarrow> paceState" where
  "begin_at now st = st\<lparr>lastAt := now, started := True\<rparr>"

text \<open>The grant at the end of a step: the clocks advance, the admission leaves its queue, its channel is closed.\<close>

definition charge :: "int \<Rightarrow> nat \<Rightarrow> paceScheduler \<Rightarrow> paceScheduler" where
  "charge now r s =
     (let s = s\<lparr>originState := begin_at now (originState s)\<rparr> in
      if active (config (state (runOf s r))) then s\<lparr>runOf := (runOf s)(r := runOf s r\<lparr>state := begin_at now (state (runOf s r))\<rparr>)\<rparr> else s)"

definition grant :: "int \<Rightarrow> nat \<Rightarrow> nat \<Rightarrow> paceScheduler \<Rightarrow> bool \<times> paceScheduler" where
  "grant now a r s =
     (let s = removeSelected (charge now r s);
          idle = (length (runs s) = 1 \<and> \<not> hasQueuedAdmissions s);
          s = (if idle then s\<lparr>running := False\<rparr> else s) in
      (idle, s\<lparr>adms := (adms s)(a := adms s a\<lparr>granted := True\<rparr>)\<rparr>))"

text \<open>One turn of the loop: how long to wait, whether the loop ends, and the admission granted, if any.\<close>

definition step :: "int \<Rightarrow> paceScheduler \<Rightarrow> (int \<times> bool \<times> (nat \<times> nat) option) \<times> paceScheduler" where
  "step now s0 =
     (let s1 = pruneCancelled s0;
          (earliest, s) = (if selected s1 = None then selectAdmission now s1 else (0, s1)) in
      case selected s of
        None \<Rightarrow>
          if earliest \<noteq> 0 then ((earliest - now, False, None), s)
          else if length (runs s) = 1 then ((0, True, None), s\<lparr>running := False\<rparr>) else ((day, False, None), s)
      | Some a \<Rightarrow>
          let r = the (selectedRun s) in
          if dead s a then ((0, False, None), removeSelected s)
          else
            let ready = laterTime (readyAt (originState s) (width (adms s a))) (readyAt (state (runOf s r)) (width (adms s a))) in
            if now < ready then ((ready - now, False, None), s)
            else case grant now a r s of (idle, s') \<Rightarrow> ((0, idle, Some (a, r)), s'))"

text \<open>
  Leasing: an origin creates its scheduler only when some limit is active, and a run of its own only for private
  limits. The zero lease is \<open>None\<close>; a lease without a run uses the direct one.
\<close>

definition leasePace :: "paceConfig \<Rightarrow> paceConfig \<Rightarrow> paceScheduler option \<Rightarrow> nat option option \<times> paceScheduler option" where
  "leasePace cfg private pacer =
     (if pacer = None \<and> \<not> active cfg \<and> \<not> active private then (None, None)
      else let s = (case pacer of Some s \<Rightarrow> s | None \<Rightarrow> newPaceScheduler cfg) in
        if active private then (Some (Some (nextRun s)), Some (newRun private s)) else (Some None, Some s))"

subsection \<open>Runs of the scheduler\<close>

text \<open>
  Callers and the loop interleave in any order. The grants are recorded, latest first, beside the scheduler.
\<close>

record grantRec =
  gTime :: int
  gSeq :: nat
  gRun :: nat
  gWidth :: nat

record paceWorld =
  sched :: paceScheduler
  grants :: "grantRec list"

datatype paceEvent =
    PNewRun paceConfig
  | PWait nat nat
  | PContextDone nat
  | PAbandon nat
  | PClose nat
  | PStep int

definition logGrant :: "int \<Rightarrow> paceScheduler \<Rightarrow> (nat \<times> nat) option \<Rightarrow> grantRec list" where
  "logGrant now s g = (case g of None \<Rightarrow> [] | Some (a, r) \<Rightarrow> [\<lparr>gTime = now, gSeq = a, gRun = r, gWidth = width (adms s a)\<rparr>])"

fun paceEventStep :: "paceWorld \<Rightarrow> paceEvent \<Rightarrow> paceWorld" where
  "paceEventStep w (PNewRun c) = w\<lparr>sched := newRun c (sched w)\<rparr>"
| "paceEventStep w (PWait r n) = (if r < nextRun (sched w) then w\<lparr>sched := enqueue r n (sched w)\<rparr> else w)"
| "paceEventStep w (PContextDone a) =
     (let s = sched w in w\<lparr>sched := s\<lparr>adms := (adms s)(a := adms s a\<lparr>ctxDone := True\<rparr>)\<rparr>\<rparr>)"
| "paceEventStep w (PAbandon a) = (if ctxDone (adms (sched w) a) then w\<lparr>sched := abandon a (sched w)\<rparr> else w)"
| "paceEventStep w (PClose r) = (if 0 < r \<and> r < nextRun (sched w) then w\<lparr>sched := closeRun r (sched w)\<rparr> else w)"
| "paceEventStep w (PStep now) = (case step now (sched w) of
     ((_, _, g), s) \<Rightarrow> \<lparr>sched = s, grants = logGrant now s g @ grants w\<rparr>)"

definition paceStart :: "paceConfig \<Rightarrow> paceWorld" where
  "paceStart c = \<lparr>sched = newPaceScheduler c, grants = []\<rparr>"

text \<open>Consecutive starts keep the configured distance, that of the later batch's width included.\<close>

fun spaced :: "paceConfig \<Rightarrow> grantRec list \<Rightarrow> bool" where
  "spaced c (g # h # gs) \<longleftrightarrow> gTime h + minBatchInterval c \<le> gTime g \<and> (0 < reqGap c (gWidth g) \<longrightarrow> gTime h + reqGap c (gWidth g) \<le> gTime g)
     \<and> spaced c (h # gs)"
| "spaced c gs \<longleftrightarrow> True"

definition byRun :: "nat \<Rightarrow> grantRec list \<Rightarrow> grantRec list" where
  "byRun r gs = filter (\<lambda>g. gRun g = r) gs"

lemma byRun_simps [simp]:
  "byRun r [] = []" "byRun r (g # gs) = (if gRun g = r then g # byRun r gs else byRun r gs)"
  by (simp_all add: byRun_def)

subsection \<open>What pruning, selecting and removing leave alone\<close>

definition quiet :: "paceScheduler \<Rightarrow> paceScheduler \<Rightarrow> bool" where
  "quiet s t \<longleftrightarrow> originState t = originState s \<and> adms t = adms s \<and> nextSeq t = nextSeq s \<and> nextRun t = nextRun s \<and>
     (\<forall>r. state (runOf t r) = state (runOf s r) \<and> suffix (queue (runOf t r)) (queue (runOf s r)))"

definition selOk :: "paceScheduler \<Rightarrow> bool" where
  "selOk s \<longleftrightarrow> (\<forall>a. selected s = Some a \<longrightarrow> (\<exists>r. selectedRun s = Some r \<and> queue (runOf s r) \<noteq> [] \<and> hd (queue (runOf s r)) = a))"

lemma quiet_refl [simp]: "quiet s s"
  by (simp add: quiet_def)

lemma quiet_trans: "quiet s t \<Longrightarrow> quiet t u \<Longrightarrow> quiet s u"
  unfolding quiet_def by (metis suffix_order.trans)

lemma quiet_fold:
  assumes "\<And>x s. quiet s (f x s)" shows "quiet s (fold f xs s)"
proof (induction xs arbitrary: s)
  case (Cons x xs)
  show ?case using quiet_trans [OF assms [of s x] Cons.IH] by simp
qed simp

lemma suffix_tl: "suffix (tl xs) xs"
  by (cases xs) (auto intro: suffix_ConsI)

lemma suffix_dropWhile': "suffix (dropWhile P xs) xs"
  by (metis suffixI takeWhile_dropWhile_id)

lemma quiet_pruneRun: "quiet s (pruneRun r s)"
  by (simp add: quiet_def pruneRun_def Let_def suffix_dropWhile')

lemma quiet_pruneCancelled: "quiet s (pruneCancelled s)"
  unfolding pruneCancelled_def by (rule quiet_fold) (rule quiet_pruneRun)

lemma quiet_selectVisit: "quiet (snd es) (snd (selectVisit now r es))"
  by (cases es) (simp add: selectVisit_def quiet_def Let_def split: list.splits)

lemma quiet_selectAdmission: "quiet s (snd (selectAdmission now s))"
proof -
  have "quiet (snd es) (snd (fold (selectVisit now) rs es))" for es rs
  proof (induction rs arbitrary: es)
    case (Cons r rs)
    show ?case using quiet_trans [OF quiet_selectVisit [of es now r] Cons.IH] by simp
  qed simp
  from this [of "(0, s)"] show ?thesis by (simp add: selectAdmission_def)
qed

lemma quiet_removeSelected: "quiet s (removeSelected s)"
  by (simp add: quiet_def removeSelected_def Let_def suffix_tl split: option.splits)

lemma dropWhile_hd: "xs \<noteq> [] \<Longrightarrow> hd xs \<notin> set (takeWhile P xs) \<Longrightarrow> dropWhile P xs = xs"
  by (cases xs) (auto split: if_splits)

lemma selOk_pruneRun:
  assumes "selOk s" shows "selOk (pruneRun r s)"
proof (cases "case selected s of None \<Rightarrow> False | Some a \<Rightarrow> a \<in> set (takeWhile (dead s) (queue (runOf s r)))")
  case True
  then show ?thesis unfolding selOk_def pruneRun_def Let_def if_P [OF True] by simp
next
  case False
  have "\<exists>p. selectedRun s = Some p \<and> queue (runOf (pruneRun r s) p) \<noteq> [] \<and> hd (queue (runOf (pruneRun r s) p)) = a"
    if a: "selected s = Some a" for a
  proof -
    obtain p where p: "selectedRun s = Some p" "queue (runOf s p) \<noteq> []" "hd (queue (runOf s p)) = a"
      using assms a unfolding selOk_def by blast
    have "queue (runOf (pruneRun r s) p) = queue (runOf s p)"
      using dropWhile_hd [of "queue (runOf s r)" "dead s"] p a False by (cases "p = r") (simp_all add: pruneRun_def Let_def)
    with p show ?thesis by simp
  qed
  moreover have "selected (pruneRun r s) = selected s" "selectedRun (pruneRun r s) = selectedRun s"
    unfolding pruneRun_def Let_def if_not_P [OF False] by simp_all
  ultimately show ?thesis by (simp add: selOk_def)
qed

lemma selOk_pruneCancelled: "selOk s \<Longrightarrow> selOk (pruneCancelled s)"
proof -
  have "selOk s \<Longrightarrow> selOk (fold pruneRun rs s)" for rs
    by (induction rs arbitrary: s) (auto intro: selOk_pruneRun)
  then show "selOk s \<Longrightarrow> selOk (pruneCancelled s)" by (simp add: pruneCancelled_def)
qed

lemma selOk_selectAdmission: "selOk s \<Longrightarrow> selOk (snd (selectAdmission now s))"
proof -
  have one: "selOk (snd es) \<Longrightarrow> selOk (snd (selectVisit now r es))" for es r
    by (cases es) (auto simp: selectVisit_def selOk_def Let_def split: list.splits)
  have "selOk (snd es) \<Longrightarrow> selOk (snd (fold (selectVisit now) rs es))" for es rs
  proof (induction rs arbitrary: es)
    case (Cons r rs)
    show ?case using Cons.IH [OF one [OF Cons.prems, of r]] by simp
  qed simp
  from this [of "(0, s)"] show "selOk s \<Longrightarrow> selOk (snd (selectAdmission now s))" by (simp add: selectAdmission_def)
qed

lemma selOk_removeSelected: "selOk (removeSelected s)"
  by (simp add: selOk_def removeSelected_def Let_def split: option.splits)

subsection \<open>The invariant\<close>

definition seqs :: "grantRec list \<Rightarrow> nat \<Rightarrow> nat list" where
  "seqs gs r = rev (map gSeq (byRun r gs))"

definition stateOk :: "paceState \<Rightarrow> grantRec list \<Rightarrow> bool" where
  "stateOk st gs \<longleftrightarrow> (started st \<longleftrightarrow> gs \<noteq> []) \<and> (gs \<noteq> [] \<longrightarrow> lastAt st = gTime (hd gs)) \<and> spaced (config st) gs"

definition runsOk :: "paceScheduler \<Rightarrow> grantRec list \<Rightarrow> bool" where
  "runsOk s gs \<longleftrightarrow> (\<forall>r. if active (config (state (runOf s r))) then stateOk (state (runOf s r)) (byRun r gs) else \<not> started (state (runOf s r)))"

definition queuesOk :: "paceScheduler \<Rightarrow> (nat \<Rightarrow> nat list) \<Rightarrow> bool" where
  "queuesOk s L \<longleftrightarrow> (\<forall>r. sorted_wrt (<) (L r @ queue (runOf s r)) \<and> (\<forall>a\<in>set (L r @ queue (runOf s r)). a < nextSeq s) \<and>
       (nextRun s \<le> r \<longrightarrow> L r = [] \<and> queue (runOf s r) = [])) \<and>
     (\<forall>r p. r \<noteq> p \<longrightarrow> set (L r @ queue (runOf s r)) \<inter> set (L p @ queue (runOf s p)) = {})"

definition paceInv :: "paceConfig \<Rightarrow> paceWorld \<Rightarrow> bool" where
  "paceInv c w \<longleftrightarrow> config (originState (sched w)) = c \<and> stateOk (originState (sched w)) (grants w) \<and>
     runsOk (sched w) (grants w) \<and> queuesOk (sched w) (seqs (grants w)) \<and> selOk (sched w)"

lemma readyAt_spaced:
  assumes "stateOk st gs" and "readyAt st (gWidth g) \<le> gTime g"
  shows "spaced (config st) (g # gs)"
proof (cases gs)
  case (Cons h hs)
  with assms have "started st" "lastAt st = gTime h" "spaced (config st) (h # hs)" by (auto simp: stateOk_def)
  with assms(2) Cons show ?thesis by (auto simp: readyAt_def laterTime_def Let_def split: if_splits)
qed simp

lemma stateOk_begin:
  assumes "stateOk st gs" and "readyAt st (gWidth g) \<le> gTime g"
  shows "stateOk (begin_at (gTime g) st) (g # gs)"
  using readyAt_spaced [OF assms] by (simp add: stateOk_def begin_at_def)

lemma queuesOk_bound: "queuesOk s L \<Longrightarrow> a \<in> set (L r @ queue (runOf s r)) \<Longrightarrow> a < nextSeq s"
  by (auto simp: queuesOk_def)

lemma queuesOk_quiet:
  assumes "queuesOk s L" and "quiet s t"
  shows "queuesOk t L"
proof -
  have suf: "suffix (queue (runOf t r)) (queue (runOf s r))" and n: "nextSeq t = nextSeq s" "nextRun t = nextRun s" for r
    using assms(2) by (auto simp: quiet_def)
  have sub: "set (L r @ queue (runOf t r)) \<subseteq> set (L r @ queue (runOf s r))" for r
    using set_mono_suffix [OF suf [of r]] by auto
  have "sorted_wrt (<) (L r @ queue (runOf t r))" for r
  proof -
    obtain zs where "queue (runOf s r) = zs @ queue (runOf t r)" using suf [of r] by (auto simp: suffix_def)
    moreover have "sorted_wrt (<) (L r @ queue (runOf s r))" using assms(1) unfolding queuesOk_def by blast
    ultimately show ?thesis by (auto simp: sorted_wrt_append)
  qed
  moreover have "nextRun t \<le> r \<longrightarrow> L r = [] \<and> queue (runOf t r) = []" for r
    using assms(1) suf [of r] n by (auto simp: queuesOk_def)
  moreover have "a < nextSeq t" if "a \<in> set (L r @ queue (runOf t r))" for a r
    using queuesOk_bound [OF assms(1) subsetD [OF sub that]] n by simp
  moreover have "set (L r @ queue (runOf t r)) \<inter> set (L p @ queue (runOf t p)) = {}" if "r \<noteq> p" for r p
  proof -
    have "set (L r @ queue (runOf s r)) \<inter> set (L p @ queue (runOf s p)) = {}" using assms(1) that unfolding queuesOk_def by blast
    with sub [of r] sub [of p] show ?thesis by blast
  qed
  ultimately show ?thesis unfolding queuesOk_def by blast
qed

lemma runsOk_quiet: "runsOk s gs \<Longrightarrow> quiet s t \<Longrightarrow> runsOk t gs"
  by (simp add: runsOk_def quiet_def)

lemma paceInv_quiet:
  "paceInv c \<lparr>sched = s, grants = gs\<rparr> \<Longrightarrow> quiet s t \<Longrightarrow> selOk t \<Longrightarrow> paceInv c \<lparr>sched = t, grants = gs\<rparr>"
  using queuesOk_quiet [of s "seqs gs" t] runsOk_quiet [of s gs t] by (auto simp: paceInv_def) (auto simp: quiet_def)

lemma queuesOk_grant:
  assumes "queuesOk s L" and "queue (runOf s r) = a # q"
    and "\<And>p. queue (runOf t p) = (if p = r then q else queue (runOf s p))" and "nextSeq t = nextSeq s" "nextRun t = nextRun s"
  shows "queuesOk t (L(r := L r @ [a]))"
proof -
  have eq: "(L(r := L r @ [a])) p @ queue (runOf t p) = L p @ queue (runOf s p)" for p using assms(2,3) by simp
  have "nextRun s \<le> p \<longrightarrow> (L(r := L r @ [a])) p = [] \<and> queue (runOf t p) = []" for p
    using assms(1,2,3) by (auto simp: queuesOk_def)
  then show ?thesis using assms(1) unfolding queuesOk_def eq assms(4,5) by blast
qed

lemma queuesOk_enqueue:
  assumes "queuesOk s L" and "r < nextRun s"
  shows "queuesOk (enqueue r n s) L"
proof -
  let ?t = "enqueue r n s"
  have q: "L p @ queue (runOf ?t p) = (if p = r then (L p @ queue (runOf s p)) @ [nextSeq s] else L p @ queue (runOf s p))" for p
    by (simp add: enqueue_def)
  have bound: "a < nextSeq s" if "a \<in> set (L p @ queue (runOf s p))" for a p using queuesOk_bound [OF assms(1) that] .
  have "sorted_wrt (<) (L p @ queue (runOf ?t p))" for p
  proof -
    have "sorted_wrt (<) (L p @ queue (runOf s p))" using assms(1) unfolding queuesOk_def by blast
    then show ?thesis using bound [of _ p] unfolding q by (auto simp: sorted_wrt_append)
  qed
  moreover have "a < nextSeq ?t" if "a \<in> set (L p @ queue (runOf ?t p))" for a p
    using that bound [of a p] by (simp only: q) (auto simp: enqueue_def less_Suc_eq split: if_splits)
  moreover have "nextRun ?t \<le> p \<longrightarrow> L p = [] \<and> queue (runOf ?t p) = []" for p
    using assms by (auto simp: queuesOk_def enqueue_def)
  moreover have "set (L p @ queue (runOf ?t p)) \<inter> set (L p' @ queue (runOf ?t p')) = {}" if "p \<noteq> p'" for p p'
  proof -
    have "set (L p @ queue (runOf s p)) \<inter> set (L p' @ queue (runOf s p')) = {}" using assms(1) that unfolding queuesOk_def by blast
    then show ?thesis using that bound [of "nextSeq s" p] bound [of "nextSeq s" p'] by (simp only: q) (auto split: if_splits)
  qed
  ultimately show ?thesis unfolding queuesOk_def by blast
qed

lemma queuesOk_newRun: "queuesOk s L \<Longrightarrow> queuesOk (newRun c s) L"
  unfolding queuesOk_def newRun_def by (auto simp: emptyRun_def)

lemma runsOk_newRun:
  assumes "runsOk s gs" and "queuesOk s (seqs gs)"
  shows "runsOk (newRun c s) gs"
proof -
  have "byRun (nextRun s) gs = []" using assms(2) by (auto simp: queuesOk_def seqs_def)
  then have "stateOk (freshState c) (byRun (nextRun s) gs)" by (simp add: stateOk_def freshState_def)
  with assms(1) show ?thesis by (simp add: runsOk_def newRun_def emptyRun_def) (simp add: freshState_def)
qed

subsection \<open>Every event keeps the invariant\<close>

lemma removeSelected_grant:
  assumes "selected s = Some a" and "selectedRun s = Some r" and "queue (runOf s r) = a # q"
  shows "queue (runOf (removeSelected s) p) = (if p = r then q else queue (runOf s p))"
    and "state (runOf (removeSelected s) p) = state (runOf s p)"
  using assms by (simp_all add: removeSelected_def Let_def)

lemma removeSelected_same [simp]:
  "originState (removeSelected s) = originState s" "adms (removeSelected s) = adms s"
  "nextSeq (removeSelected s) = nextSeq s" "nextRun (removeSelected s) = nextRun s"
  using quiet_removeSelected [of s] by (simp_all add: quiet_def)

lemma grant_effect:
  assumes "selected s = Some a" and "selectedRun s = Some r" and "queue (runOf s r) = a # q" and "grant now a r s = (idle, t)"
  shows "originState t = begin_at now (originState s)" and "nextSeq t = nextSeq s" "nextRun t = nextRun s"
    and "queue (runOf t p) = (if p = r then q else queue (runOf s p))"
    and "state (runOf t p) = (if p = r \<and> active (config (state (runOf s r))) then begin_at now (state (runOf s r)) else state (runOf s p))"
    and "width (adms t a) = width (adms s a)" and "selOk t"
proof -
  define u where "u = charge now r s"
  have ch: "selected u = Some a" "selectedRun u = Some r" "originState u = begin_at now (originState s)" "adms u = adms s"
    "nextSeq u = nextSeq s" "nextRun u = nextRun s" "\<And>p. queue (runOf u p) = queue (runOf s p)"
    "\<And>p. state (runOf u p) = (if p = r \<and> active (config (state (runOf s r))) then begin_at now (state (runOf s r)) else state (runOf s p))"
    using assms(1,2) by (simp_all add: u_def charge_def Let_def)
  have u: "selected u = Some a" "selectedRun u = Some r" "queue (runOf u r) = a # q" using ch assms(3) by simp_all
  define v where "v = removeSelected u"
  have t: "originState t = originState v" "nextSeq t = nextSeq v" "nextRun t = nextRun v" "runOf t = runOf v"
    "adms t = (adms v)(a := adms v a\<lparr>granted := True\<rparr>)" "selected t = selected v" "selectedRun t = selectedRun v"
    using assms(4) by (auto simp: grant_def Let_def u_def [symmetric] v_def [symmetric] split: if_splits)
  show "originState t = begin_at now (originState s)" "nextSeq t = nextSeq s" "nextRun t = nextRun s" "width (adms t a) = width (adms s a)"
    by (simp_all add: t v_def ch)
  show "queue (runOf t p) = (if p = r then q else queue (runOf s p))"
    unfolding t v_def removeSelected_grant [OF u] ch by simp
  show "state (runOf t p) = (if p = r \<and> active (config (state (runOf s r))) then begin_at now (state (runOf s r)) else state (runOf s p))"
    unfolding t v_def removeSelected_grant [OF u] ch by simp
  show "selOk t" using selOk_removeSelected [of u] unfolding selOk_def t v_def .
qed

lemma paceInv_grant:
  assumes inv: "paceInv c \<lparr>sched = s, grants = gs\<rparr>" and sel: "selected s = Some a"
    and g: "grant now a (the (selectedRun s)) s = (idle, t)"
    and ready: "laterTime (readyAt (originState s) (width (adms s a))) (readyAt (state (runOf s (the (selectedRun s)))) (width (adms s a))) \<le> now"
  shows "paceInv c \<lparr>sched = t, grants = logGrant now t (Some (a, the (selectedRun s))) @ gs\<rparr>"
proof -
  obtain r q where r: "selectedRun s = Some r" "queue (runOf s r) = a # q"
    using inv sel unfolding paceInv_def selOk_def by (auto simp: neq_Nil_conv)
  note eff = grant_effect [OF sel r, of now idle t] and G = g [unfolded r option.sel]
  let ?g = "\<lparr>gTime = now, gSeq = a, gRun = r, gWidth = width (adms s a)\<rparr>"
  have lg: "logGrant now t (Some (a, the (selectedRun s))) = [?g]" using eff(6) [OF G] r by (simp add: logGrant_def)
  have ro: "readyAt (originState s) (gWidth ?g) \<le> gTime ?g" and rr: "readyAt (state (runOf s r)) (gWidth ?g) \<le> gTime ?g"
    using ready r by (auto simp: laterTime_def split: if_splits)
  have o: "stateOk (originState t) (?g # gs)"
    using stateOk_begin [of "originState s" gs ?g] ro inv eff(1) [OF G] by (simp add: paceInv_def)
  have "runsOk t (?g # gs)"
    using inv stateOk_begin [of "state (runOf s r)" "byRun r gs" ?g] rr
    by (auto simp: paceInv_def runsOk_def eff(5) [OF G] begin_at_def)
  moreover have "queuesOk t (seqs (?g # gs))"
  proof -
    have "seqs (?g # gs) = (seqs gs)(r := seqs gs r @ [a])" by (auto simp: seqs_def fun_eq_iff)
    then show ?thesis using inv queuesOk_grant [of s "seqs gs" r a q t] r eff(2-4) [OF G] by (simp add: paceInv_def)
  qed
  ultimately show ?thesis using o inv eff(1,7) [OF G] lg by (simp add: paceInv_def begin_at_def)
qed

lemma paceInv_step:
  assumes inv: "paceInv c \<lparr>sched = s0, grants = gs\<rparr>" and st: "step now s0 = ((wait, idle, g), t)"
  shows "paceInv c \<lparr>sched = t, grants = logGrant now t g @ gs\<rparr>"
proof -
  define s1 where "s1 = pruneCancelled s0"
  define es where "es = (if selected s1 = None then selectAdmission now s1 else (0, s1))"
  obtain earliest s where es': "es = (earliest, s)" by (cases es)
  have 1: "paceInv c \<lparr>sched = s1, grants = gs\<rparr>"
    using paceInv_quiet [OF inv quiet_pruneCancelled] selOk_pruneCancelled inv unfolding s1_def by (simp add: paceInv_def)
  have "s = snd es" by (simp add: es')
  then have 2: "paceInv c \<lparr>sched = s, grants = gs\<rparr>"
    using paceInv_quiet [OF 1 quiet_selectAdmission] selOk_selectAdmission 1 by (simp add: es_def paceInv_def)
  show ?thesis
  proof (cases "selected s")
    case None
    then have "t = s \<or> t = s\<lparr>running := False\<rparr>" "g = None"
      using st by (auto simp: step_def Let_def s1_def [symmetric] es_def [symmetric] es' split: if_splits)
    moreover have "quiet s (s\<lparr>running := False\<rparr>)" by (simp add: quiet_def)
    moreover have "selOk (s\<lparr>running := False\<rparr>)" using 2 by (simp add: paceInv_def selOk_def)
    ultimately show ?thesis using 2 paceInv_quiet [OF 2] by (auto simp: logGrant_def)
  next
    case (Some a)
    let ?r = "the (selectedRun s)"
    let ?ready = "laterTime (readyAt (originState s) (width (adms s a))) (readyAt (state (runOf s ?r)) (width (adms s a)))"
    have step: "step now s0 = (if dead s a then ((0, False, None), removeSelected s)
        else if now < ?ready then ((?ready - now, False, None), s)
        else case grant now a ?r s of (idle, s') \<Rightarrow> ((0, idle, Some (a, ?r)), s'))"
      using Some by (simp add: step_def Let_def s1_def [symmetric] es_def [symmetric] es')
    consider "dead s a" | "\<not> dead s a" "now < ?ready" | "\<not> dead s a" "\<not> now < ?ready" by blast
    then show ?thesis
    proof cases
      case 1
      then show ?thesis using paceInv_quiet [OF 2 quiet_removeSelected selOk_removeSelected] st step by (simp add: logGrant_def)
    next
      case 2
      then show ?thesis using \<open>paceInv c \<lparr>sched = s, grants = gs\<rparr>\<close> st step by (simp add: logGrant_def)
    next
      case 3
      then obtain i where "grant now a ?r s = (i, t)" "g = Some (a, ?r)" using st step by (auto split: prod.splits)
      with paceInv_grant [OF 2 Some] 3 show ?thesis by simp
    qed
  qed
qed

lemma paceInv_same:
  assumes "paceInv c w" and "originState t = originState (sched w)" "nextSeq t = nextSeq (sched w)" "nextRun t = nextRun (sched w)"
    and "selected t = selected (sched w)" "selectedRun t = selectedRun (sched w)"
    and "\<And>r. state (runOf t r) = state (runOf (sched w) r) \<and> queue (runOf t r) = queue (runOf (sched w) r)"
  shows "paceInv c (w\<lparr>sched := t\<rparr>)"
  using assms by (simp add: paceInv_def runsOk_def queuesOk_def selOk_def)

lemma selOk_enqueue:
  assumes "selOk s" shows "selOk (enqueue r n s)"
  unfolding selOk_def
proof (intro allI impI)
  fix a assume "selected (enqueue r n s) = Some a"
  then obtain p where "selectedRun s = Some p" "queue (runOf s p) \<noteq> []" "hd (queue (runOf s p)) = a"
    using assms by (auto simp: selOk_def enqueue_def)
  then show "\<exists>p. selectedRun (enqueue r n s) = Some p \<and> queue (runOf (enqueue r n s) p) \<noteq> [] \<and> hd (queue (runOf (enqueue r n s) p)) = a"
    by (intro exI [of _ p]) (auto simp: enqueue_def)
qed

lemma paceInv_event: "paceInv c w \<Longrightarrow> paceInv c (paceEventStep w e)"
proof (cases e)
  case (PNewRun c')
  assume inv: "paceInv c w"
  then have "selOk (newRun c' (sched w))"
    unfolding paceInv_def selOk_def queuesOk_def newRun_def by (auto simp: emptyRun_def) (metis le_refl)
  then show ?thesis
    using inv PNewRun queuesOk_newRun [of "sched w" "seqs (grants w)" c'] runsOk_newRun [of "sched w" "grants w" c']
    by (simp add: paceInv_def) (simp add: newRun_def)
next
  case (PWait r n)
  assume inv: "paceInv c w"
  have "state (runOf (enqueue r n (sched w)) p) = state (runOf (sched w) p)" for p by (simp add: enqueue_def)
  then have "runsOk (enqueue r n (sched w)) (grants w)" using inv by (simp add: paceInv_def runsOk_def)
  moreover have "originState (enqueue r n (sched w)) = originState (sched w)" by (simp add: enqueue_def)
  ultimately show ?thesis
    using inv PWait selOk_enqueue [of "sched w" r n] queuesOk_enqueue [of "sched w" "seqs (grants w)" r n] by (simp add: paceInv_def)
next
  case (PContextDone a)
  assume "paceInv c w" then show ?thesis using PContextDone by (auto simp: Let_def intro!: paceInv_same)
next
  case (PAbandon a)
  assume "paceInv c w" then show ?thesis using PAbandon by (auto simp: abandon_def intro!: paceInv_same)
next
  case (PClose r)
  assume "paceInv c w" then show ?thesis using PClose by (auto simp: closeRun_def intro!: paceInv_same)
next
  case (PStep now)
  assume inv: "paceInv c w"
  obtain wt idle g t where st: "step now (sched w) = ((wt, idle, g), t)" by (metis prod_cases3 prod.exhaust)
  have "w = \<lparr>sched = sched w, grants = grants w\<rparr>" by simp
  with inv have "paceInv c \<lparr>sched = sched w, grants = grants w\<rparr>" by metis
  from paceInv_step [OF this st] show ?thesis using PStep st by simp
qed

lemma paceInv_start: "paceInv c (paceStart c)"
  by (simp add: paceInv_def paceStart_def newPaceScheduler_def stateOk_def freshState_def runsOk_def queuesOk_def selOk_def
      emptyRun_def noLimits_def active_def seqs_def)

interpretation paceM: event_machine paceEventStep "\<lambda>_. True" "paceInv c" "paceStart c" for c
  by unfold_locales (auto intro: paceInv_event paceInv_start)

lemma paceInv_run: "paceInv c (foldl paceEventStep (paceStart c) es)"
  by (rule paceM.inv_run) (simp add: list_all_iff)

subsection \<open>Pacing\<close>

text \<open>C21. No interleaving of callers and scheduler turns exceeds a ceiling: consecutive batch starts of an origin are at
  least the origin's minimum interval apart and far enough apart for the later batch's requests, and so are those of
  every paced trial run under its own limits. A late wake-up earns no catch-up starts.\<close>

theorem paced_starts_keep_distance:
  fixes es c
  defines "w \<equiv> foldl paceEventStep (paceStart c) es"
  shows "spaced c (grants w) \<and>
    (\<forall>r. active (config (state (runOf (sched w) r))) \<longrightarrow> spaced (config (state (runOf (sched w) r))) (byRun r (grants w)))"
  using paceInv_run [of c es] unfolding w_def paceInv_def stateOk_def runsOk_def by auto

definition demo_config :: paceConfig where
  "demo_config = \<lparr>rateSet = False, reqGap = (\<lambda>_. 0), minBatchInterval = 10\<rparr>"

definition demo_events :: "paceEvent list" where
  "demo_events = [PNewRun demo_config, PWait 1 2, PWait 1 3, PStep 5, PStep 9, PStep 15]"

theorem paced_starts_keep_distance_witness:
  "map gTime (grants (foldl paceEventStep (paceStart noLimits) demo_events)) = [15, 5] \<and>
   active (config (state (runOf (sched (foldl paceEventStep (paceStart noLimits) demo_events)) 1))) \<and>
   spaced demo_config (byRun 1 (grants (foldl paceEventStep (paceStart noLimits) demo_events)))"
proof -
  let ?w = "foldl paceEventStep (paceStart noLimits) demo_events"
  have t: "map gTime (grants ?w) = [15, 5]" by code_simp
  have c: "config (state (runOf (sched ?w) 1)) = demo_config"
    by (simp add: demo_events_def newRun_def enqueue_def paceStart_def newPaceScheduler_def step_def pruneCancelled_def pruneRun_def selectAdmission_def
      selectVisit_def emptyRun_def freshState_def demo_config_def noLimits_def dead_def readyAt_def laterTime_def grant_def charge_def active_def
      removeSelected_def hasQueuedAdmissions_def begin_at_def logGrant_def Let_def)
  have "active demo_config" by (simp add: active_def demo_config_def)
  then show ?thesis using paced_starts_keep_distance [of noLimits demo_events] t c by metis
qed

lemma distinct_by_run:
  "(\<And>r. distinct (map gSeq (byRun r gs))) \<Longrightarrow> (\<And>r p. r \<noteq> p \<Longrightarrow> gSeq ` set (byRun r gs) \<inter> gSeq ` set (byRun p gs) = {}) \<Longrightarrow>
   distinct (map gSeq gs)"
proof (induction gs)
  case (Cons g gs)
  have "distinct (map gSeq (byRun r gs))" for r using Cons.prems(1) [of r] by (auto split: if_splits)
  moreover have "gSeq ` set (byRun r gs) \<inter> gSeq ` set (byRun p gs) = {}" if "r \<noteq> p" for r p
    using Cons.prems(2) [OF that] by (auto split: if_splits)
  ultimately have "distinct (map gSeq gs)" by (rule Cons.IH)
  moreover have "gSeq g \<noteq> gSeq h" if h: "h \<in> set gs" for h
  proof (cases "gRun h = gRun g")
    case True
    then have "h \<in> set (byRun (gRun g) gs)" using h by (simp add: byRun_def)
    then show ?thesis using Cons.prems(1) [of "gRun g"] by auto
  next
    case False
    then have "h \<in> set (byRun (gRun h) gs)" using h by (simp add: byRun_def)
    then show ?thesis using Cons.prems(2) [OF False] by auto
  qed
  ultimately show ?case by auto
qed simp

text \<open>C22. Admissions are granted in order and once: the grants of a run follow the order in which its callers queued, and no
  admission is granted twice, so its channel is never closed twice.\<close>

theorem admissions_granted_once_in_order:
  fixes es c
  defines "w \<equiv> foldl paceEventStep (paceStart c) es"
  shows "distinct (map gSeq (grants w)) \<and> sorted_wrt (>) (map gSeq (byRun r (grants w)))"
proof -
  have q: "queuesOk (sched w) (seqs (grants w))" using paceInv_run [of c es] unfolding w_def paceInv_def by blast
  have s: "sorted_wrt (<) (seqs (grants w) p)" for p
    using q by (auto simp: queuesOk_def sorted_wrt_append)
  then have gt: "sorted_wrt (>) (map gSeq (byRun p (grants w)))" for p
    using s [of p] by (simp add: seqs_def sorted_wrt_rev)
  have "distinct (map gSeq (grants w))"
  proof (rule distinct_by_run)
    show "distinct (map gSeq (byRun p (grants w)))" for p
      using s [of p] by (simp add: seqs_def strict_sorted_iff)
    show "gSeq ` set (byRun p (grants w)) \<inter> gSeq ` set (byRun p' (grants w)) = {}" if "p \<noteq> p'" for p p'
    proof -
      have "set (seqs (grants w) p @ queue (runOf (sched w) p)) \<inter> set (seqs (grants w) p' @ queue (runOf (sched w) p')) = {}"
        using q that unfolding queuesOk_def by blast
      then show ?thesis by (auto simp: seqs_def)
    qed
  qed
  with gt show ?thesis by blast
qed

end
