(* ===== verification/Encoding.thy ===== *)
theory Encoding
  imports GoStrings
begin

text \<open>
  The byte encodings of the command-line layer: the \<open>--vary\<close> encoder chain and display form
  (\<open>internal/curlblocks/varyencode.go\<close>), percent-encoding (\<open>data.go\<close>), and Go's hexadecimal and base64
  codecs as far as the program uses them. Each encoding comes with a decoder and its round trip.
\<close>

subsection \<open>Hexadecimal\<close>

definition hexDigit :: "nat \<Rightarrow> char" where
  "hexDigit n = chr (if n < 10 then 48 + n else 87 + n)"

definition hexEncode :: "str \<Rightarrow> str" where
  "hexEncode s = concat (map (\<lambda>c. [hexDigit (code c div 16), hexDigit (code c mod 16)]) s)"

definition hexVal :: "char \<Rightarrow> nat option" where
  "hexVal c = (let n = code c in
     if 48 \<le> n \<and> n \<le> 57 then Some (n - 48)
     else if 97 \<le> n \<and> n \<le> 102 then Some (n - 87)
     else if 65 \<le> n \<and> n \<le> 70 then Some (n - 55) else None)"

fun hexDecode :: "str \<Rightarrow> str option" where
  "hexDecode [] = Some []"
| "hexDecode [c] = None"
| "hexDecode (c # d # s) = (case (hexVal c, hexVal d) of
     (Some m, Some n) \<Rightarrow> map_option ((#) (chr (16 * m + n))) (hexDecode s) | _ \<Rightarrow> None)"

lemma hexVal_hexDigit: "n < 16 \<Longrightarrow> hexVal (hexDigit n) = Some n"
  by (auto simp: hexVal_def hexDigit_def Let_def)

lemma hexVal_upper_hexDigit: "n < 16 \<Longrightarrow> hexVal (upper (hexDigit n)) = Some n"
  by (auto simp: hexVal_def hexDigit_def upper_def Let_def)

lemma code_split: "chr (16 * (code c div 16) + code c mod 16) = c" "code c div 16 < 16"
  by (simp_all add: less_mult_imp_div_less)

lemma hexDecode_hexEncode: "hexDecode (hexEncode s) = Some s"
  by (induction s) (simp_all add: hexEncode_def hexVal_hexDigit code_split)

lemma hexDecode_upper: "hexDecode (map upper (hexEncode s)) = Some s"
  by (induction s) (simp_all add: hexEncode_def hexVal_upper_hexDigit code_split)

subsection \<open>Base64\<close>

definition stdAlphabet :: str where
  "stdAlphabet = ''ABCDEFGHIJKLMNOPQRSTUVWXYZabcdefghijklmnopqrstuvwxyz0123456789+/''"

definition urlAlphabet :: str where
  "urlAlphabet = ''ABCDEFGHIJKLMNOPQRSTUVWXYZabcdefghijklmnopqrstuvwxyz0123456789-_''"

fun b64Encode :: "str \<Rightarrow> str \<Rightarrow> str \<Rightarrow> str" where
  "b64Encode alpha pad [] = []"
| "b64Encode alpha pad [a] = [alpha ! (code a div 4), alpha ! (code a mod 4 * 16)] @ pad @ pad"
| "b64Encode alpha pad [a, b] = [alpha ! (code a div 4), alpha ! (code a mod 4 * 16 + code b div 16),
     alpha ! (code b mod 16 * 4)] @ pad"
| "b64Encode alpha pad (a # b # c # s) = [alpha ! (code a div 4), alpha ! (code a mod 4 * 16 + code b div 16),
     alpha ! (code b mod 16 * 4 + code c div 64), alpha ! (code c mod 64)] @ b64Encode alpha pad s"

definition b64Val :: "str \<Rightarrow> char \<Rightarrow> nat option" where
  "b64Val alpha c = IndexByte alpha c"

definition joinBits :: "nat \<Rightarrow> nat \<Rightarrow> nat \<Rightarrow> nat \<Rightarrow> str" where
  "joinBits a b c d = [chr (a * 4 + b div 16), chr (b mod 16 * 16 + c div 4), chr (c mod 4 * 64 + d)]"

text \<open>\<open>StdEncoding.DecodeString\<close> skips CR and LF, wants exact padding at the end and ignores the unused
  low bits of the last character.\<close>

fun b64Quads :: "str \<Rightarrow> str \<Rightarrow> str option" where
  "b64Quads alpha [] = Some []"
| "b64Quads alpha [a, b, c, d] =
     (case (b64Val alpha a, b64Val alpha b) of
        (Some x, Some y) \<Rightarrow>
          if c = CHR ''='' then (if d = CHR ''='' then Some (take 1 (joinBits x y 0 0)) else None)
          else (case b64Val alpha c of None \<Rightarrow> None | Some z \<Rightarrow>
            if d = CHR ''='' then Some (take 2 (joinBits x y z 0))
            else map_option (joinBits x y z) (b64Val alpha d))
      | _ \<Rightarrow> None)"
| "b64Quads alpha (a # b # c # d # e # s) =
     (case (b64Val alpha a, b64Val alpha b, b64Val alpha c, b64Val alpha d, b64Quads alpha (e # s)) of
        (Some x, Some y, Some z, Some w, Some r) \<Rightarrow> Some (joinBits x y z w @ r) | _ \<Rightarrow> None)"
| "b64Quads alpha _ = None"

definition b64Decode :: "str \<Rightarrow> str option" where
  "b64Decode s = b64Quads stdAlphabet (filter (\<lambda>c. code c \<noteq> 10 \<and> code c \<noteq> 13) s)"

lemma stdAlphabet_facts:
  "list_all (\<lambda>n. b64Val stdAlphabet (stdAlphabet ! n) = Some n \<and> stdAlphabet ! n \<noteq> CHR ''='' \<and>
     code (stdAlphabet ! n) \<noteq> 10 \<and> code (stdAlphabet ! n) \<noteq> 13) [0..<64]"
  by code_simp

lemma stdAlphabet_nth [simp]:
  assumes "n < 64"
  shows "b64Val stdAlphabet (stdAlphabet ! n) = Some n" "stdAlphabet ! n \<noteq> CHR ''=''"
    "code (stdAlphabet ! n) \<noteq> 10" "code (stdAlphabet ! n) \<noteq> 13"
  using assms stdAlphabet_facts by (simp_all add: list_all_iff)

lemma digits_div_mod:
  fixes k :: nat
  assumes "y < k"
  shows "(x * k + y) div k = x" "(x * k + y) mod k = y"
  using assms by (simp_all add: div_add1_eq)

lemma code_div: "code a div 4 < 64" "code a div 16 < 16" "code a div 64 < 4"
  by (simp_all add: less_mult_imp_div_less)

lemma quad_bounds:
  "code a mod 4 * 16 + code b div 16 < 64" "code b mod 16 * 4 + code c div 64 < 64"
  "code a div 4 < 64" "code c mod 64 < 64" "code a mod 4 * 16 < 64" "code b mod 16 * 4 < 64"
proof -
  have "code a mod 4 < 4" "code b mod 16 < 16" by simp_all
  with code_div(2) [of b] code_div(3) [of c]
  show "code a mod 4 * 16 + code b div 16 < 64" "code b mod 16 * 4 + code c div 64 < 64"
    "code a mod 4 * 16 < 64" "code b mod 16 * 4 < 64" by linarith+
qed (simp_all add: code_div)

lemma joinBits_split:
  "joinBits (code a div 4) (code a mod 4 * 16 + code b div 16) (code b mod 16 * 4 + code c div 64) (code c mod 64) = [a, b, c]"
  "take (Suc 0) (joinBits (code a div 4) (code a mod 4 * 16) 0 0) = [a]"
  "take 2 (joinBits (code a div 4) (code a mod 4 * 16 + code b div 16) (code b mod 16 * 4) 0) = [a, b]"
  by (simp_all add: joinBits_def digits_div_mod code_div)

lemma b64Encode_nonempty: "s \<noteq> [] \<Longrightarrow> \<exists>e es. b64Encode alpha pad s = e # es"
  by (cases "(alpha, pad, s)" rule: b64Encode.cases) auto

lemma b64Quads_b64Encode: "b64Quads stdAlphabet (b64Encode stdAlphabet ''='' s) = Some s"
proof (induction "stdAlphabet" "''=''" s rule: b64Encode.induct)
  case (4 a b c s)
  then show ?case
  proof (cases "s = []")
    case True
    then show ?thesis by (simp add: quad_bounds joinBits_split)
  next
    case False
    then obtain e es where e: "b64Encode stdAlphabet ''='' s = e # es" using b64Encode_nonempty by blast
    with 4 show ?thesis by (simp add: quad_bounds joinBits_split)
  qed
qed (simp_all add: quad_bounds joinBits_split)

lemma b64Encode_plain: "list_all (\<lambda>c. code c \<noteq> 10 \<and> code c \<noteq> 13) (b64Encode stdAlphabet ''='' s)"
proof -
  have "code (CHR ''='') \<noteq> 10 \<and> code (CHR ''='') \<noteq> 13" by code_simp
  then show ?thesis by (induction "stdAlphabet" "''=''" s rule: b64Encode.induct) (simp_all add: quad_bounds)
qed

lemma b64Decode_b64Encode: "b64Decode (b64Encode stdAlphabet ''='' s) = Some s"
proof -
  have "filter (\<lambda>c. code c \<noteq> 10 \<and> code c \<noteq> 13) (b64Encode stdAlphabet ''='' s) = b64Encode stdAlphabet ''='' s"
    using b64Encode_plain [of s] by (simp add: filter_id_conv list_all_iff)
  then show ?thesis by (simp add: b64Decode_def b64Quads_b64Encode)
qed

subsection \<open>Percent-encoding\<close>

definition unreserved :: "char \<Rightarrow> bool" where
  "unreserved c \<longleftrightarrow> (let n = code c in (65 \<le> n \<and> n \<le> 90) \<or> (97 \<le> n \<and> n \<le> 122) \<or> (48 \<le> n \<and> n \<le> 57) \<or>
     c = CHR ''-'' \<or> c = CHR ''.'' \<or> c = CHR ''_'' \<or> c = CHR ''~'')"

definition percentByte :: "char \<Rightarrow> str" where
  "percentByte c = [CHR ''%'', ''0123456789ABCDEF'' ! (code c div 16), ''0123456789ABCDEF'' ! (code c mod 16)]"

definition percentEncode :: "str \<Rightarrow> str \<Rightarrow> str" where
  "percentEncode b space = concat (map (\<lambda>c. if unreserved c then [c] else if c = CHR '' '' then space else percentByte c) b)"

definition urlEncode :: "str \<Rightarrow> str" where "urlEncode b = percentEncode b ''%20''"

definition formEncode :: "str \<Rightarrow> str" where "formEncode b = percentEncode b ''+''"

text \<open>The decoders of RFC 3986 and of \<open>application/x-www-form-urlencoded\<close>.\<close>

fun percentDecode :: "bool \<Rightarrow> str \<Rightarrow> str option" where
  "percentDecode form [] = Some []"
| "percentDecode form (c # s) =
     (if c = CHR ''%'' then
        (case s of d # e # r \<Rightarrow>
           (case (hexVal d, hexVal e) of
              (Some m, Some n) \<Rightarrow> map_option ((#) (chr (16 * m + n))) (percentDecode form r)
            | _ \<Rightarrow> None)
         | _ \<Rightarrow> None)
      else map_option ((#) (if form \<and> c = CHR ''+'' then CHR '' '' else c)) (percentDecode form s))"

lemma upperHex_facts:
  "list_all (\<lambda>n. hexVal (''0123456789ABCDEF'' ! n) = Some n) [0..<16]"
  by code_simp

lemma hexVal_upperHex: "n < 16 \<Longrightarrow> hexVal (''0123456789ABCDEF'' ! n) = Some n"
  using upperHex_facts by (simp add: list_all_iff)

lemma unreserved_plain: "unreserved c \<Longrightarrow> c \<noteq> CHR ''%'' \<and> c \<noteq> CHR ''+''"
  by (auto simp: unreserved_def code_def)

lemma percentDecode_percentByte: "percentDecode form (percentByte c @ r) = map_option ((#) c) (percentDecode form r)"
  by (simp add: percentByte_def hexVal_upperHex code_split)

lemma urlDecode_urlEncode: "percentDecode False (urlEncode s) = Some s"
proof (induction s)
  case (Cons c s)
  have "''%20'' = percentByte (CHR '' '')" by code_simp
  with Cons show ?case
    by (auto simp: urlEncode_def percentEncode_def percentDecode_percentByte dest: unreserved_plain)
qed (simp add: urlEncode_def percentEncode_def)

lemma formDecode_formEncode: "percentDecode True (formEncode s) = Some s"
proof (induction s)
  case (Cons c s)
  then show ?case
    by (auto simp: formEncode_def percentEncode_def percentDecode_percentByte dest: unreserved_plain)
qed (simp add: formEncode_def percentEncode_def)

subsection \<open>Encoder chains\<close>

datatype encoder = encHex | encHexUpper | encB64 | encB64URL | encURL

fun parseEncoder :: "str \<Rightarrow> encoder option" where
  "parseEncoder n =
     (if n = ''hex'' then Some encHex else if n = ''HEX'' then Some encHexUpper
      else if n = ''b64'' then Some encB64 else if n = ''b64url'' then Some encB64URL
      else if n = ''url'' then Some encURL else None)"

fun parseEncoderNames :: "str list \<Rightarrow> str + encoder list" where
  "parseEncoderNames [] = Inr []"
| "parseEncoderNames (n # ns) = (case parseEncoder n of
     None \<Rightarrow> Inl n
   | Some e \<Rightarrow> (case parseEncoderNames ns of Inl m \<Rightarrow> Inl m | Inr es \<Rightarrow> Inr (e # es)))"

definition parseEncoders :: "str \<Rightarrow> str + encoder list" where
  "parseEncoders chain = (if chain = [] then Inr [] else parseEncoderNames (SplitChar (CHR '':'') chain))"

fun applyEncoder :: "encoder \<Rightarrow> str \<Rightarrow> str" where
  "applyEncoder encHex s = hexEncode s"
| "applyEncoder encHexUpper s = map upper (hexEncode s)"
| "applyEncoder encB64 s = b64Encode stdAlphabet ''='' s"
| "applyEncoder encB64URL s = b64Encode urlAlphabet [] s"
| "applyEncoder encURL s = urlEncode s"

definition applyEncoders :: "encoder list \<Rightarrow> str \<Rightarrow> str" where
  "applyEncoders es raw = foldl (\<lambda>s e. applyEncoder e s) raw es"

text \<open>The decoders that undo each encoder; the unpadded URL alphabet first.\<close>

fun b64RawQuads :: "str \<Rightarrow> str \<Rightarrow> str option" where
  "b64RawQuads alpha [] = Some []"
| "b64RawQuads alpha [a] = None"
| "b64RawQuads alpha [a, b] = (case (b64Val alpha a, b64Val alpha b) of
     (Some x, Some y) \<Rightarrow> Some (take 1 (joinBits x y 0 0)) | _ \<Rightarrow> None)"
| "b64RawQuads alpha [a, b, c] = (case (b64Val alpha a, b64Val alpha b, b64Val alpha c) of
     (Some x, Some y, Some z) \<Rightarrow> Some (take 2 (joinBits x y z 0)) | _ \<Rightarrow> None)"
| "b64RawQuads alpha (a # b # c # d # s) =
     (case (b64Val alpha a, b64Val alpha b, b64Val alpha c, b64Val alpha d, b64RawQuads alpha s) of
        (Some x, Some y, Some z, Some w, Some r) \<Rightarrow> Some (joinBits x y z w @ r) | _ \<Rightarrow> None)"

lemma urlAlphabet_facts: "list_all (\<lambda>n. b64Val urlAlphabet (urlAlphabet ! n) = Some n) [0..<64]"
  by code_simp

lemma urlAlphabet_nth [simp]: "n < 64 \<Longrightarrow> b64Val urlAlphabet (urlAlphabet ! n) = Some n"
  using urlAlphabet_facts by (simp add: list_all_iff)

lemma b64RawQuads_b64Encode: "b64RawQuads urlAlphabet (b64Encode urlAlphabet [] s) = Some s"
  by (induction urlAlphabet "[] :: str" s rule: b64Encode.induct) (simp_all add: quad_bounds joinBits_split)

fun undoEncoder :: "encoder \<Rightarrow> str \<Rightarrow> str option" where
  "undoEncoder encHex s = hexDecode s"
| "undoEncoder encHexUpper s = hexDecode s"
| "undoEncoder encB64 s = b64Decode s"
| "undoEncoder encB64URL s = b64RawQuads urlAlphabet s"
| "undoEncoder encURL s = percentDecode False s"

fun undoEncoders :: "encoder list \<Rightarrow> str \<Rightarrow> str option" where
  "undoEncoders [] s = Some s"
| "undoEncoders (e # es) s = Option.bind (undoEncoders es s) (undoEncoder e)"

lemma undo_applyEncoder: "undoEncoder e (applyEncoder e s) = Some s"
  by (cases e) (simp_all add: hexDecode_hexEncode hexDecode_upper b64Decode_b64Encode b64RawQuads_b64Encode urlDecode_urlEncode)

text \<open>C40. No encoder chain of a \<open>--vary\<close> binding loses information: undoing its encoders in reverse recovers
  every raw value, so distinct values always reach the request as distinct text.\<close>
theorem encoder_chain_lossless: "undoEncoders es (applyEncoders es raw) = Some raw"
proof (induction es arbitrary: raw)
  case (Cons e es)
  have "applyEncoders (e # es) raw = applyEncoders es (applyEncoder e raw)" by (simp add: applyEncoders_def)
  with Cons show ?case by (simp add: undo_applyEncoder)
qed (simp add: applyEncoders_def)

subsection \<open>Display text\<close>

definition isEdge :: "char \<Rightarrow> bool" where
  "isEdge c \<longleftrightarrow> c = CHR '' '' \<or> code c = 9"

definition printable :: "char \<Rightarrow> bool" where
  "printable c \<longleftrightarrow> 0x20 \<le> code c \<and> code c \<le> 0x7e"

definition needsHexDisplay :: "str \<Rightarrow> bool" where
  "needsHexDisplay raw = (if raw = [] then False
     else if isEdge (raw ! 0) then True
     else if isEdge (raw ! (length raw - 1)) then True
     else list_ex (\<lambda>c. code c < 0x20 \<or> code c > 0x7e) raw)"

definition displayValue :: "str \<Rightarrow> str" where
  "displayValue raw = (if needsHexDisplay raw then ''$HEX['' @ hexEncode raw @ '']'' else raw)"

definition displayStrings :: "str list \<Rightarrow> str list" where
  "displayStrings xs = map displayValue xs"

lemma hexEncode_printable: "list_all printable (hexEncode s)"
proof -
  have "printable (hexDigit n)" if "n < 16" for n
    using that by (auto simp: printable_def hexDigit_def)
  then show ?thesis by (induction s) (auto simp: hexEncode_def code_split)
qed

lemma displayValue_printable: "list_all printable (displayValue raw)"
proof -
  have "list_all printable ''$HEX[]''" by code_simp
  then show ?thesis
    using hexEncode_printable [of raw]
    by (auto simp: displayValue_def needsHexDisplay_def list_all_iff list_ex_iff printable_def not_less split: if_splits)
qed

lemma displayValue_idem: "displayValue (displayValue raw) = displayValue raw"
proof (cases "needsHexDisplay raw")
  case True
  let ?d = "''$HEX['' @ hexEncode raw @ '']''"
  have d: "displayValue raw = ?d" using True by (simp add: displayValue_def)
  have "list_all printable ?d" using displayValue_printable [of raw] d by simp
  moreover have "\<not> isEdge (?d ! 0)" "\<not> isEdge (?d ! (length ?d - 1))" by (simp_all add: isEdge_def nth_append code_def)
  ultimately have "\<not> needsHexDisplay ?d"
    by (auto simp: needsHexDisplay_def list_all_iff list_ex_iff printable_def)
  then show ?thesis unfolding d by (simp add: displayValue_def)
qed (simp add: displayValue_def)

end
