(* ===== verification/HeaderFold.thy ===== *)
theory HeaderFold
  imports Encoding
begin

text \<open>
  The header family of the command line (\<open>internal/curlblocks/header.go\<close>) and cookies (\<open>cookie.go\<close>): the
  occurrences of \<open>-H\<close>, \<open>-A\<close>, \<open>-u\<close>, \<open>--oauth2-bearer\<close> and \<open>--delete-header\<close> are folded in order, preamble first,
  into the headers of a block and the names whose defaults are suppressed. Header names are folded to
  lower case byte by byte, as for the ASCII names of HTTP.
\<close>

datatype headerOrigin = headerTyped | headerValueTyped | headerBasic | headerBearer | headerBaked

record Header =
  hName :: str
  hValue :: str
  horigin :: headerOrigin

definition basicScheme :: str where "basicScheme = ''Basic ''"
definition bearerScheme :: str where "bearerScheme = ''Bearer ''"
definition acceptAll :: str where "acceptAll = ''*/*''"

text \<open>\<open>strings.ToLower\<close>, on the ASCII names that are valid.\<close>

definition headerCanon :: "str \<Rightarrow> str" where
  "headerCanon name = map lower name"

definition basicCredentials :: "str \<Rightarrow> str option" where
  "basicCredentials val = (case CutPrefix val basicScheme of
     (enc, ok) \<Rightarrow> if \<not> ok then None else b64Decode enc)"

definition mapTyped :: "(str \<Rightarrow> str) \<Rightarrow> Header \<Rightarrow> Header" where
  "mapTyped f h = (case horigin h of
       headerTyped \<Rightarrow> h\<lparr>hName := f (hName h), hValue := f (hValue h)\<rparr>
     | headerValueTyped \<Rightarrow> h\<lparr>hValue := f (hValue h)\<rparr>
     | headerBasic \<Rightarrow> (case basicCredentials (hValue h) of
         None \<Rightarrow> h | Some creds \<Rightarrow> h\<lparr>hValue := basicScheme @ b64Encode stdAlphabet ''='' (f creds)\<rparr>)
     | headerBearer \<Rightarrow> (case CutPrefix (hValue h) bearerScheme of
         (cred, ok) \<Rightarrow> if ok then h\<lparr>hValue := bearerScheme @ f cred\<rparr> else h)
     | headerBaked \<Rightarrow> h)"

datatype headerOccKind = occHeader | occUserAgent | occUser | occBearer | occDelete

record headerOcc =
  okind :: headerOccKind
  oarg :: str

datatype headerErr = HeaderEmptyName str | HeaderBadForm str

text \<open>\<open>parseHeaderSpec\<close>: a header and whether it suppresses a default instead.\<close>

definition trimLeftOWS :: "str \<Rightarrow> str" where
  "trimLeftOWS s = dropWhile (\<lambda>c. c = CHR '' '' \<or> code c = 9) s"

definition CutSuffix :: "str \<Rightarrow> str \<Rightarrow> str \<times> bool" where
  "CutSuffix s p = (if HasSuffix s p then (take (length s - length p) s, True) else (s, False))"

definition typedHeader :: "str \<Rightarrow> str \<Rightarrow> Header" where
  "typedHeader n v = \<lparr>hName = n, hValue = v, horigin = headerTyped\<rparr>"

definition parseHeaderSpec :: "str \<Rightarrow> headerErr + (Header \<times> bool)" where
  "parseHeaderSpec spec =
     (case Cut spec '':'' of (before, after, ok) \<Rightarrow>
        if ok then
          let name = TrimSpace before in
          if name = [] then Inl (HeaderEmptyName spec)
          else let v = trimLeftOWS after in
            if v \<noteq> [] then Inr (typedHeader name v, False) else Inr (typedHeader name [], True)
        else
          (case CutSuffix (TrimSpace spec) '';'' of (name, ok) \<Rightarrow>
             if \<not> ok then Inl (HeaderBadForm spec)
             else let name = TrimSpace name in
               if name = [] then Inl (HeaderEmptyName spec) else Inr (typedHeader name [], False)))"

definition authHeader :: "str \<Rightarrow> bool \<Rightarrow> str \<Rightarrow> Header option" where
  "authHeader user userSet bearer =
     (if bearer \<noteq> [] then Some \<lparr>hName = ''Authorization'', hValue = bearerScheme @ bearer, horigin = headerBearer\<rparr>
      else if userSet then
        let user = (if \<not> Contains user '':'' then user @ '':'' else user) in
        Some \<lparr>hName = ''Authorization'', hValue = basicScheme @ b64Encode stdAlphabet ''='' user, horigin = headerBasic\<rparr>
      else None)"

subsection \<open>The fold\<close>

record nameSet =
  names :: "str list"
  seen :: "str \<Rightarrow> bool"

definition nameSetAdd :: "str \<Rightarrow> nameSet \<Rightarrow> nameSet" where
  "nameSetAdd name s = (let c = headerCanon name in
     if seen s c then s else \<lparr>names = names s @ [name], seen = (seen s)(c := True)\<rparr>)"

record headerFold =
  explicit :: "Header list"
  defaults :: "str \<Rightarrow> Header option"
  hSuppress :: "str \<Rightarrow> bool"
  deleteRemoved :: "str \<Rightarrow> bool"
  touched :: nameSet

definition newHeaderFold :: headerFold where
  "newHeaderFold = \<lparr>explicit = [], defaults = (\<lambda>_. None), hSuppress = (\<lambda>_. False), deleteRemoved = (\<lambda>_. False),
     touched = \<lparr>names = [], seen = (\<lambda>_. False)\<rparr>\<rparr>"

definition foldAdd :: "Header \<Rightarrow> headerFold \<Rightarrow> headerFold" where
  "foldAdd h f = f\<lparr>explicit := explicit f @ [h], deleteRemoved := (deleteRemoved f)(headerCanon (hName h) := False)\<rparr>"

definition suppressDefault :: "str \<Rightarrow> headerFold \<Rightarrow> headerFold" where
  "suppressDefault name f = f\<lparr>hSuppress := (hSuppress f)(headerCanon name := True), touched := nameSetAdd name (touched f)\<rparr>"

definition setDefault :: "Header \<Rightarrow> headerFold \<Rightarrow> headerFold" where
  "setDefault h f = (let c = headerCanon (hName h) in
     f\<lparr>defaults := (defaults f)(c := Some h), deleteRemoved := (deleteRemoved f)(c := False)\<rparr>)"

definition clearDefault :: "str \<Rightarrow> headerFold \<Rightarrow> headerFold" where
  "clearDefault name f = (let c = headerCanon name in
     f\<lparr>defaults := (defaults f)(c := None), deleteRemoved := (deleteRemoved f)(c := True),
       touched := nameSetAdd name (touched f)\<rparr>)"

definition foldRemove :: "str \<Rightarrow> headerFold \<Rightarrow> headerFold" where
  "foldRemove name f = (let c = headerCanon name in
     clearDefault name (f\<lparr>explicit := filter (\<lambda>h. headerCanon (hName h) \<noteq> c) (explicit f)\<rparr>))"

text \<open>The scan of \<open>applySegment\<close> for the segment's authentication, then its replay.\<close>

fun scanAuth :: "nat \<Rightarrow> headerOcc list \<Rightarrow> nat option \<times> str \<times> bool \<times> str \<Rightarrow> nat option \<times> str \<times> bool \<times> str" where
  "scanAuth i [] st = st"
| "scanAuth i (oc # os) (lastAuth, user, userSet, bearer) = scanAuth (Suc i) os
     (case okind oc of
        occUser \<Rightarrow> (Some i, oarg oc, True, bearer)
      | occBearer \<Rightarrow> (Some i, user, userSet, oarg oc)
      | _ \<Rightarrow> (lastAuth, user, userSet, bearer))"

definition applyOcc :: "nat option \<Rightarrow> Header option \<Rightarrow> nat \<Rightarrow> headerOcc \<Rightarrow> headerFold \<Rightarrow> headerErr + headerFold" where
  "applyOcc lastAuth auth i oc f = (case okind oc of
       occHeader \<Rightarrow> (case parseHeaderSpec (oarg oc) of
           Inl e \<Rightarrow> Inl e
         | Inr (h, suppress) \<Rightarrow> Inr (if suppress then suppressDefault (hName h) f else foldAdd h f))
     | occUserAgent \<Rightarrow> Inr (if oarg oc = [] then clearDefault ''User-Agent'' f
           else setDefault \<lparr>hName = ''User-Agent'', hValue = oarg oc, horigin = headerValueTyped\<rparr> f)
     | occDelete \<Rightarrow> Inr (foldRemove (oarg oc) f)
     | _ \<Rightarrow> Inr (case auth of Some h \<Rightarrow> if lastAuth = Some i then setDefault h f else f | None \<Rightarrow> f))"

fun applyOccs :: "nat option \<Rightarrow> Header option \<Rightarrow> nat \<Rightarrow> headerOcc list \<Rightarrow> headerFold \<Rightarrow> headerErr + headerFold" where
  "applyOccs lastAuth auth i [] f = Inr f"
| "applyOccs lastAuth auth i (oc # os) f = (case applyOcc lastAuth auth i oc f of
     Inl e \<Rightarrow> Inl e | Inr f \<Rightarrow> applyOccs lastAuth auth (Suc i) os f)"

definition applySegment :: "headerOcc list \<Rightarrow> headerFold \<Rightarrow> headerErr + headerFold" where
  "applySegment occs f = (case scanAuth 0 occs (None, [], False, []) of (lastAuth, user, userSet, bearer) \<Rightarrow>
     applyOccs lastAuth (authHeader user userSet bearer) 0 occs f)"

definition claimed :: "str \<Rightarrow> Header list \<Rightarrow> bool" where
  "claimed c hs \<longleftrightarrow> list_ex (\<lambda>h. headerCanon (hName h) = c) hs"

definition defaultNames :: "str list" where
  "defaultNames = [''Authorization'', ''User-Agent'', ''Accept'']"

definition foldResult :: "headerFold \<Rightarrow> Header list \<times> str list" where
  "foldResult f =
     (explicit f @ concat (map (\<lambda>name. let c = headerCanon name in
          case defaults f c of
            Some h \<Rightarrow> if \<not> hSuppress f c \<and> \<not> claimed c (explicit f) then [h] else []
          | None \<Rightarrow> []) defaultNames),
      filter (\<lambda>name. hSuppress f (headerCanon name) \<or> deleteRemoved f (headerCanon name)) (names (touched f)))"

definition resolveHeaderSet :: "headerOcc list \<Rightarrow> headerOcc list \<Rightarrow> str \<Rightarrow> headerErr + (Header list \<times> str list)" where
  "resolveHeaderSet pre blk defaultUA =
     (let f = setDefault \<lparr>hName = ''Accept'', hValue = acceptAll, horigin = headerBaked\<rparr> newHeaderFold;
          f = (if defaultUA \<noteq> [] then setDefault \<lparr>hName = ''User-Agent'', hValue = defaultUA, horigin = headerBaked\<rparr> f else f) in
      case applySegment pre f of Inl e \<Rightarrow> Inl e | Inr f \<Rightarrow>
      (case applySegment blk f of Inl e \<Rightarrow> Inl e | Inr f \<Rightarrow> Inr (foldResult f)))"

subsection \<open>Cookies\<close>

record Cookie =
  cName :: str
  cValue :: str

datatype cookieErr = CookieBadForm str | CookieEmptyName str

definition parseCookiePair :: "str \<Rightarrow> cookieErr + Cookie list" where
  "parseCookiePair pair =
     (let pair = TrimSpace pair in
      if pair = [] then Inr []
      else case Cut pair ''='' of (before, after, ok) \<Rightarrow>
        if \<not> ok then Inl (CookieBadForm pair)
        else let name = TrimSpace before in
          if name = [] then Inl (CookieEmptyName pair) else Inr [\<lparr>cName = name, cValue = TrimSpace after\<rparr>])"

fun parseCookiePairs :: "str list \<Rightarrow> cookieErr + Cookie list" where
  "parseCookiePairs [] = Inr []"
| "parseCookiePairs (p # ps) = (case parseCookiePair p of Inl e \<Rightarrow> Inl e | Inr cs \<Rightarrow>
     (case parseCookiePairs ps of Inl e \<Rightarrow> Inl e | Inr ds \<Rightarrow> Inr (cs @ ds)))"

definition resolveCookies :: "str list \<Rightarrow> cookieErr + Cookie list" where
  "resolveCookies specs = parseCookiePairs (concat (map (SplitChar (CHR '';'')) specs))"

definition CookieHeader :: "Cookie list \<Rightarrow> str" where
  "CookieHeader cs = (if cs = [] then [] else Join (map (\<lambda>c. cName c @ ''='' @ cValue c) cs) ''; '')"

subsection \<open>The fold as a sequence of events\<close>

text \<open>What one occurrence does to the fold, and the events of a segment. The reference meaning of a
  sequence of events is given directly: an explicit header survives unless a later removal names it, a
  default is what the last event about its name left, and suppression is for good.\<close>

datatype hev = EvAdd Header | EvSuppress str | EvSet Header | EvClear str | EvRemove str

fun applyEv :: "headerFold \<Rightarrow> hev \<Rightarrow> headerFold" where
  "applyEv f (EvAdd h) = foldAdd h f"
| "applyEv f (EvSuppress n) = suppressDefault n f"
| "applyEv f (EvSet h) = setDefault h f"
| "applyEv f (EvClear n) = clearDefault n f"
| "applyEv f (EvRemove n) = foldRemove n f"

definition occEvents :: "nat option \<Rightarrow> Header option \<Rightarrow> nat \<Rightarrow> headerOcc \<Rightarrow> hev list" where
  "occEvents lastAuth auth i oc = (case okind oc of
       occHeader \<Rightarrow> (case parseHeaderSpec (oarg oc) of
           Inl e \<Rightarrow> [] | Inr (h, suppress) \<Rightarrow> [if suppress then EvSuppress (hName h) else EvAdd h])
     | occUserAgent \<Rightarrow> [if oarg oc = [] then EvClear ''User-Agent''
           else EvSet \<lparr>hName = ''User-Agent'', hValue = oarg oc, horigin = headerValueTyped\<rparr>]
     | occDelete \<Rightarrow> [EvRemove (oarg oc)]
     | _ \<Rightarrow> (case auth of Some h \<Rightarrow> if lastAuth = Some i then [EvSet h] else [] | None \<Rightarrow> []))"

fun occsEvents :: "nat option \<Rightarrow> Header option \<Rightarrow> nat \<Rightarrow> headerOcc list \<Rightarrow> hev list" where
  "occsEvents lastAuth auth i [] = []"
| "occsEvents lastAuth auth i (oc # os) = occEvents lastAuth auth i oc @ occsEvents lastAuth auth (Suc i) os"

definition segEvents :: "headerOcc list \<Rightarrow> hev list" where
  "segEvents occs = (case scanAuth 0 occs (None, [], False, []) of (lastAuth, user, userSet, bearer) \<Rightarrow>
     occsEvents lastAuth (authHeader user userSet bearer) 0 occs)"

fun evCanon :: "hev \<Rightarrow> str" where
  "evCanon (EvAdd h) = headerCanon (hName h)"
| "evCanon (EvSuppress n) = headerCanon n"
| "evCanon (EvSet h) = headerCanon (hName h)"
| "evCanon (EvClear n) = headerCanon n"
| "evCanon (EvRemove n) = headerCanon n"

fun survivors :: "hev list \<Rightarrow> Header list" where
  "survivors [] = []"
| "survivors (EvAdd h # es) =
     (if list_ex (\<lambda>e. \<exists>n. e = EvRemove n \<and> headerCanon n = headerCanon (hName h)) es then survivors es else h # survivors es)"
| "survivors (e # es) = survivors es"

fun lastDefault :: "str \<Rightarrow> Header option \<Rightarrow> hev list \<Rightarrow> Header option" where
  "lastDefault c d [] = d"
| "lastDefault c d (e # es) = lastDefault c
     (if evCanon e = c then (case e of EvSet h \<Rightarrow> Some h | EvClear _ \<Rightarrow> None | EvRemove _ \<Rightarrow> None | _ \<Rightarrow> d) else d) es"

definition suppresses :: "str \<Rightarrow> hev list \<Rightarrow> bool" where
  "suppresses c es \<longleftrightarrow> (\<exists>n. EvSuppress n \<in> set es \<and> headerCanon n = c)"

fun removedLast :: "str \<Rightarrow> bool \<Rightarrow> hev list \<Rightarrow> bool" where
  "removedLast c b [] = b"
| "removedLast c b (e # es) = removedLast c
     (if evCanon e = c then (case e of EvAdd _ \<Rightarrow> False | EvSet _ \<Rightarrow> False | EvClear _ \<Rightarrow> True | EvRemove _ \<Rightarrow> True | _ \<Rightarrow> b) else b) es"

lemma applyOccs_events: "applyOccs lastAuth auth i occs f = Inr f' \<Longrightarrow> f' = foldl applyEv f (occsEvents lastAuth auth i occs)"
proof (induction occs arbitrary: i f)
  case (Cons oc occs)
  from Cons.prems obtain g where g: "applyOcc lastAuth auth i oc f = Inr g" "applyOccs lastAuth auth (Suc i) occs g = Inr f'"
    by (auto split: sum.splits)
  have "g = foldl applyEv f (occEvents lastAuth auth i oc)"
    using g(1) by (auto simp: applyOcc_def occEvents_def split: headerOccKind.splits sum.splits prod.splits option.splits if_splits)
  with Cons.IH [OF g(2)] show ?case by simp
qed simp

lemma applySegment_events: "applySegment occs f = Inr f' \<Longrightarrow> f' = foldl applyEv f (segEvents occs)"
  by (auto simp: applySegment_def segEvents_def dest: applyOccs_events split: prod.splits)

lemma fold_explicit:
  "explicit (foldl applyEv f es) =
     filter (\<lambda>h. \<not> list_ex (\<lambda>e. \<exists>n. e = EvRemove n \<and> headerCanon n = headerCanon (hName h)) es) (explicit f) @ survivors es"
proof (induction es arbitrary: f)
  case (Cons e es)
  have "(\<lambda>h. \<not> P h \<and> \<not> Q h) = (\<lambda>h. \<not> Q h \<and> \<not> P h)" for P Q :: "Header \<Rightarrow> bool" by auto
  with Cons show ?case
    by (cases e) (auto simp: foldAdd_def suppressDefault_def setDefault_def clearDefault_def foldRemove_def Let_def intro!: filter_cong)
qed simp

lemma fold_defaults: "defaults (foldl applyEv f es) c = lastDefault c (defaults f c) es"
proof (induction es arbitrary: f)
  case (Cons e es)
  then show ?case
    by (cases e) (auto simp: foldAdd_def suppressDefault_def setDefault_def clearDefault_def foldRemove_def Let_def)
qed simp

lemma fold_hSuppress: "hSuppress (foldl applyEv f es) c \<longleftrightarrow> hSuppress f c \<or> suppresses c es"
proof (induction es arbitrary: f)
  case (Cons e es)
  then show ?case
    by (cases e) (auto simp: suppresses_def foldAdd_def suppressDefault_def setDefault_def clearDefault_def foldRemove_def Let_def)
qed (simp add: suppresses_def)

lemma fold_deleteRemoved: "deleteRemoved (foldl applyEv f es) c = removedLast c (deleteRemoved f c) es"
proof (induction es arbitrary: f)
  case (Cons e es)
  then show ?case
    by (cases e) (auto simp: foldAdd_def suppressDefault_def setDefault_def clearDefault_def foldRemove_def Let_def)
qed simp

subsection \<open>Touched names\<close>

definition touched_ok :: "headerFold \<Rightarrow> bool" where
  "touched_ok f \<longleftrightarrow> distinct (map headerCanon (names (touched f))) \<and>
     (\<forall>c. seen (touched f) c \<longleftrightarrow> c \<in> headerCanon ` set (names (touched f))) \<and>
     (\<forall>c. hSuppress f c \<or> deleteRemoved f c \<longrightarrow> seen (touched f) c)"

lemma touched_ok_applyEv: "touched_ok f \<Longrightarrow> touched_ok (applyEv f e)"
  by (cases e)
     (auto simp: touched_ok_def nameSetAdd_def foldAdd_def suppressDefault_def setDefault_def clearDefault_def foldRemove_def Let_def)

interpretation headerM: event_machine applyEv "\<lambda>_. True" touched_ok newHeaderFold
  by unfold_locales (rule touched_ok_applyEv, assumption, simp add: touched_ok_def newHeaderFold_def)

definition bakedEvents :: "str \<Rightarrow> hev list" where
  "bakedEvents defaultUA = EvSet \<lparr>hName = ''Accept'', hValue = acceptAll, horigin = headerBaked\<rparr> #
     (if defaultUA \<noteq> [] then [EvSet \<lparr>hName = ''User-Agent'', hValue = defaultUA, horigin = headerBaked\<rparr>] else [])"

lemma resolveHeaderSet_events:
  assumes "resolveHeaderSet pre blk defaultUA = Inr out"
  shows "out = foldResult (foldl applyEv newHeaderFold (bakedEvents defaultUA @ segEvents pre @ segEvents blk))"
  using assms by (auto simp: resolveHeaderSet_def Let_def bakedEvents_def dest!: applySegment_events split: sum.splits if_splits)

lemma survivors_baked: "survivors (bakedEvents ua @ es) = survivors es"
  by (simp add: bakedEvents_def)

lemma suppresses_baked: "suppresses c (bakedEvents ua @ es) = suppresses c es"
  by (auto simp: suppresses_def bakedEvents_def)

text \<open>C35. Headers resolve as documented: the explicit headers are those typed with \<open>-H\<close> that no later
  \<open>--delete-header\<close> names, in order; after them comes each default (\<open>Authorization\<close>, \<open>User-Agent\<close>, \<open>Accept\<close>)
  that the last event about its name left in place, unless an explicit header claims its name or a \<open>-H 'Name:'\<close>
  anywhere suppresses it; and the suppressed names are, without repetition, those suppressed for good or
  last removed.\<close>
theorem header_resolution_meets_spec:
  assumes "resolveHeaderSet pre blk defaultUA = Inr (headers, suppressed)"
    and "es = segEvents pre @ segEvents blk"
  shows "headers = survivors es @ concat (map (\<lambda>name. let c = headerCanon name in
        case lastDefault c None (bakedEvents defaultUA @ es) of
          Some h \<Rightarrow> if \<not> suppresses c es \<and> \<not> claimed c (survivors es) then [h] else []
        | None \<Rightarrow> []) defaultNames) \<and>
     distinct (map headerCanon suppressed) \<and>
     headerCanon ` set suppressed = {c. suppresses c es \<or> removedLast c False (bakedEvents defaultUA @ es)}"
proof -
  let ?evs = "bakedEvents defaultUA @ es"
  let ?f = "foldl applyEv newHeaderFold ?evs"
  have out: "(headers, suppressed) = foldResult ?f"
    using resolveHeaderSet_events [OF assms(1)] assms(2) by simp
  have expl: "explicit ?f = survivors es"
    unfolding fold_explicit survivors_baked by (simp add: newHeaderFold_def)
  have defs: "defaults ?f c = lastDefault c None ?evs" for c
    unfolding fold_defaults by (simp add: newHeaderFold_def)
  have supp: "hSuppress ?f c = suppresses c es" for c
    unfolding fold_hSuppress suppresses_baked by (simp add: newHeaderFold_def)
  have del: "deleteRemoved ?f c = removedLast c False ?evs" for c
    unfolding fold_deleteRemoved by (simp add: newHeaderFold_def)
  have ok: "touched_ok ?f" using headerM.inv_run [of ?evs] by (simp add: list_all_iff)
  have "headers = fst (foldResult ?f)" and sup: "suppressed = snd (foldResult ?f)" using out by (metis fst_conv snd_conv)+
  then have "headers = survivors es @ concat (map (\<lambda>name. let c = headerCanon name in
        case lastDefault c None ?evs of
          Some h \<Rightarrow> if \<not> suppresses c es \<and> \<not> claimed c (survivors es) then [h] else []
        | None \<Rightarrow> []) defaultNames)"
    unfolding foldResult_def fst_conv expl defs supp by simp
  moreover have s: "suppressed = filter (\<lambda>name. suppresses (headerCanon name) es \<or> removedLast (headerCanon name) False ?evs) (names (touched ?f))"
    unfolding sup foldResult_def snd_conv supp del by simp
  have "distinct (map headerCanon suppressed)"
    using ok unfolding s touched_ok_def by (simp add: distinct_map_filter)
  moreover have "headerCanon ` set suppressed = {c. suppresses c es \<or> removedLast c False ?evs}"
    using ok unfolding s touched_ok_def supp del by auto
  ultimately show ?thesis by simp
qed

text \<open>A token of a \<open>--vary\<close> binding reaches the credentials the user typed, not their encoding: mapping a
  Basic \<open>Authorization\<close> header maps the decoded \<open>user:password\<close> text and encodes it again, mapping a Bearer
  one maps the token after the scheme, and the identity changes neither.\<close>
theorem vary_maps_typed_credentials:
  "mapTyped f (the (authHeader user True [])) =
     (the (authHeader user True []))\<lparr>hValue := basicScheme @ b64Encode stdAlphabet ''=''
        (f (if Contains user '':'' then user else user @ '':''))\<rparr> \<and>
   mapTyped f (the (authHeader user b (t # token))) =
     (the (authHeader user b (t # token)))\<lparr>hValue := bearerScheme @ f (t # token)\<rparr> \<and>
   mapTyped (\<lambda>s. s) (the (authHeader user True bearer)) = the (authHeader user True bearer)"
proof -
  have basic: "basicCredentials (basicScheme @ b64Encode stdAlphabet ''='' s) = Some s" for s
    by (simp add: basicCredentials_def CutPrefix_def b64Decode_b64Encode)
  show ?thesis
    by (auto simp: authHeader_def mapTyped_def basic CutPrefix_def Let_def)
qed

definition occ :: "headerOccKind \<Rightarrow> str \<Rightarrow> headerOcc" where
  "occ k a = \<lparr>okind = k, oarg = a\<rparr>"

theorem header_resolution_meets_spec_witness:
  "resolveHeaderSet [occ occUserAgent ''u''] [occ occDelete ''accept''] [] =
     Inr ([\<lparr>hName = ''User-Agent'', hValue = ''u'', horigin = headerValueTyped\<rparr>], [''accept'']) \<and>
   distinct (map headerCanon [''accept''])"
proof -
  have r: "resolveHeaderSet [occ occUserAgent ''u''] [occ occDelete ''accept''] [] =
     Inr ([\<lparr>hName = ''User-Agent'', hValue = ''u'', horigin = headerValueTyped\<rparr>], [''accept''])" by code_simp
  from r header_resolution_meets_spec [OF r refl] show ?thesis by blast
qed

end
