(* ===== verification/VarySource.thy ===== *)
theory VarySource
  imports Encoding
begin

text \<open>
  The sources of a \<open>--vary\<close> binding (\<open>internal/curlblocks/varysource.go\<close>): files of lines, literal lists, and
  numeric or alphabetic ranges, with the parsing of each, their sizes and the values they enumerate.
  Integers are those of a 64-bit platform; \<open>wrap64\<close> marks the places where the code computes with them.
\<close>

definition wrap64 :: "int \<Rightarrow> int" where
  "wrap64 z = (z + 2 ^ 63) mod 2 ^ 64 - 2 ^ 63"

lemma wrap64_id: "- (2 ^ 63) \<le> z \<Longrightarrow> z < 2 ^ 63 \<Longrightarrow> wrap64 z = z"
  by (simp add: wrap64_def)

datatype rangeErr =
    BadStep str
  | NotARange str
  | MixedBases str str
  | SignedEndpoint str
  | BadNumber str
  | NotAscending str str
  | MixedHexCase str str
  | MixedAlphaCase char char
  | AlphaNotAscending char char

datatype sourceErr = EmptySource | BadList str | EmptyList | RangeErr rangeErr

record rangeSpec =
  alpha :: bool
  rstep :: int
  rcount :: int
  rlo :: int
  rhex :: bool
  rupper :: bool
  rwidth :: nat
  loCh :: nat
  hiCh :: nat

subsection \<open>Endpoints\<close>

definition splitHex :: "str \<Rightarrow> bool \<times> str" where
  "splitHex s = (if length s > 2 \<and> s ! 0 = CHR ''0'' \<and> (s ! 1 = CHR ''x'' \<or> s ! 1 = CHR ''X'') then (True, drop 2 s) else (False, s))"

definition hasLeadingZero :: "str \<Rightarrow> bool" where
  "hasLeadingZero s \<longleftrightarrow> length s > 1 \<and> s ! 0 = CHR ''0''"

definition ContainsAny :: "str \<Rightarrow> str \<Rightarrow> bool" where
  "ContainsAny s chars \<longleftrightarrow> list_ex (\<lambda>c. c \<in> set chars) s"

definition hexCase :: "str \<Rightarrow> str \<Rightarrow> rangeErr + bool" where
  "hexCase loDigits hiDigits =
     (let hasUpper = ContainsAny loDigits ''ABCDEF'' \<or> ContainsAny hiDigits ''ABCDEF'';
          hasLower = ContainsAny loDigits ''abcdef'' \<or> ContainsAny hiDigits ''abcdef'' in
      if hasUpper \<and> hasLower then Inl (MixedHexCase loDigits hiDigits) else Inr hasUpper)"

definition isLetter :: "nat \<Rightarrow> bool" where
  "isLetter n \<longleftrightarrow> (97 \<le> n \<and> n \<le> 122) \<or> (65 \<le> n \<and> n \<le> 90)"

definition isAlphaEndpoint :: "str \<Rightarrow> bool" where
  "isAlphaEndpoint s \<longleftrightarrow> length s = 1 \<and> isLetter (code (s ! 0))"

definition sameAlphaCase :: "char \<Rightarrow> char \<Rightarrow> bool" where
  "sameAlphaCase a b \<longleftrightarrow> (code a \<ge> 97) = (code b \<ge> 97)"

text \<open>\<open>strconv.ParseInt\<close> with base 16 on an unsigned spelling. Underscores are rejected, as with any explicit
  base.\<close>

fun parseHexDigits :: "str \<Rightarrow> int \<Rightarrow> int \<times> num_error option" where
  "parseHexDigits [] n = (n, None)"
| "parseHexDigits (c # s) n =
     (case hexVal c of
        None \<Rightarrow> (0, Some ErrSyntax)
      | Some d \<Rightarrow> if n \<ge> 2 ^ 60 then (maxUint64, Some ErrRange) else parseHexDigits s (n * 16 + int d))"

definition ParseInt16 :: "str \<Rightarrow> int \<times> num_error option" where
  "ParseInt16 s = (if s = [] then (0, Some ErrSyntax)
     else case parseHexDigits s 0 of (un, e) \<Rightarrow>
       if e = Some ErrSyntax then (0, e)
       else if un \<ge> 2 ^ 63 then (2 ^ 63 - 1, Some ErrRange) else (un, None))"

definition parseBase :: "bool \<Rightarrow> str \<Rightarrow> int \<times> num_error option" where
  "parseBase isHex s = (if isHex then ParseInt16 s else ParseInt s)"

definition signed :: "str \<Rightarrow> bool" where
  "signed e \<longleftrightarrow> HasPrefix e ''+'' \<or> HasPrefix e ''-''"

subsection \<open>Ranges\<close>

definition parseNumericRange :: "str \<Rightarrow> str \<Rightarrow> int \<Rightarrow> rangeErr + rangeSpec" where
  "parseNumericRange loStr hiStr step =
     (case splitHex loStr of (loHex, loDigits) \<Rightarrow>
      case splitHex hiStr of (hiHex, hiDigits) \<Rightarrow>
      if loHex \<noteq> hiHex then Inl (MixedBases loStr hiStr)
      else if signed loDigits then Inl (SignedEndpoint loDigits)
      else if signed hiDigits then Inl (SignedEndpoint hiDigits)
      else case parseBase loHex loDigits of (lo, e) \<Rightarrow>
      if e \<noteq> None then Inl (BadNumber loStr)
      else case parseBase loHex hiDigits of (hi, e) \<Rightarrow>
      if e \<noteq> None then Inl (BadNumber hiStr)
      else if lo > hi then Inl (NotAscending loStr hiStr)
      else
        let width = (if hasLeadingZero loDigits \<or> hasLeadingZero hiDigits then max (length loDigits) (length hiDigits) else 0) in
        case (if loHex then hexCase loDigits hiDigits else Inr False) of
          Inl err \<Rightarrow> Inl err
        | Inr up \<Rightarrow>
            Inr \<lparr>alpha = False, rstep = step, rcount = wrap64 (wrap64 (hi - lo) div step + 1), rlo = lo,
                 rhex = loHex, rupper = up, rwidth = width, loCh = 0, hiCh = 0\<rparr>)"

definition parseAlphaRange :: "char \<Rightarrow> char \<Rightarrow> int \<Rightarrow> rangeErr + rangeSpec" where
  "parseAlphaRange lo hi step =
     (if \<not> sameAlphaCase lo hi then Inl (MixedAlphaCase lo hi)
      else if code lo > code hi then Inl (AlphaNotAscending lo hi)
      else Inr \<lparr>alpha = True, rstep = step, rcount = (int (code hi) - int (code lo)) div step + 1, rlo = 0,
                rhex = False, rupper = False, rwidth = 0, loCh = code lo, hiCh = code hi\<rparr>)"

definition parseRange :: "str \<Rightarrow> rangeErr + rangeSpec" where
  "parseRange s =
     (case Cut s '':'' of (body, stepStr, hasStep) \<Rightarrow>
      case (if hasStep then ParseInt stepStr else (1, None)) of (step, e) \<Rightarrow>
      if hasStep \<and> (e \<noteq> None \<or> step < 1) then Inl (BadStep stepStr)
      else case Cut body ''-'' of (loStr, hiStr, ok) \<Rightarrow>
      if \<not> ok \<or> loStr = [] \<or> hiStr = [] then Inl (NotARange s)
      else if isAlphaEndpoint loStr \<and> isAlphaEndpoint hiStr then parseAlphaRange (loStr ! 0) (hiStr ! 0) step
      else parseNumericRange loStr hiStr step)"

fun hexNatDigits :: "nat \<Rightarrow> str" where
  "hexNatDigits n = (if n < 16 then [hexDigit n] else hexNatDigits (n div 16) @ [hexDigit (n mod 16)])"

declare hexNatDigits.simps [simp del]

definition FormatInt16 :: "int \<Rightarrow> str" where
  "FormatInt16 z = (if z < 0 then CHR ''-'' # hexNatDigits (nat (- z)) else hexNatDigits (nat z))"

definition rangeFormat :: "rangeSpec \<Rightarrow> int \<Rightarrow> str" where
  "rangeFormat r i =
     (let s = (if rhex r then FormatInt16 i else Itoa i);
          s = (if rhex r \<and> rupper r then map upper s else s) in
      if rwidth r > length s then replicate (rwidth r - length s) (CHR ''0'') @ s else s)"

text \<open>\<open>make\<close> with a negative length or capacity panics: \<open>None\<close>.\<close>

definition alphaValues :: "rangeSpec \<Rightarrow> str list option" where
  "alphaValues r = (if rcount r < 0 then None
     else Some (map (\<lambda>i. [chr (nat (wrap64 (int (loCh r) + wrap64 (int i * rstep r))))]) [0..<nat (rcount r)]))"

definition rangeValues :: "rangeSpec \<Rightarrow> str list option" where
  "rangeValues r = (if alpha r then alphaValues r
     else if rcount r < 0 then None
     else Some (map (\<lambda>i. rangeFormat r (wrap64 (rlo r + wrap64 (int i * rstep r)))) [0..<nat (rcount r)]))"

subsection \<open>Sources\<close>

datatype varySource = sourceFile str | sourceList "str list" | sourceRange rangeSpec

definition parseVaryList :: "str \<Rightarrow> sourceErr + str list" where
  "parseVaryList s =
     (if \<not> HasSuffix s ''}'' then Inl (BadList s)
      else let inner = take (length s - 2) (drop 1 s) in
        if inner = [] then Inl EmptyList else Inr (SplitChar (CHR '','') inner))"

definition parseVarySource :: "str \<Rightarrow> sourceErr + varySource" where
  "parseVarySource s =
     (if s = [] then Inl EmptySource
      else if s ! 0 = CHR ''@'' then Inr (sourceFile (drop 1 s))
      else if s ! 0 = CHR ''{'' then (case parseVaryList s of Inl e \<Rightarrow> Inl e | Inr l \<Rightarrow> Inr (sourceList l))
      else (case parseRange s of Inl e \<Rightarrow> Inl (RangeErr e) | Inr r \<Rightarrow> Inr (sourceRange r)))"

fun staticSize :: "varySource \<Rightarrow> int option" where
  "staticSize (sourceFile f) = None"
| "staticSize (sourceList l) = Some (int (length l))"
| "staticSize (sourceRange r) = Some (rcount r)"

definition splitLines :: "str \<Rightarrow> str list" where
  "splitLines d = filter (\<lambda>l. l \<noteq> []) (map (\<lambda>l. TrimSuffix l [chr 13]) (SplitChar (chr 10) d))"

text \<open>A file that cannot be read is an error; a panic is \<open>None\<close>.\<close>

datatype readErr = EmptyFilename str | ReadFailed str str

definition readRef :: "str \<Rightarrow> (str \<Rightarrow> str option) \<Rightarrow> str \<Rightarrow> readErr + str" where
  "readRef flag readFile name =
     (if name = [] then Inl (EmptyFilename flag)
      else case readFile name of None \<Rightarrow> Inl (ReadFailed flag name) | Some d \<Rightarrow> Inr d)"

fun sourceValues :: "str \<Rightarrow> (str \<Rightarrow> str option) \<Rightarrow> varySource \<Rightarrow> (readErr + str list) option" where
  "sourceValues flag readFile (sourceFile f) = Some (map_sum id splitLines (readRef flag readFile f))"
| "sourceValues flag readFile (sourceList l) = Some (Inr l)"
| "sourceValues flag readFile (sourceRange r) = map_option Inr (rangeValues r)"

definition varySourceDescMax :: nat where "varySourceDescMax = 40"

fun describe :: "varySource \<Rightarrow> str list \<Rightarrow> str" where
  "describe (sourceFile f) displays = CHR ''@'' # displayValue f"
| "describe (sourceRange r) displays = displays ! 0 @ ''..'' @ displays ! (length displays - 1)"
| "describe (sourceList l) displays =
     (let inner = Join (map displayValue l) '','';
          inner = (if length inner > varySourceDescMax then take varySourceDescMax inner @ ''...'' else inner) in
      ''{'' @ inner @ ''}'')"

subsection \<open>Formatting and parsing endpoints\<close>

lemma parseHexDigits_hexNatDigits:
  "int n < 2 ^ 63 \<Longrightarrow> parseHexDigits (hexNatDigits n @ s) 0 = parseHexDigits s (int n) \<and>
     parseHexDigits (map upper (hexNatDigits n) @ s) 0 = parseHexDigits s (int n)"
proof (induction n arbitrary: s rule: hexNatDigits.induct)
  case (1 n)
  show ?case
  proof (cases "n < 16")
    case True
    then show ?thesis by (simp add: hexNatDigits.simps [of n] hexVal_hexDigit hexVal_upper_hexDigit)
  next
    case False
    have b: "int (n div 16) < 2 ^ 63" "int (n div 16) < 2 ^ 60" using "1.prems" by (simp_all add: zdiv_int)
    have n: "int (n div 16) * 16 + int (n mod 16) = int n" by presburger
    have c: "n mod 16 < 16" by simp
    show ?thesis
      using "1.IH" [OF False b(1)] False b(2) n hexVal_hexDigit [OF c] hexVal_upper_hexDigit [OF c]
      by (subst hexNatDigits.simps, subst hexNatDigits.simps) simp
  qed
qed

lemma hexNatDigits_nonempty [simp]: "hexNatDigits n \<noteq> []"
  by (subst hexNatDigits.simps) simp

lemma parseHexDigits_zeros: "parseHexDigits (replicate k (CHR ''0'') @ s) 0 = parseHexDigits s 0"
proof -
  have "hexVal (CHR ''0'') = Some 0" by code_simp
  then show ?thesis by (induction k) simp_all
qed

lemma parseDigits_zeros: "parseDigits (replicate k (CHR ''0'') @ s) 0 = parseDigits s 0"
proof -
  have "isDigit (CHR ''0'') \<and> digitVal (CHR ''0'') = 0" by code_simp
  then show ?thesis by (induction k) (simp_all add: maxUint64_def)
qed

lemma ParseInt_digits:
  assumes "0 \<le> z" and "z < 2 ^ 63"
  shows "ParseInt (replicate k (CHR ''0'') @ natDigits (nat z)) = (z, None)"
proof -
  let ?s = "replicate k (CHR ''0'') @ natDigits (nat z)"
  have "isDigit (CHR ''0'')" by code_simp
  then have "isDigit (hd ?s)" by (cases k) (auto intro!: natDigits_isDigit hd_in_set natDigits_nonempty)
  then have "hd ?s \<noteq> CHR ''-'' \<and> hd ?s \<noteq> CHR ''+''" by (rule isDigit_sign)
  moreover have "parseDigits ?s 0 = (z, None)"
    using parseDigits_natDigits [of "nat z" "[]"] assms by (simp add: parseDigits_zeros maxUint64_def)
  ultimately show ?thesis using assms natDigits_nonempty by (simp add: ParseInt_def ParseUint_def Let_def)
qed

lemma ParseInt16_digits:
  assumes "0 \<le> z" and "z < 2 ^ 63"
  shows "ParseInt16 (replicate k (CHR ''0'') @ hexNatDigits (nat z)) = (z, None)"
    and "ParseInt16 (replicate k (CHR ''0'') @ map upper (hexNatDigits (nat z))) = (z, None)"
  using parseHexDigits_hexNatDigits [of "nat z" "[]"] assms by (simp_all add: ParseInt16_def parseHexDigits_zeros)

lemma parse_rangeFormat:
  assumes "0 \<le> z" and "z < 2 ^ 63"
  shows "parseBase (rhex r) (rangeFormat r z) = (z, None)"
  using ParseInt_digits [OF assms, of 0] ParseInt_digits [OF assms] ParseInt16_digits [OF assms, of 0] ParseInt16_digits [OF assms] assms
  by (simp add: parseBase_def rangeFormat_def FormatInt16_def Itoa_def Let_def)

subsection \<open>Enumeration\<close>

lemma parseDigits_nonneg: "0 \<le> n \<Longrightarrow> parseDigits s n = (z, e) \<Longrightarrow> 0 \<le> z"
proof (induction s arbitrary: n)
  case (Cons c s)
  have "isDigit c \<Longrightarrow> 0 \<le> n * 10 + digitVal c" using Cons.prems(1) by (simp add: isDigit_def digitVal_def)
  with Cons.prems Cons.IH [of "n * 10 + digitVal c"] show ?case by (auto simp: maxUint64_def Let_def split: if_splits)
qed simp

lemma parseHexDigits_nonneg: "0 \<le> n \<Longrightarrow> parseHexDigits s n = (z, e) \<Longrightarrow> 0 \<le> z"
proof (induction s arbitrary: n)
  case (Cons c s)
  have "parseHexDigits s (n * 16 + int d) = (z, e) \<Longrightarrow> 0 \<le> z" for d
    using Cons.IH [of "n * 16 + int d"] Cons.prems(1) by simp
  with Cons.prems(2) show ?case by (auto simp: maxUint64_def split: if_splits option.splits)
qed simp

lemma parseBase_bounds:
  assumes "parseBase h s = (z, None)" and "\<not> signed s"
  shows "0 \<le> z \<and> z < 2 ^ 63"
proof (cases h)
  case True
  with assms parseHexDigits_nonneg [of 0 s] show ?thesis
    by (auto simp: parseBase_def ParseInt16_def split: if_splits prod.splits)
next
  case False
  with assms(1) have p: "ParseInt s = (z, None)" by (simp add: parseBase_def)
  then have "s \<noteq> []" by (auto simp: ParseInt_def)
  with assms(2) have hd: "hd s \<noteq> CHR ''-'' \<and> hd s \<noteq> CHR ''+''" by (cases s) (auto simp: signed_def)
  obtain un e where "parseDigits s 0 = (un, e)" by fastforce
  with parseDigits_nonneg [OF _ this] p hd \<open>s \<noteq> []\<close> show ?thesis
    by (auto simp: ParseInt_def ParseUint_def Let_def split: if_splits)
qed

text \<open>The arithmetic facts of a range: the count covers exactly the multiples of the step up to the high
  endpoint, and no value on the way leaves the 64-bit range.\<close>

lemma range_arith:
  fixes lo hi step :: int
  assumes "0 \<le> lo" "lo \<le> hi" "1 \<le> step" "0 \<le> i" "i \<le> (hi - lo) div step"
  shows "0 \<le> i * step" "lo + i * step \<le> hi" "i * step \<le> hi"
proof -
  have "i * step \<le> (hi - lo) div step * step" using assms by (simp add: mult_right_mono)
  also have "\<dots> \<le> hi - lo" using assms by (simp add: div_times_less_eq_dividend minus_mod_eq_div_mult [symmetric])
  finally have "i * step \<le> hi - lo" .
  with assms show "0 \<le> i * step" "lo + i * step \<le> hi" "i * step \<le> hi" by auto
qed

lemma parseNumericRange_Inr:
  assumes "parseNumericRange loStr hiStr step = Inr r" and "1 \<le> step"
  obtains lo hi where "parseBase (rhex r) (snd (splitHex loStr)) = (lo, None)" "parseBase (rhex r) (snd (splitHex hiStr)) = (hi, None)"
    "0 \<le> lo" "lo \<le> hi" "hi < 2 ^ 63" "\<not> alpha r" "rstep r = step" "rlo r = lo"
    "rcount r = wrap64 ((hi - lo) div step + 1)"
proof -
  from assms(1) obtain lo hi where p: "parseBase (rhex r) (snd (splitHex loStr)) = (lo, None)"
      "parseBase (rhex r) (snd (splitHex hiStr)) = (hi, None)" and le: "lo \<le> hi"
    and s: "\<not> signed (snd (splitHex loStr))" "\<not> signed (snd (splitHex hiStr))"
    and r: "\<not> alpha r" "rstep r = step" "rlo r = lo" "rcount r = wrap64 (wrap64 (hi - lo) div step + 1)"
    by (auto simp: parseNumericRange_def Let_def split: prod.splits if_splits sum.splits)
  note b = parseBase_bounds [OF p(1) s(1)] parseBase_bounds [OF p(2) s(2)]
  have "wrap64 (hi - lo) = hi - lo" using b le by (intro wrap64_id) auto
  with p le r b show ?thesis by (intro that) auto
qed

lemma range_count:
  assumes "0 \<le> lo" "lo \<le> hi" "hi < 2 ^ 63" and "1 \<le> step" and "n = wrap64 ((hi - lo) div step + 1)" and "0 \<le> n"
  shows "n = (hi - lo) div step + 1" and "0 \<le> (hi - lo) div step" and "hi < lo + n * step"
proof -
  have q: "0 \<le> (hi - lo) div step" "(hi - lo) div step \<le> hi - lo"
    using assms zdiv_mono2 [of "hi - lo" 1 step] by (simp_all add: pos_imp_zdiv_nonneg_iff)
  then show "0 \<le> (hi - lo) div step" by simp
  show count: "n = (hi - lo) div step + 1"
  proof (cases "(hi - lo) div step + 1 < 2 ^ 63")
    case True
    with q assms(5) show ?thesis by (simp add: wrap64_id)
  next
    case False
    with q assms have "(hi - lo) div step + 1 = 2 ^ 63" by linarith
    with assms(5) have "n = wrap64 (2 ^ 63)" by simp
    then have "n < 0" by (simp add: wrap64_def)
    with assms(6) show ?thesis by simp
  qed
  have "hi - lo < ((hi - lo) div step + 1) * step"
    using assms(4) pos_mod_bound [of step "hi - lo"] div_mult_mod_eq [of "hi - lo" step]
    by (simp only: distrib_right mult_1) linarith
  then show "hi < lo + n * step" by (simp only: count)
qed

text \<open>C38. A numeric range whose count did not overflow enumerates exactly the values LO, LO+STEP, \<open>...\<close> up to
  HI: each rendered value reads back, in the range's base, as the number it stands for, the values are
  distinct, and the next step would pass HI.\<close>
theorem numeric_range_enumerates:
  assumes "parseNumericRange loStr hiStr step = Inr r" and "1 \<le> step" and "0 \<le> rcount r"
  shows "\<exists>vs lo hi. rangeValues r = Some vs \<and> parseBase (rhex r) (snd (splitHex loStr)) = (lo, None) \<and>
     parseBase (rhex r) (snd (splitHex hiStr)) = (hi, None) \<and> int (length vs) = rcount r \<and>
     map (parseBase (rhex r)) vs = map (\<lambda>i. (lo + int i * step, None)) [0..<nat (rcount r)] \<and>
     distinct vs \<and> lo + (rcount r - 1) * step \<le> hi \<and> hi < lo + rcount r * step"
proof -
  obtain lo hi where p: "parseBase (rhex r) (snd (splitHex loStr)) = (lo, None)" "parseBase (rhex r) (snd (splitHex hiStr)) = (hi, None)"
    and b: "0 \<le> lo" "lo \<le> hi" "hi < 2 ^ 63" and r: "\<not> alpha r" "rstep r = step" "rlo r = lo"
      "rcount r = wrap64 ((hi - lo) div step + 1)"
    by (rule parseNumericRange_Inr [OF assms(1,2)])
  note count = range_count(1) [OF b assms(2) r(4) assms(3)] and q = range_count(2) [OF b assms(2) r(4) assms(3)]
  have step: "wrap64 (rlo r + wrap64 (int i * rstep r)) = lo + int i * step \<and> 0 \<le> lo + int i * step \<and> lo + int i * step < 2 ^ 63"
    if "i < nat (rcount r)" for i
  proof -
    from that count have "int i \<le> (hi - lo) div step" by linarith
    note a = range_arith [OF b(1,2) assms(2) _ this, simplified]
    then have "wrap64 (int i * step) = int i * step" using b by (intro wrap64_id) auto
    moreover have "wrap64 (lo + int i * step) = lo + int i * step" using a b by (intro wrap64_id) auto
    ultimately show ?thesis using r a b by auto
  qed
  define vs where "vs = map (\<lambda>i. rangeFormat r (wrap64 (rlo r + wrap64 (int i * rstep r)))) [0..<nat (rcount r)]"
  have read: "map (parseBase (rhex r)) vs = map (\<lambda>i. (lo + int i * step, None)) [0..<nat (rcount r)]"
    using step parse_rangeFormat [of _ r] by (simp add: vs_def)
  have "distinct (map (parseBase (rhex r)) vs)"
    unfolding read using assms(2) by (auto simp: distinct_map inj_on_def)
  then have "distinct vs" by (simp add: distinct_map)
  moreover have "rangeValues r = Some vs" using r assms(3) by (simp add: rangeValues_def vs_def)
  moreover have "lo + (rcount r - 1) * step \<le> hi"
    using range_arith(2) [OF b(1,2) assms(2) q] count by simp
  moreover have "hi < lo + rcount r * step" by (rule range_count(3) [OF b assms(2) r(4) assms(3)])
  ultimately show ?thesis using read p assms(3) by (intro exI [of _ vs] exI [of _ lo] exI [of _ hi]) (auto simp: vs_def)
qed

text \<open>C39. The count of a range can overflow: a range over all non-negative 64-bit values is accepted with the
  most negative count, and enumerating it panics.\<close>
theorem full_range_count_overflows:
  "\<exists>r. parseRange ''0-9223372036854775807'' = Inr r \<and> rcount r = - (2 ^ 63) \<and> rangeValues r = None"
proof -
  have "(case parseRange ''0-9223372036854775807'' of
      Inr r \<Rightarrow> rcount r = - (2 ^ 63) \<and> rangeValues r = None | Inl _ \<Rightarrow> False)" by code_simp
  then show ?thesis by (auto split: sum.splits)
qed

definition demo_range :: rangeSpec where
  "demo_range = \<lparr>alpha = False, rstep = 5, rcount = 3, rlo = 8, rhex = True, rupper = False, rwidth = 2, loCh = 0, hiCh = 0\<rparr>"

theorem numeric_range_enumerates_witness:
  "parseNumericRange ''0x08'' ''0x12'' 5 = Inr demo_range \<and> rangeValues demo_range = Some [''08'', ''0d'', ''12'']"
proof -
  have p: "parseNumericRange ''0x08'' ''0x12'' 5 = Inr demo_range" by code_simp
  have "0 \<le> rcount demo_range" by (simp add: demo_range_def)
  from numeric_range_enumerates [OF p _ this] have "\<exists>vs. rangeValues demo_range = Some vs \<and> length vs = 3"
    by (auto simp: demo_range_def)
  moreover have "rangeValues demo_range = Some [''08'', ''0d'', ''12'']" by code_simp
  ultimately show ?thesis using p by auto
qed

end
