(* ===== verification/Blocks.thy ===== *)
theory Blocks
  imports HeaderFold VarySource
begin

text \<open>
  Request blocks of the command line and their bodies (\<open>internal/curlblocks/types.go\<close>, \<open>segment.go\<close>, \<open>url.go\<close>,
  \<open>fileref.go\<close>, \<open>data.go\<close>, \<open>form.go\<close>, \<open>request.go\<close>). Reading files and standard input is an argument of the model: the
  reader of a block is a partial function from names to contents. Custom flags, which only their consumer
  reads, are not part of a block here.
\<close>

subsection \<open>Segments\<close>

definition blockSeparator :: str where "blockSeparator = ''--block''"

definition isSeparator :: "str \<Rightarrow> bool" where
  "isSeparator tok \<longleftrightarrow> tok = blockSeparator"

function splitBlocks :: "str list \<Rightarrow> str list list" where
  "splitBlocks [] = []"
| "splitBlocks (t # ts) = takeWhile (\<lambda>a. \<not> isSeparator a) ts # splitBlocks (dropWhile (\<lambda>a. \<not> isSeparator a) ts)"
  by pat_completeness auto
termination
  by (relation "measure length") (auto simp: less_Suc_eq_le length_dropWhile_le)

definition splitSegments :: "str list \<Rightarrow> str list \<times> str list list" where
  "splitSegments args = (takeWhile (\<lambda>a. \<not> isSeparator a) args, splitBlocks (dropWhile (\<lambda>a. \<not> isSeparator a) args))"

subsection \<open>URLs\<close>

definition schemeByte :: "nat \<Rightarrow> char \<Rightarrow> bool" where
  "schemeByte j c \<longleftrightarrow> isLetter (code c) \<or> ((isDigit c \<or> c = CHR ''+'' \<or> c = CHR ''-'' \<or> c = CHR ''.'') \<and> j \<noteq> 0)"

definition hasScheme :: "str \<Rightarrow> bool" where
  "hasScheme url = (case Index url ''://'' of
     None \<Rightarrow> False | Some i \<Rightarrow> i > 0 \<and> list_all (\<lambda>j. schemeByte j (url ! j)) [0..<i])"

definition ensureScheme :: "str \<Rightarrow> str \<Rightarrow> str" where
  "ensureScheme url scheme = (if scheme = [] \<or> hasScheme url then url else scheme @ ''://'' @ url)"

subsection \<open>Replacement\<close>

text \<open>\<open>strings.NewReplacer(...).Replace\<close> for non-empty keys: one pass, without rescanning, and the first key in
  argument order wins where several match.\<close>

function Replace :: "(str \<times> str) list \<Rightarrow> str \<Rightarrow> str" where
  "Replace reps [] = []"
| "Replace reps (c # s) =
     (case find (\<lambda>r. fst r \<noteq> [] \<and> HasPrefix (c # s) (fst r)) reps of
        None \<Rightarrow> c # Replace reps s
      | Some r \<Rightarrow> snd r @ Replace reps (drop (length (fst r)) (c # s)))"
  by pat_completeness auto
termination
proof (relation "measure (\<lambda>(_, s). length s)")
  fix reps c s r assume "find (\<lambda>r. fst r \<noteq> [] \<and> HasPrefix (c # s) (fst r)) reps = Some r"
  then have "fst r \<noteq> []" by (auto simp: find_Some_iff)
  then show "((reps, drop (length (fst r)) (c # s)), reps, c # s) \<in> measure (\<lambda>(_, s). length s)"
    by (cases "fst r") auto
qed simp_all

subsection \<open>Data pieces\<close>

record fileRef =
  rflag :: str
  rsigil :: str
  rname :: str

datatype dataKind = dataASCII | dataBinary | dataRaw | dataURLEncode

fun dataFlag :: "dataKind \<Rightarrow> str" where
  "dataFlag dataBinary = ''--data-binary''"
| "dataFlag dataRaw = ''--data-raw''"
| "dataFlag dataURLEncode = ''--data-urlencode''"
| "dataFlag dataASCII = ''--data''"

record dataPiece =
  dkind :: dataKind
  dspec :: str
  dref :: "fileRef option"
  dfield :: str

definition atFile :: "str \<Rightarrow> str option" where
  "atFile spec = (if spec \<noteq> [] \<and> spec ! 0 = CHR ''@'' then Some (drop 1 spec) else None)"

definition dataFileRef :: "dataPiece \<Rightarrow> fileRef option" where
  "dataFileRef p = (case dref p of Some r \<Rightarrow> Some r | None \<Rightarrow>
     map_option (\<lambda>n. \<lparr>rflag = dataFlag (dkind p), rsigil = ''@'', rname = n\<rparr>)
       (case dkind p of
          dataRaw \<Rightarrow> None
        | dataURLEncode \<Rightarrow> (case IndexByte (dspec p) (CHR ''@'') of
            Some at \<Rightarrow> if IndexByte (dspec p) (CHR ''='') = None then Some (drop (at + 1) (dspec p)) else None
          | None \<Rightarrow> None)
        | _ \<Rightarrow> atFile (dspec p)))"

definition stripDataFile :: "str \<Rightarrow> str" where
  "stripDataFile b = filter (\<lambda>c. code c \<noteq> 13 \<and> code c \<noteq> 10 \<and> code c \<noteq> 0) b"

definition urlencodeContent :: "str \<Rightarrow> str \<Rightarrow> str" where
  "urlencodeContent name content = (if name = [] then formEncode content else name @ ''='' @ formEncode content)"

definition refRead :: "fileRef \<Rightarrow> (str \<Rightarrow> str option) \<Rightarrow> readErr + str" where
  "refRead r readFile = readRef (rflag r) readFile (rname r)"

definition urlencodeSpec :: "str \<Rightarrow> (str \<Rightarrow> str option) \<Rightarrow> readErr + str" where
  "urlencodeSpec spec readFile = (case IndexByte spec (CHR ''='') of
       Some eq \<Rightarrow> Inr (urlencodeContent (take eq spec) (drop (eq + 1) spec))
     | None \<Rightarrow> (case IndexByte spec (CHR ''@'') of
         Some at \<Rightarrow> map_sum id (urlencodeContent (take at spec))
           (refRead \<lparr>rflag = dataFlag dataURLEncode, rsigil = ''@'', rname = drop (at + 1) spec\<rparr> readFile)
       | None \<Rightarrow> Inr (urlencodeContent [] spec)))"

definition materialise :: "(str \<Rightarrow> str option) \<Rightarrow> dataPiece \<Rightarrow> readErr + str" where
  "materialise readFile p = (case dkind p of
       dataRaw \<Rightarrow> Inr (dspec p)
     | dataURLEncode \<Rightarrow> (case dref p of
         Some r \<Rightarrow> map_sum id (urlencodeContent (dfield p)) (refRead r readFile)
       | None \<Rightarrow> urlencodeSpec (dspec p) readFile)
     | _ \<Rightarrow> (case dataFileRef p of
         None \<Rightarrow> Inr (dspec p)
       | Some r \<Rightarrow> map_sum id (if dkind p = dataBinary then id else stripDataFile) (refRead r readFile)))"

fun collect :: "('e + 'a) list \<Rightarrow> 'e + 'a list" where
  "collect [] = Inr []"
| "collect (Inl e # xs) = Inl e"
| "collect (Inr x # xs) = map_sum id ((#) x) (collect xs)"

definition dataBody :: "(str \<Rightarrow> str option) \<Rightarrow> dataPiece list \<Rightarrow> readErr + str option" where
  "dataBody readFile ps = (if ps = [] then Inr None
     else map_sum id (\<lambda>parts. Some (Join parts ''&'')) (collect (map (materialise readFile) ps)))"

subsection \<open>Form parts\<close>

datatype formKind = formLiteral | formFile | formFileText

record formPart =
  fName :: str
  fkind :: formKind
  fValue :: str
  fFileName :: str
  fType :: str

datatype formErr =
    FormNoEquals str | FormEmptyName str | FormMultiFile str | FormBadOption str str
  | FormFileNameMisplaced str | FormUnknownOption str str

fun formOptions :: "str \<Rightarrow> str list \<Rightarrow> formPart \<Rightarrow> formErr + formPart" where
  "formOptions spec [] part = Inr part"
| "formOptions spec (op # ops) part =
     (let op = TrimSpace op in
      if op = [] then formOptions spec ops part
      else case Cut op ''='' of (key, val, ok) \<Rightarrow>
        if \<not> ok then Inl (FormBadOption spec op)
        else let k = map lower (TrimSpace key) in
          if k = ''type'' then formOptions spec ops (part\<lparr>fType := TrimSpace val\<rparr>)
          else if k = ''filename'' then
            (if fkind part \<noteq> formFile then Inl (FormFileNameMisplaced spec)
             else formOptions spec ops (part\<lparr>fFileName := TrimSpace val\<rparr>))
          else Inl (FormUnknownOption spec key))"

definition parseFormSpec :: "bool \<Rightarrow> str \<Rightarrow> formErr + formPart" where
  "parseFormSpec literal spec =
     (case IndexByte spec (CHR ''='') of
        None \<Rightarrow> Inl (FormNoEquals spec)
      | Some eq \<Rightarrow>
          let name = take eq spec; rhs = drop (eq + 1) spec in
          if name = [] then Inl (FormEmptyName spec)
          else if literal then Inr \<lparr>fName = name, fkind = formLiteral, fValue = rhs, fFileName = [], fType = []\<rparr>
          else
            let segs = SplitChar (CHR '';'') rhs; content = hd segs;
                part = (if HasPrefix content ''@'' then \<lparr>fName = name, fkind = formFile, fValue = drop 1 content, fFileName = [], fType = []\<rparr>
                        else if HasPrefix content ''<'' then \<lparr>fName = name, fkind = formFileText, fValue = drop 1 content, fFileName = [], fType = []\<rparr>
                        else \<lparr>fName = name, fkind = formLiteral, fValue = content, fFileName = [], fType = []\<rparr>) in
            if fkind part = formFile \<and> Contains (fValue part) '','' then Inl (FormMultiFile spec)
            else formOptions spec (tl segs) part)"

definition formFileRef :: "formPart \<Rightarrow> fileRef option" where
  "formFileRef p = (case fkind p of
       formFile \<Rightarrow> Some \<lparr>rflag = ''-F'', rsigil = ''@'', rname = fValue p\<rparr>
     | formFileText \<Rightarrow> Some \<lparr>rflag = ''-F'', rsigil = ''<'', rname = fValue p\<rparr>
     | formLiteral \<Rightarrow> None)"

definition formContent :: "(str \<Rightarrow> str option) \<Rightarrow> formPart \<Rightarrow> readErr + str" where
  "formContent readFile p = (case formFileRef p of None \<Rightarrow> Inr (fValue p) | Some r \<Rightarrow> refRead r readFile)"

definition formEscapeName :: "str \<Rightarrow> bool \<Rightarrow> str" where
  "formEscapeName s backslash =
     (if backslash then Replace [([chr 92], [chr 92, chr 92]), ([chr 34], [chr 92, chr 34])] s
      else Replace [([chr 34], ''%22''), ([chr 13], ''%0D''), ([chr 10], ''%0A'')] s)"

record jsonPiece =
  jspec :: str
  jIsFile :: bool

definition newJSONPiece :: "str \<Rightarrow> jsonPiece" where
  "newJSONPiece s = (case atFile s of Some n \<Rightarrow> \<lparr>jspec = n, jIsFile = True\<rparr> | None \<Rightarrow> \<lparr>jspec = s, jIsFile = False\<rparr>)"

definition jsonFileRef :: "jsonPiece \<Rightarrow> fileRef" where
  "jsonFileRef p = \<lparr>rflag = ''--json'', rsigil = ''@'', rname = jspec p\<rparr>"

definition jsonLoad :: "(str \<Rightarrow> str option) \<Rightarrow> jsonPiece \<Rightarrow> readErr + str" where
  "jsonLoad readFile p = (if jIsFile p then refRead (jsonFileRef p) readFile else Inr (jspec p))"

subsection \<open>Segments partition the command line\<close>

lemma splitBlocks_rebuild:
  "ts \<noteq> [] \<Longrightarrow> isSeparator (hd ts) \<Longrightarrow> concat (map ((#) blockSeparator) (splitBlocks ts)) = ts \<and>
     list_all (list_all (\<lambda>a. \<not> isSeparator a)) (splitBlocks ts)"
proof (induction ts rule: splitBlocks.induct)
  case (2 t ts)
  let ?r = "dropWhile (\<lambda>a. \<not> isSeparator a) ts"
  have t: "t = blockSeparator" using "2.prems" by (simp add: isSeparator_def)
  have ts: "takeWhile (\<lambda>a. \<not> isSeparator a) ts @ ?r = ts" by simp
  have tw: "list_all (\<lambda>a. \<not> isSeparator a) (takeWhile (\<lambda>a. \<not> isSeparator a) ts)"
    by (auto simp: list_all_iff dest: set_takeWhileD)
  show ?case
  proof (cases "?r = []")
    case True
    then have eq: "takeWhile (\<lambda>a. \<not> isSeparator a) ts = ts" using ts by (simp only: append_Nil2)
    then have "list_all (\<lambda>a. \<not> isSeparator a) ts" using tw by (simp only:)
    with t show ?thesis unfolding splitBlocks.simps True eq by simp
  next
    case False
    then have "isSeparator (hd ?r)" using hd_dropWhile [of "\<lambda>a. \<not> isSeparator a" ts] by simp
    with "2.IH" [OF False] ts tw t show ?thesis by simp
  qed
qed simp

text \<open>Splitting a command line loses and invents nothing: the preamble and the blocks, each preceded by the
  separator, concatenate back to the arguments, and no part contains the separator.\<close>
theorem segments_partition_args:
  "case splitSegments args of (preamble, blocks) \<Rightarrow>
     preamble @ concat (map ((#) blockSeparator) blocks) = args \<and>
     list_all (list_all (\<lambda>a. \<not> isSeparator a)) (preamble # blocks)"
proof -
  let ?r = "dropWhile (\<lambda>a. \<not> isSeparator a) args"
  have ts: "takeWhile (\<lambda>a. \<not> isSeparator a) args @ ?r = args" by simp
  have tw: "list_all (\<lambda>a. \<not> isSeparator a) (takeWhile (\<lambda>a. \<not> isSeparator a) args)"
    by (auto simp: list_all_iff dest: set_takeWhileD)
  show ?thesis
  proof (cases "?r = []")
    case True
    then have eq: "takeWhile (\<lambda>a. \<not> isSeparator a) args = args" using ts by (simp only: append_Nil2)
    then have "list_all (\<lambda>a. \<not> isSeparator a) args" using tw by (simp only:)
    then show ?thesis unfolding splitSegments_def True eq by simp
  next
    case False
    then have "isSeparator (hd ?r)" using hd_dropWhile [of "\<lambda>a. \<not> isSeparator a" args] by simp
    with splitBlocks_rebuild [OF False this] ts tw show ?thesis by (simp add: splitSegments_def)
  qed
qed

subsection \<open>Replacement\<close>

declare Replace.simps [simp del]

lemma Replace_Nil [simp]: "Replace reps [] = []"
  by (simp add: Replace.simps)

definition prefix_free :: "(str \<times> str) list \<Rightarrow> bool" where
  "prefix_free reps \<longleftrightarrow> (\<forall>a\<in>set reps. \<forall>b\<in>set reps. HasPrefix (fst b) (fst a) \<longrightarrow> a = b)"

lemma HasPrefix_comparable: "HasPrefix s p \<Longrightarrow> HasPrefix s q \<Longrightarrow> HasPrefix p q \<or> HasPrefix q p"
  unfolding HasPrefix_iff by (metis append_eq_append_conv2)

lemma find_prefix_free:
  assumes "prefix_free reps"
  shows "find (\<lambda>r. fst r \<noteq> [] \<and> HasPrefix s (fst r)) reps = Some r \<longleftrightarrow> r \<in> set reps \<and> fst r \<noteq> [] \<and> HasPrefix s (fst r)"
proof
  assume "find (\<lambda>r. fst r \<noteq> [] \<and> HasPrefix s (fst r)) reps = Some r"
  then show "r \<in> set reps \<and> fst r \<noteq> [] \<and> HasPrefix s (fst r)" by (auto simp: find_Some_iff)
next
  assume r: "r \<in> set reps \<and> fst r \<noteq> [] \<and> HasPrefix s (fst r)"
  then obtain q where q: "find (\<lambda>r. fst r \<noteq> [] \<and> HasPrefix s (fst r)) reps = Some q"
    by (metis (mono_tags, lifting) find_None_iff option.exhaust)
  then have "q \<in> set reps" "HasPrefix s (fst q)" by (auto simp: find_Some_iff)
  with r assms HasPrefix_comparable [of s "fst q" "fst r"] have "q = r" by (auto simp: prefix_free_def)
  with q show "find (\<lambda>r. fst r \<noteq> [] \<and> HasPrefix s (fst r)) reps = Some r" by simp
qed

lemma Replace_order_free:
  assumes "prefix_free reps" and "set reps = set reps'"
  shows "Replace reps s = Replace reps' s"
proof (induction s rule: length_induct)
  case (1 s)
  show ?case
  proof (cases s)
    case (Cons c t)
    have "prefix_free reps'" using assms by (simp add: prefix_free_def)
    then have f: "find (\<lambda>r. fst r \<noteq> [] \<and> HasPrefix (c # t) (fst r)) reps = find (\<lambda>r. fst r \<noteq> [] \<and> HasPrefix (c # t) (fst r)) reps'"
      using find_prefix_free [OF assms(1), of "c # t"] find_prefix_free [of reps' "c # t"] assms(2)
      by (metis (no_types, lifting) not_Some_eq)
    have "length (fst r) \<noteq> 0" if "find (\<lambda>r. fst r \<noteq> [] \<and> HasPrefix (c # t) (fst r)) reps' = Some r" for r
      using that by (auto simp: find_Some_iff)
    then show ?thesis
      using 1 Cons f by (auto simp: Replace.simps(2) split: option.split)
  qed simp
qed

lemma Replace_absent:
  assumes "list_all (\<lambda>r. \<not> Contains s (fst r)) reps"
  shows "Replace reps s = s"
  using assms
proof (induction s)
  case (Cons c s)
  have "\<not> HasPrefix (c # s) (fst r) \<and> \<not> Contains s (fst r)" if "r \<in> set reps" for r
    using Cons.prems that by (auto simp: list_all_iff Contains_def split: if_splits)
  then have "find (\<lambda>r. fst r \<noteq> [] \<and> HasPrefix (c # s) (fst r)) reps = None" "list_all (\<lambda>r. \<not> Contains s (fst r)) reps"
    by (auto simp: find_None_iff list_all_iff)
  with Cons.IH show ?case by (simp add: Replace.simps(2))
qed simp

lemma Replace_bytes:
  assumes "\<forall>r\<in>set reps. length (fst r) = 1"
  shows "Replace reps s = concat (map (\<lambda>c. case find (\<lambda>r. fst r = [c]) reps of Some r \<Rightarrow> snd r | None \<Rightarrow> [c]) s)"
proof (induction s)
  case (Cons c s)
  have "fst r \<noteq> [] \<and> HasPrefix (c # s) (fst r) \<longleftrightarrow> fst r = [c]" if "r \<in> set reps" for r
    using assms that by (cases "fst r") auto
  then have f: "find (\<lambda>r. fst r \<noteq> [] \<and> HasPrefix (c # s) (fst r)) reps = find (\<lambda>r. fst r = [c]) reps"
    by (intro find_cong) auto
  have "length (fst r) = 1" if "find (\<lambda>r. fst r = [c]) reps = Some r" for r
    using that by (auto simp: find_Some_iff)
  with Cons f show ?case by (auto simp: Replace.simps(2) split: option.split)
qed simp

text \<open>Reading a quoted parameter back: a backslash escapes the next byte and a bare quote ends it.\<close>

fun unescape :: "str \<Rightarrow> str option" where
  "unescape [] = Some []"
| "unescape (c # s) = (if code c = 92 then (case s of d # t \<Rightarrow> map_option ((#) d) (unescape t) | [] \<Rightarrow> None)
     else if code c = 34 then None else map_option ((#) c) (unescape s))"

lemma chr_eq_iff: "n < 256 \<Longrightarrow> chr n = c \<longleftrightarrow> code c = n"
  by (metis chr_code code_chr)

lemma formEscapeName_percent:
  "formEscapeName s False = concat (map (\<lambda>c. if code c = 34 then ''%22'' else if code c = 13 then ''%0D''
     else if code c = 10 then ''%0A'' else [c]) s)"
proof -
  have "(case find (\<lambda>r. fst r = [c]) [([chr 34], ''%22''), ([chr 13], ''%0D''), ([chr 10], ''%0A'')] of
      Some r \<Rightarrow> snd r | None \<Rightarrow> [c]) = (if code c = 34 then ''%22'' else if code c = 13 then ''%0D''
      else if code c = 10 then ''%0A'' else [c])" for c
    by (simp add: chr_eq_iff)
  then show ?thesis unfolding formEscapeName_def by (subst Replace_bytes) simp_all
qed

lemma formEscapeName_backslash:
  "formEscapeName s True = concat (map (\<lambda>c. if code c = 92 \<or> code c = 34 then [chr 92, c] else [c]) s)"
proof -
  have "(case find (\<lambda>r. fst r = [c]) [([chr 92], [chr 92, chr 92]), ([chr 34], [chr 92, chr 34])] of
      Some r \<Rightarrow> snd r | None \<Rightarrow> [c]) = (if code c = 92 \<or> code c = 34 then [chr 92, c] else [c])" for c
    by (simp add: chr_eq_iff)
  then show ?thesis unfolding formEscapeName_def by (subst Replace_bytes) simp_all
qed

text \<open>A form field or file name cannot break out of its \<open>Content-Disposition\<close> parameter: percent mode leaves no
  quote, CR or LF in it, and in backslash mode the parameter reads back as exactly the name.\<close>
theorem form_names_stay_quoted:
  "list_all (\<lambda>c. code c \<noteq> 34 \<and> code c \<noteq> 13 \<and> code c \<noteq> 10) (formEscapeName s False) \<and>
   unescape (formEscapeName s True) = Some s"
proof
  have marks: "list_all (\<lambda>c. code c \<noteq> 34 \<and> code c \<noteq> 13 \<and> code c \<noteq> 10) ''%220DA''" by code_simp
  show "list_all (\<lambda>c. code c \<noteq> 34 \<and> code c \<noteq> 13 \<and> code c \<noteq> 10) (formEscapeName s False)"
    unfolding formEscapeName_percent using marks by (induction s) auto
  show "unescape (formEscapeName s True) = Some s"
    unfolding formEscapeName_backslash by (induction s) auto
qed

end
