(* ===== verification/Naming.thy ===== *)
theory Naming
  imports Encoding
begin

text \<open>
  Request labels (\<open>internal/curlblocks/naming.go\<close>): every request of a plan gets one complete printable
  label, unique across the plan, or the whole resolution is refused. Go maps are total functions with the
  zero value, or partial ones where presence matters; the set of reserved labels is a list. The quoting
  function \<open>strconv.Quote\<close>, used only to compare provenance, is an argument. A panic, or a search that does
  not end, is \<open>None\<close>.
\<close>

record NameSpec =
  nsName :: str
  nsCount :: nat
  nsTokens :: "str list"
  nsRows :: "str list list"
  nsSource :: nat

record Label =
  Display :: str
  Pins :: "str list"

record nameRun =
  base :: str
  count :: nat
  source :: nat
  pins :: "str list"
  auto :: bool
  origin :: str

datatype nameErr =
    NameUsedTwice str nat nat
  | LabelFromDistinctInputs str nat nat
  | LabelCollision str str str

subsection \<open>Checks and expansion\<close>

definition checkRows :: "NameSpec list \<Rightarrow> bool" where
  "checkRows specs \<longleftrightarrow> list_all (\<lambda>s. list_all (\<lambda>row. length row = length (nsTokens s)) (nsRows s)) specs"

fun checkNameOwners :: "(str \<Rightarrow> nat option) \<Rightarrow> NameSpec list \<Rightarrow> nameErr option" where
  "checkNameOwners owners [] = None"
| "checkNameOwners owners (s # ss) =
     (if nsName s = [] then checkNameOwners owners ss
      else case owners (nsName s) of
        Some src \<Rightarrow> if src \<noteq> nsSource s then Some (NameUsedTwice (nsName s) (src + 1) (nsSource s + 1))
                    else checkNameOwners (owners(nsName s \<mapsto> nsSource s)) ss
      | None \<Rightarrow> checkNameOwners (owners(nsName s \<mapsto> nsSource s)) ss)"

definition joinPairs :: "str list \<Rightarrow> str list \<Rightarrow> str" where
  "joinPairs tokens row = Join (map (\<lambda>i. tokens ! i @ ''='' @ row ! i) [0..<length tokens]) '',''"

definition provenance :: "(str \<Rightarrow> str) \<Rightarrow> NameSpec \<Rightarrow> str list \<Rightarrow> str" where
  "provenance quote spec row = quote (nsName spec) @ concat (map (\<lambda>t. ''|'' @ quote t) (nsTokens spec)) @
     concat (map (\<lambda>v. ''='' @ quote v) row)"

definition displaySpec :: "NameSpec \<Rightarrow> NameSpec" where
  "displaySpec s = s\<lparr>nsName := displayValue (nsName s), nsTokens := displayStrings (nsTokens s),
     nsRows := map displayStrings (nsRows s)\<rparr>"

definition expandRun :: "(str \<Rightarrow> str) \<Rightarrow> NameSpec \<times> NameSpec \<Rightarrow> nameRun list" where
  "expandRun quote sr = (case sr of (s, raw) \<Rightarrow>
     if nsTokens s = [] then
       [\<lparr>base = nsName s, count = nsCount s, source = nsSource s, pins = (if nsName s \<noteq> [] then [nsName s] else []),
         auto = (nsName s = []), origin = provenance quote raw []\<rparr>]
     else
       let ps = nsTokens s @ (if nsName s \<noteq> [] then [nsName s] else []);
           prefix = (if nsName s \<noteq> [] then nsName s @ '':'' else []) in
       map (\<lambda>(row, rawRow). \<lparr>base = prefix @ joinPairs (nsTokens s) row, count = nsCount s, source = nsSource s,
              pins = ps, auto = False, origin = provenance quote raw rawRow\<rparr>)
         (zip (nsRows s) (nsRows raw)))"

definition expandRuns :: "(str \<Rightarrow> str) \<Rightarrow> NameSpec list \<Rightarrow> NameSpec list \<Rightarrow> nameRun list" where
  "expandRuns quote specs raw = concat (map (expandRun quote) (zip specs raw))"

fun checkBaseOwners :: "(str \<Rightarrow> (nat \<times> str) option) \<Rightarrow> nameRun list \<Rightarrow> nameErr option" where
  "checkBaseOwners owners [] = None"
| "checkBaseOwners owners (r # rs) =
     (if auto r then checkBaseOwners owners rs
      else case owners (base r) of
        Some (src, org) \<Rightarrow>
          if src \<noteq> source r \<or> org \<noteq> origin r then Some (LabelFromDistinctInputs (base r) (src + 1) (source r + 1))
          else checkBaseOwners (owners(base r \<mapsto> (source r, origin r))) rs
      | None \<Rightarrow> checkBaseOwners (owners(base r \<mapsto> (source r, origin r))) rs)"

subsection \<open>Labels\<close>

definition digits :: "nat \<Rightarrow> nat" where
  "digits n = length (natDigits (max n 1))"

definition padTo :: "nat \<Rightarrow> str \<Rightarrow> str" where
  "padTo w s = replicate (w - length s) (CHR ''0'') @ s"

definition multiplicityLabel :: "str \<Rightarrow> nat \<Rightarrow> nat \<Rightarrow> str" where
  "multiplicityLabel b ordinal tot = (if tot \<le> 1 then b else b @ ''~'' @ padTo (digits tot) (natDigits ordinal))"

text \<open>The loop of \<open>autoLabel\<close>: spreadsheet columns, A to Z, then AA, AB and so on.\<close>

fun autoLoop :: "nat \<Rightarrow> str \<Rightarrow> str" where
  "autoLoop i name = (if i = 0 then name else autoLoop ((i - 1) div 26) (chr (65 + (i - 1) mod 26) # name))"

declare autoLoop.simps [simp del]

definition autoLabel :: "nat \<Rightarrow> str" where
  "autoLabel i = autoLoop (i + 1) []"

definition autoBaseAvailable :: "str \<Rightarrow> nat \<Rightarrow> str list \<Rightarrow> bool" where
  "autoBaseAvailable b n reserved \<longleftrightarrow> b \<notin> set reserved \<and>
     list_all (\<lambda>k. multiplicityLabel b k n \<notin> set reserved) [1..<n + 1]"

partial_function (option) pickAuto :: "nat \<Rightarrow> str list \<Rightarrow> nat \<Rightarrow> nat option" where
  "pickAuto n reserved candidate =
     (if autoBaseAvailable (autoLabel candidate) n reserved then Some candidate
      else pickAuto n reserved (candidate + 1))"

declare pickAuto.simps [code]

fun assignAuto :: "nameRun list \<Rightarrow> (str \<Rightarrow> nat) \<Rightarrow> str list \<Rightarrow> (nameRun list \<times> (str \<Rightarrow> nat)) option" where
  "assignAuto [] totals reserved = Some ([], totals)"
| "assignAuto (r # rs) totals reserved =
     (if \<not> auto r then map_option (\<lambda>(rs, t). (r # rs, t)) (assignAuto rs totals reserved)
      else case pickAuto (count r) reserved 0 of
        None \<Rightarrow> None
      | Some c \<Rightarrow>
          let b = autoLabel c in
          map_option (\<lambda>(rs, t). (r\<lparr>base := b\<rparr> # rs, t))
            (assignAuto rs (totals(b := count r))
               (map (\<lambda>k. multiplicityLabel b k (count r)) [1..<count r + 1] @ b # reserved)))"

definition namedTotals :: "nameRun list \<Rightarrow> str \<Rightarrow> nat" where
  "namedTotals runs b = sum_list (map count (filter (\<lambda>r. \<not> auto r \<and> base r = b) runs))"

definition copies :: "nameRun list \<Rightarrow> (str \<times> str list) list" where
  "copies runs = concat (map (\<lambda>r. replicate (count r) (base r, pins r)) runs)"

fun emitLabels :: "(str \<Rightarrow> nat) \<Rightarrow> (str \<times> str list) list \<Rightarrow> (str \<Rightarrow> str option) \<Rightarrow> (str \<Rightarrow> nat) \<Rightarrow> nameErr + Label list" where
  "emitLabels totals [] used sq = Inr []"
| "emitLabels totals ((b, ps) # cs) used sq =
     (let sq' = sq(b := sq b + 1);
          label = multiplicityLabel b (sq' b) (totals b);
          go = map_sum id ((#) \<lparr>Display = label, Pins = ps\<rparr>) (emitLabels totals cs (used(label \<mapsto> b)) sq') in
      case used label of
        Some previous \<Rightarrow> if previous \<noteq> b then Inl (LabelCollision label previous b) else go
      | None \<Rightarrow> go)"

definition resolveRuns :: "nameRun list \<Rightarrow> (nameErr + Label list) option" where
  "resolveRuns runs =
     (case assignAuto runs (namedTotals runs) (map base (filter (\<lambda>r. \<not> auto r) runs)) of
        None \<Rightarrow> None
      | Some (runs, totals) \<Rightarrow> Some (emitLabels totals (copies runs) (\<lambda>_. None) (\<lambda>_. 0)))"

definition ResolveNames :: "(str \<Rightarrow> str) \<Rightarrow> NameSpec list \<Rightarrow> (nameErr + Label list) option" where
  "ResolveNames quote specs =
     (if \<not> checkRows specs then None
      else let displayed = map displaySpec specs in
        case checkNameOwners (\<lambda>_. None) displayed of
          Some e \<Rightarrow> Some (Inl e)
        | None \<Rightarrow>
            let runs = expandRuns quote displayed specs in
            (case checkBaseOwners (\<lambda>_. None) runs of
               Some e \<Rightarrow> Some (Inl e)
             | None \<Rightarrow> resolveRuns runs))"

subsection \<open>Numerals and column names\<close>

definition decVal :: "str \<Rightarrow> nat" where
  "decVal s = foldl (\<lambda>v c. v * 10 + (code c - 48)) 0 s"

lemma decVal_natDigits: "decVal (natDigits n) = n"
proof (induction n rule: natDigits.induct)
  case (1 n)
  show ?case
  proof (cases "n < 10")
    case True
    then show ?thesis by (simp add: decVal_def natDigits.simps [of n])
  next
    case False
    with 1 show ?thesis by (simp add: decVal_def natDigits.simps [of n])
  qed
qed

lemma decVal_padTo: "decVal (padTo w s) = decVal s"
proof -
  have "foldl (\<lambda>v c. v * 10 + (code c - 48)) 0 (replicate k (CHR ''0'')) = (0 :: nat)" for k
    by (induction k) (simp_all add: code_def)
  then show ?thesis by (simp add: decVal_def padTo_def)
qed

lemma multiplicityLabel_inject: "1 < t \<Longrightarrow> multiplicityLabel b m t = multiplicityLabel b n t \<Longrightarrow> m = n"
  by (auto simp: multiplicityLabel_def) (metis decVal_natDigits decVal_padTo)

definition colVal :: "nat \<Rightarrow> str \<Rightarrow> nat" where
  "colVal v s = foldl (\<lambda>v c. v * 26 + (code c - 64)) v s"

lemma colVal_autoLoop: "colVal 0 (autoLoop i name) = colVal i name"
proof (induction i name rule: autoLoop.induct)
  case (1 i name)
  show ?case
  proof (cases "i = 0")
    case False
    have "65 + (i - 1) mod 26 < 256" by (simp add: trans_less_add1)
    then have "code (chr (65 + (i - 1) mod 26)) - 64 = (i - 1) mod 26 + 1" by simp
    moreover have "(i - 1) div 26 * 26 + ((i - 1) mod 26 + 1) = i"
      using False div_mult_mod_eq [of "i - 1" 26] by linarith
    ultimately show ?thesis using 1 False by (simp add: autoLoop.simps [of i] colVal_def)
  qed (simp add: autoLoop.simps)
qed

lemma colVal_autoLabel: "colVal 0 (autoLabel i) = i + 1"
  unfolding autoLabel_def colVal_autoLoop by (simp add: colVal_def)

lemma autoLabel_inject: "autoLabel i = autoLabel j \<longleftrightarrow> i = j"
  by (metis add_right_cancel colVal_autoLabel)

lemma autoLoop_letters: "\<forall>c\<in>set name. 65 \<le> code c \<and> code c \<le> 90 \<Longrightarrow> \<forall>c\<in>set (autoLoop i name). 65 \<le> code c \<and> code c \<le> 90"
proof (induction i name rule: autoLoop.induct)
  case (1 i name)
  have "(i - 1) mod 26 < 26" by simp
  then have "code (chr (65 + (i - 1) mod 26)) = 65 + (i - 1) mod 26" "(i - 1) mod 26 \<le> 25" by simp_all
  with 1 show ?case by (subst autoLoop.simps) auto
qed

lemma autoLabel_letters: "c \<in> set (autoLabel i) \<Longrightarrow> 65 \<le> code c \<and> code c \<le> 90"
  using autoLoop_letters [of "[]" "i + 1"] by (auto simp: autoLabel_def)

subsection \<open>The search for a free column name\<close>

lemma takeWhile_tilde: "CHR ''~'' \<notin> set b \<Longrightarrow> takeWhile (\<lambda>c. c \<noteq> CHR ''~'') (multiplicityLabel b k n) = b"
proof -
  assume "CHR ''~'' \<notin> set b"
  then have "\<forall>c\<in>set b. c \<noteq> CHR ''~''" by auto
  then show ?thesis by (simp add: multiplicityLabel_def takeWhile_append2 takeWhile_eq_all_conv)
qed

lemma tilde_notin_autoLabel: "CHR ''~'' \<notin> set (autoLabel i)"
  using autoLabel_letters [of "CHR ''~''" i] by (auto simp: code_def)

lemma blocked_finite: "finite {c. \<not> autoBaseAvailable (autoLabel c) n reserved}"
proof (rule finite_imageD)
  show "finite (autoLabel ` {c. \<not> autoBaseAvailable (autoLabel c) n reserved})"
  proof (rule finite_subset)
    show "autoLabel ` {c. \<not> autoBaseAvailable (autoLabel c) n reserved} \<subseteq> takeWhile (\<lambda>c. c \<noteq> CHR ''~'') ` set reserved"
    proof
      fix b assume "b \<in> autoLabel ` {c. \<not> autoBaseAvailable (autoLabel c) n reserved}"
      then obtain c where b: "b = autoLabel c" and na: "\<not> autoBaseAvailable (autoLabel c) n reserved" by auto
      have w: "takeWhile (\<lambda>c. c \<noteq> CHR ''~'') b = b"
        using tilde_notin_autoLabel [of c] b by (auto simp: takeWhile_eq_all_conv)
      from na obtain r where "r \<in> set reserved" "r = b \<or> (\<exists>k. r = multiplicityLabel b k n)"
        by (auto simp: autoBaseAvailable_def list_all_iff b)
      with w takeWhile_tilde [OF tilde_notin_autoLabel, of c] b show "b \<in> takeWhile (\<lambda>c. c \<noteq> CHR ''~'') ` set reserved"
        by (metis image_eqI)
    qed
  qed simp
qed (simp add: inj_on_def autoLabel_inject)

lemma pickAuto_Some: "\<exists>c. pickAuto n reserved k = Some c"
proof -
  obtain m where m: "k \<le> m" "autoBaseAvailable (autoLabel m) n reserved"
  proof -
    have "\<not> {k..} \<subseteq> {c. \<not> autoBaseAvailable (autoLabel c) n reserved}"
      using blocked_finite finite_subset infinite_Ici by blast
    then show thesis using that by auto
  qed
  then show ?thesis
  proof (induction "m - k" arbitrary: k)
    case 0
    then show ?case by (subst pickAuto.simps) simp
  next
    case (Suc d)
    then have "d = m - (k + 1)" "k + 1 \<le> m" by simp_all
    with Suc show ?case by (subst pickAuto.simps) auto
  qed
qed

lemma pickAuto_available: "pickAuto n reserved k = Some c \<Longrightarrow> autoBaseAvailable (autoLabel c) n reserved"
  by (erule pickAuto.raw_induct [rotated]) (auto split: if_splits)

subsection \<open>Emitted labels are distinct\<close>

definition used_ok :: "(str \<Rightarrow> nat) \<Rightarrow> (str \<Rightarrow> str option) \<Rightarrow> (str \<Rightarrow> nat) \<Rightarrow> bool" where
  "used_ok totals used sq \<longleftrightarrow>
     (\<forall>l b. used l = Some b \<longrightarrow> (\<exists>n. 1 \<le> n \<and> n \<le> sq b \<and> l = multiplicityLabel b n (totals b)))"

lemma used_ok_step:
  "used_ok totals used sq \<Longrightarrow>
     used_ok totals (used(multiplicityLabel b (sq b + 1) (totals b) \<mapsto> b)) (sq(b := sq b + 1))"
  unfolding used_ok_def by (auto intro: le_SucI) (metis le_SucI)+

lemma emitLabels_distinct:
  assumes "emitLabels totals cs used sq = Inr labels" and "used_ok totals used sq"
    and "\<And>b. totals b \<le> 1 \<Longrightarrow> sq b + count_list (map fst cs) b \<le> 1"
  shows "distinct (map Display labels) \<and> (\<forall>l\<in>set labels. used (Display l) = None) \<and> length labels = length cs"
  using assms
proof (induction cs arbitrary: used sq labels)
  case (Cons c cs)
  obtain b ps where c: "c = (b, ps)" by (cases c)
  define l where "l = multiplicityLabel b (sq b + 1) (totals b)"
  have fresh: "used l = None"
  proof (rule ccontr)
    assume "used l \<noteq> None"
    then obtain p where p: "used l = Some p" by auto
    with Cons.prems(1) have "p = b" by (auto simp: c l_def Let_def split: if_splits)
    with p Cons.prems(2) obtain n where n: "1 \<le> n" "n \<le> sq b" "l = multiplicityLabel b n (totals b)"
      by (auto simp: used_ok_def)
    show False
    proof (cases "totals b \<le> 1")
      case True
      from Cons.prems(3) [OF this] n show False by (simp add: c)
    next
      case False
      with n multiplicityLabel_inject [of "totals b" b "sq b + 1" n] show False by (simp add: l_def)
    qed
  qed
  with Cons.prems(1) obtain rest where
    rest: "emitLabels totals cs (used(l \<mapsto> b)) (sq(b := sq b + 1)) = Inr rest"
    and labels: "labels = \<lparr>Display = l, Pins = ps\<rparr> # rest"
    by (cases "emitLabels totals cs (used(l \<mapsto> b)) (sq(b := sq b + 1))") (auto simp: c l_def Let_def)
  have "distinct (map Display rest) \<and> (\<forall>l'\<in>set rest. (used(l \<mapsto> b)) (Display l') = None) \<and> length rest = length cs"
  proof (rule Cons.IH [OF rest])
    show "used_ok totals (used(l \<mapsto> b)) (sq(b := sq b + 1))"
      using Cons.prems(2) unfolding l_def by (rule used_ok_step)
    show "(sq(b := sq b + 1)) b' + count_list (map fst cs) b' \<le> 1" if "totals b' \<le> 1" for b'
      using Cons.prems(3) [OF that] by (simp add: c split: if_splits)
  qed
  then show ?case using fresh by (auto simp: labels c split: if_splits)
qed simp

subsection \<open>Totals cover the copies\<close>

lemma copies_simps [simp]:
  "copies [] = []" "copies (r # rs) = replicate (count r) (base r, pins r) @ copies rs"
  by (simp_all add: copies_def)

lemma count_list_replicate: "count_list (replicate n x) y = (if x = y then n else 0)"
  by (induction n) auto

lemma namedTotals_simps [simp]:
  "namedTotals [] b = 0"
  "namedTotals (r # rs) b = (if \<not> auto r \<and> base r = b then count r else 0) + namedTotals rs b"
  by (simp_all add: namedTotals_def)

lemma namedTotals_zero: "b \<notin> set (map base (filter (\<lambda>r. \<not> auto r) rs)) \<Longrightarrow> namedTotals rs b = 0"
  by (induction rs) (auto split: if_splits)

lemma assignAuto_total: "\<exists>out. assignAuto runs totals reserved = Some out"
proof (induction runs arbitrary: totals reserved)
  case (Cons r rs)
  show ?case
  proof (cases "auto r")
    case True
    obtain c where "pickAuto (count r) reserved 0 = Some c" using pickAuto_Some by blast
    with True Cons show ?thesis by (force simp: Let_def)
  next
    case False
    with Cons show ?thesis by force
  qed
qed simp

lemma assignAuto_spec:
  assumes "assignAuto runs totals reserved = Some (runs', totals')"
    and "set (map base (filter (\<lambda>r. \<not> auto r) runs)) \<subseteq> set reserved"
  shows "map count runs' = map count runs \<and>
    (if b \<in> set reserved then totals' b = totals b \<and> count_list (map fst (copies runs')) b = namedTotals runs b
     else count_list (map fst (copies runs')) b \<le> totals' b)"
  using assms
proof (induction runs arbitrary: totals reserved runs')
  case (Cons r rs)
  show ?case
  proof (cases "auto r")
    case False
    with Cons.prems(1) obtain rs' where rs': "assignAuto rs totals reserved = Some (rs', totals')" "runs' = r # rs'"
      by auto
    with Cons.IH [OF rs'(1)] Cons.prems(2) False show ?thesis
      by (auto simp: count_list_append count_list_replicate split: if_splits)
  next
    case True
    with Cons.prems(1) obtain c rs' where c: "pickAuto (count r) reserved 0 = Some c"
      and rs': "assignAuto rs (totals(autoLabel c := count r))
          (map (\<lambda>k. multiplicityLabel (autoLabel c) k (count r)) [1..<count r + 1] @ autoLabel c # reserved) = Some (rs', totals')"
      and runs': "runs' = r\<lparr>base := autoLabel c\<rparr> # rs'"
      by (auto simp: Let_def split: option.splits)
    have fresh: "autoLabel c \<notin> set reserved" using pickAuto_available [OF c] by (simp add: autoBaseAvailable_def)
    have named: "set (map base (filter (\<lambda>r. \<not> auto r) rs)) \<subseteq> set reserved" using Cons.prems(2) True by simp
    then have zero: "b \<notin> set reserved \<Longrightarrow> namedTotals rs b = 0" using namedTotals_zero by blast
    have "map count rs' = map count rs \<and>
      (if b \<in> set (map (\<lambda>k. multiplicityLabel (autoLabel c) k (count r)) [1..<count r + 1] @ autoLabel c # reserved)
       then totals' b = (totals(autoLabel c := count r)) b \<and> count_list (map fst (copies rs')) b = namedTotals rs b
       else count_list (map fst (copies rs')) b \<le> totals' b)"
      by (rule Cons.IH [OF rs']) (use named in auto)
    then show ?thesis
      using fresh zero True by (auto simp: runs' count_list_append count_list_replicate split: if_splits)
  qed
qed simp

lemma resolveRuns_total: "\<exists>out. resolveRuns runs = Some out"
  using assignAuto_total [of runs "namedTotals runs" "map base (filter (\<lambda>r. \<not> auto r) runs)"]
  by (auto simp: resolveRuns_def)

lemma length_copies: "length (copies runs) = sum_list (map count runs)"
  by (induction runs) simp_all

lemma resolveRuns_distinct:
  assumes "resolveRuns runs = Some (Inr labels)"
  shows "distinct (map Display labels) \<and> length labels = sum_list (map count runs)"
proof -
  let ?res = "map base (filter (\<lambda>r. \<not> auto r) runs)"
  obtain runs' totals where a: "assignAuto runs (namedTotals runs) ?res = Some (runs', totals)"
    and e: "emitLabels totals (copies runs') (\<lambda>_. None) (\<lambda>_. 0) = Inr labels"
    using assms by (auto simp: resolveRuns_def split: option.splits)
  note spec = assignAuto_spec [OF a order.refl]
  have "totals b \<le> 1 \<Longrightarrow> 0 + count_list (map fst (copies runs')) b \<le> 1" for b
    using spec [of b] by (auto split: if_splits)
  with emitLabels_distinct [OF e] have "distinct (map Display labels) \<and> length labels = length (copies runs')"
    by (simp add: used_ok_def)
  with spec show ?thesis by (simp add: length_copies)
qed

subsection \<open>Labels are printable\<close>

lemma printable_marks: "list_all printable '':,=~0''"
  by code_simp

lemma printable_mark [simp]:
  "printable (CHR '':'')" "printable (CHR '','')" "printable (CHR ''='')" "printable (CHR ''~'')" "printable (CHR ''0'')"
  using printable_marks by simp_all

lemma Join_printable: "list_all (list_all printable) xs \<Longrightarrow> list_all printable sep \<Longrightarrow> list_all printable (Join xs sep)"
  by (induction xs sep rule: Join.induct) auto

lemma joinPairs_printable:
  "list_all (list_all printable) tokens \<Longrightarrow> list_all (list_all printable) row \<Longrightarrow> length row = length tokens \<Longrightarrow>
     list_all printable (joinPairs tokens row)"
  unfolding joinPairs_def by (rule Join_printable) (auto simp: list_all_iff)

lemma displayStrings_printable: "list_all (list_all printable) (displayStrings xs)"
  by (simp add: displayStrings_def list.pred_map comp_def displayValue_printable list_all_iff [of _ xs])

lemma expandRun_printable:
  assumes "list_all (\<lambda>row. length row = length (nsTokens s)) (nsRows s)" and "r \<in> set (expandRun quote (displaySpec s, s))"
  shows "list_all printable (base r)"
proof (cases "nsTokens s = []")
  case True
  with assms(2) show ?thesis by (simp add: expandRun_def displaySpec_def displayStrings_def displayValue_printable)
next
  case False
  then have nz: "nsTokens (displaySpec s) \<noteq> []" by (simp add: displaySpec_def displayStrings_def)
  with assms(2) obtain row rawRow where row: "(row, rawRow) \<in> set (zip (map displayStrings (nsRows s)) (nsRows s))"
    and b: "base r = (if nsName (displaySpec s) \<noteq> [] then nsName (displaySpec s) @ '':'' else []) @ joinPairs (displayStrings (nsTokens s)) row"
    by (auto simp: expandRun_def displaySpec_def displayStrings_def Let_def)
  from set_zip_leftD [OF row] obtain raw where raw: "row = displayStrings raw" "raw \<in> set (nsRows s)" by auto
  then have "length row = length (displayStrings (nsTokens s))" using assms(1) by (simp add: displayStrings_def list_all_iff)
  then have "list_all printable (joinPairs (displayStrings (nsTokens s)) row)"
    using displayStrings_printable raw(1) by (intro joinPairs_printable) auto
  then show ?thesis by (simp add: b displaySpec_def displayValue_printable)
qed

lemma assignAuto_printable:
  "assignAuto runs totals reserved = Some (runs', totals') \<Longrightarrow> list_all (\<lambda>r. list_all printable (base r)) runs \<Longrightarrow>
     list_all (\<lambda>r. list_all printable (base r)) runs'"
proof (induction runs arbitrary: totals reserved runs')
  case (Cons r rs)
  have "list_all printable (autoLabel c)" for c
    using autoLabel_letters by (fastforce simp: list_all_iff printable_def)
  with Cons show ?case by (auto simp: Let_def split: if_splits option.splits)
qed simp

lemma emitLabels_printable:
  "emitLabels totals cs used sq = Inr labels \<Longrightarrow> list_all (\<lambda>c. list_all printable (fst c)) cs \<Longrightarrow>
     list_all (\<lambda>l. list_all printable (Display l)) labels"
proof (induction cs arbitrary: used sq labels)
  case (Cons c cs)
  have "list_all printable (natDigits n)" for n
    using natDigits_isDigit by (fastforce simp: list_all_iff printable_def isDigit_def)
  then have m: "list_all printable b \<Longrightarrow> list_all printable (multiplicityLabel b k n)" for b k n
    by (auto simp: multiplicityLabel_def padTo_def list_all_iff)
  obtain b ps where c: "c = (b, ps)" by (cases c)
  let ?l = "multiplicityLabel b (sq b + 1) (totals b)"
  from Cons.prems(1) obtain rest where rest: "emitLabels totals cs (used(?l \<mapsto> b)) (sq(b := sq b + 1)) = Inr rest"
    and labels: "labels = \<lparr>Display = ?l, Pins = ps\<rparr> # rest"
    by (cases "emitLabels totals cs (used(?l \<mapsto> b)) (sq(b := sq b + 1))") (auto simp: c Let_def split: option.splits if_splits)
  with Cons.IH [OF rest] Cons.prems(2) m show ?case by (simp add: c)
qed simp

lemma resolveRuns_printable:
  assumes "resolveRuns runs = Some (Inr labels)" and "list_all (\<lambda>r. list_all printable (base r)) runs"
  shows "list_all (\<lambda>l. list_all printable (Display l)) labels"
proof -
  obtain runs' totals where a: "assignAuto runs (namedTotals runs) (map base (filter (\<lambda>r. \<not> auto r) runs)) = Some (runs', totals)"
    and e: "emitLabels totals (copies runs') (\<lambda>_. None) (\<lambda>_. 0) = Inr labels"
    using assms by (auto simp: resolveRuns_def split: option.splits)
  from assignAuto_printable [OF a assms(2)] have "list_all (\<lambda>c. list_all printable (fst c)) (copies runs')"
    by (induction runs') (auto simp: list_all_iff)
  with e show ?thesis by (rule emitLabels_printable)
qed

lemma expandRuns_count:
  assumes "checkRows specs"
  shows "sum_list (map count (expandRuns quote (map displaySpec specs) specs)) =
     sum_list (map (\<lambda>s. nsCount s * (if nsTokens s = [] then 1 else length (nsRows s))) specs)"
proof -
  have "sum_list (map count (expandRun quote (displaySpec s, s))) = nsCount s * (if nsTokens s = [] then 1 else length (nsRows s))" for s
    by (auto simp: expandRun_def displaySpec_def displayStrings_def Let_def comp_def split_def sum_list_triv)
  then show ?thesis by (induction specs) (simp_all add: expandRuns_def)
qed

lemma expandRuns_printable:
  assumes "checkRows specs"
  shows "list_all (\<lambda>r. list_all printable (base r)) (expandRuns quote (map displaySpec specs) specs)"
  using assms
proof (induction specs)
  case (Cons s specs)
  then have "list_all (\<lambda>row. length row = length (nsTokens s)) (nsRows s)" by (simp add: checkRows_def)
  with expandRun_printable [OF this] Cons show ?case by (auto simp: expandRuns_def checkRows_def list_all_iff)
qed (simp add: expandRuns_def)

lemma ResolveNames_labels:
  assumes "ResolveNames quote specs = Some (Inr labels)"
  shows "distinct (map Display labels) \<and>
     length labels = sum_list (map (\<lambda>s. nsCount s * (if nsTokens s = [] then 1 else length (nsRows s))) specs) \<and>
     list_all (\<lambda>l. list_all printable (Display l)) labels"
proof -
  have rows: "checkRows specs" and run: "resolveRuns (expandRuns quote (map displaySpec specs) specs) = Some (Inr labels)"
    using assms by (auto simp: ResolveNames_def Let_def split: if_splits option.splits)
  show ?thesis
    using resolveRuns_distinct [OF run] resolveRuns_printable [OF run expandRuns_printable [OF rows]]
      expandRuns_count [OF rows] by simp
qed

lemma ResolveNames_total: "checkRows specs \<Longrightarrow> \<exists>r. ResolveNames quote specs = Some r"
  using resolveRuns_total by (auto simp: ResolveNames_def Let_def split: option.splits)

text \<open>When name resolution succeeds, every request of the plan has its own label: the labels are pairwise
  distinct, there is exactly one per copy of every row, and each is printable ASCII.\<close>
theorem resolved_labels_unique:
  assumes "ResolveNames quote specs = Some (Inr labels)"
  shows "distinct (map Display labels) \<and>
     length labels = sum_list (map (\<lambda>s. nsCount s * (if nsTokens s = [] then 1 else length (nsRows s))) specs) \<and>
     list_all (\<lambda>l. list_all printable (Display l)) labels"
  using assms by (rule ResolveNames_labels)

text \<open>C34. Name resolution always ends: the search for a free column name returns however many labels are
  taken, so the only inputs without a result are those whose rows do not match their tokens.\<close>
theorem name_resolution_terminates:
  "(\<exists>r. ResolveNames quote specs = Some r) \<longleftrightarrow> checkRows specs"
  using ResolveNames_total by (auto simp: ResolveNames_def)

definition demo_specs :: "NameSpec list" where
  "demo_specs = [\<lparr>nsName = ''A'', nsCount = 1, nsTokens = [], nsRows = [], nsSource = 0\<rparr>,
     \<lparr>nsName = [], nsCount = 2, nsTokens = [], nsRows = [], nsSource = 1\<rparr>,
     \<lparr>nsName = [], nsCount = 1, nsTokens = [''X''], nsRows = [[''1''], [''2'']], nsSource = 2\<rparr>]"

definition demo_labels :: "Label list" where
  "demo_labels = [\<lparr>Display = ''A'', Pins = [''A'']\<rparr>, \<lparr>Display = ''B~1'', Pins = []\<rparr>, \<lparr>Display = ''B~2'', Pins = []\<rparr>,
     \<lparr>Display = ''X=1'', Pins = [''X'']\<rparr>, \<lparr>Display = ''X=2'', Pins = [''X'']\<rparr>]"

theorem resolved_labels_unique_witness:
  "ResolveNames (\<lambda>s. s) demo_specs = Some (Inr demo_labels) \<and> distinct (map Display demo_labels)"
proof -
  have "ResolveNames (\<lambda>s. s) demo_specs = Some (Inr demo_labels)" by code_simp
  from this resolved_labels_unique [OF this] show ?thesis by simp
qed

end
