(* ===== verification/VaryFan.thy ===== *)
theory VaryFan
  imports Blocks Naming
begin

text \<open>
  Fanning a block over its \<open>--vary\<close> bindings (\<open>internal/curlblocks/vary.go\<close>) and expanding a plan into request
  groups with their labels (\<open>plan.go\<close>). A panic is \<open>None\<close>; an error of the command line is \<open>Inl\<close>.
\<close>

subsection \<open>Bindings\<close>

record VarySpec =
  Token :: str
  vEncoders :: "encoder list"
  vSource :: varySource

record VaryValue =
  Substituted :: str
  vDisplay :: str

datatype varyErr =
    VaryNoEquals str
  | VaryEmptyToken
  | VaryTokenSpace str
  | VaryBadEncoder str str
  | VaryBadSource str sourceErr
  | VaryRead readErr
  | VaryNoValues str
  | VaryURLCount nat
  | VaryBoundTwice str
  | VaryOverlap str str
  | VaryUnused str
  | VaryFanSize str int
  | VaryFanProduct "int list"
  | VaryStdin str
  | VaryEmptyURL "str list" str

text \<open>A token may contain no rune that \<open>unicode.IsSpace\<close> accepts.\<close>

definition validateVaryToken :: "str \<Rightarrow> varyErr option" where
  "validateVaryToken token = (if token = [] then Some VaryEmptyToken
     else if list_ex (\<lambda>r. Contains token r) spaceRunes then Some (VaryTokenSpace token) else None)"

definition subject :: "VarySpec \<Rightarrow> str" where
  "subject v = ''--vary '' @ displayValue (Token v)"

definition parseVarySpec :: "str \<Rightarrow> varyErr + VarySpec" where
  "parseVarySpec arg =
     (case Cut arg ''='' of (head, src, ok) \<Rightarrow>
      if \<not> ok then Inl (VaryNoEquals arg)
      else case Cut head '':'' of (token, encNames, _) \<Rightarrow>
      (case validateVaryToken token of Some e \<Rightarrow> Inl e | None \<Rightarrow>
       (case parseEncoders encNames of Inl n \<Rightarrow> Inl (VaryBadEncoder token n) | Inr es \<Rightarrow>
        (case parseVarySource src of Inl e \<Rightarrow> Inl (VaryBadSource token e) | Inr so \<Rightarrow>
         if so = sourceFile [] then Inl (VaryRead (EmptyFilename (''--vary '' @ displayValue token)))
         else Inr \<lparr>Token = token, vEncoders = es, vSource = so\<rparr>))))"

definition specValues :: "(str \<Rightarrow> str option) \<Rightarrow> VarySpec \<Rightarrow> (varyErr + VaryValue list) option" where
  "specValues readFile v = map_option (\<lambda>r. case r of
       Inl e \<Rightarrow> Inl (VaryRead e)
     | Inr raws \<Rightarrow> if raws = [] then Inl (VaryNoValues (subject v))
         else Inr (map (\<lambda>raw. \<lparr>Substituted = applyEncoders (vEncoders v) raw, vDisplay = displayValue raw\<rparr>) raws))
     (sourceValues (subject v) readFile (vSource v))"

datatype VaryMode = VaryClusterBomb | VaryPitchfork

definition varyTokens :: "VarySpec list \<Rightarrow> str list" where
  "varyTokens specs = map Token specs"

text \<open>The first pair, in the order of the two loops, in which one token is a prefix of the other.\<close>

definition overlapAt :: "str list \<Rightarrow> nat \<times> nat \<Rightarrow> varyErr option" where
  "overlapAt tokens ij = (case ij of (i, j) \<Rightarrow>
     if i = j then None
     else if tokens ! i = tokens ! j then Some (VaryBoundTwice (tokens ! i))
     else if HasPrefix (tokens ! j) (tokens ! i) then Some (VaryOverlap (tokens ! i) (tokens ! j)) else None)"

definition overlappingToken :: "str list \<Rightarrow> varyErr option" where
  "overlappingToken tokens =
     (case find (\<lambda>ij. overlapAt tokens ij \<noteq> None) (List.product [0..<length tokens] [0..<length tokens]) of
        None \<Rightarrow> None | Some ij \<Rightarrow> overlapAt tokens ij)"

subsection \<open>Combining values\<close>

definition cartesianStep :: "'a list list \<Rightarrow> 'a list \<Rightarrow> 'a list list" where
  "cartesianStep tuples vals = concat (map (\<lambda>prefix. map (\<lambda>v. prefix @ [v]) vals) tuples)"

definition cartesianValues :: "'a list list \<Rightarrow> 'a list list" where
  "cartesianValues perToken = foldl cartesianStep [[]] perToken"

definition zipValues :: "'a list list \<Rightarrow> 'a list list \<times> bool" where
  "zipValues perToken =
     (let n = foldl (\<lambda>n vals. if length vals < n then length vals else n) (length (perToken ! 0)) perToken in
      (map (\<lambda>k. map (\<lambda>t. perToken ! t ! k) [0..<length perToken]) [0..<n],
       list_ex (\<lambda>vals. length vals \<noteq> n) perToken))"

fun fanProductFrom :: "int \<Rightarrow> int list \<Rightarrow> int \<Rightarrow> int option" where
  "fanProductFrom tot [] lim = Some tot"
| "fanProductFrom tot (n # ns) lim = (if n < 1 \<or> tot > lim div n then None else fanProductFrom (wrap64 (tot * n)) ns lim)"

definition fanProduct :: "int list \<Rightarrow> int \<Rightarrow> int option" where
  "fanProduct counts lim = fanProductFrom 1 counts lim"

definition combinedSource :: "VarySpec list \<Rightarrow> str list list \<Rightarrow> VaryMode \<Rightarrow> str" where
  "combinedSource specs displays mode =
     (if length specs = 1 then describe (vSource (specs ! 0)) (displays ! 0)
      else Join (map (\<lambda>i. displayValue (Token (specs ! i)) @ ''='' @ describe (vSource (specs ! i)) (displays ! i)) [0..<length specs])
        (if mode = VaryPitchfork then '' + '' else '' x ''))"

subsection \<open>Blocks\<close>

record Block =
  URLs :: "str list"
  bName :: str
  Headers :: "Header list"
  SuppressedHeaders :: "str list"
  Cookies :: "Cookie list"
  Method :: str
  bData :: "dataPiece list"
  bForm :: "formPart list"
  bJson :: "jsonPiece list"
  FormEscape :: bool
  Repeat :: int
  Vary :: "VarySpec list"
  bVaryMode :: VaryMode
  VaryFileContent :: "bool option"
  bodyFiles :: "(str \<times> str) list"
  bRead :: "str \<Rightarrow> str option"
  ReadStdin :: "str option option"
  maxFanSize :: int
  defaultScheme :: str

definition reader :: "Block \<Rightarrow> str \<Rightarrow> str option" where
  "reader b name = (case map_of (bodyFiles b) name of
       Some d \<Rightarrow> Some d
     | None \<Rightarrow> if name = ''-'' then (case ReadStdin b of None \<Rightarrow> None | Some r \<Rightarrow> r) else bRead b name)"

definition bodyFileRefs :: "Block \<Rightarrow> fileRef list" where
  "bodyFileRefs b = List.map_filter dataFileRef (bData b) @ List.map_filter formFileRef (bForm b) @
     map jsonFileRef (filter jIsFile (bJson b))"

definition varyFileRef :: "VarySpec \<Rightarrow> fileRef option" where
  "varyFileRef v = (case vSource v of
       sourceFile f \<Rightarrow> Some \<lparr>rflag = subject v, rsigil = ''@'', rname = f\<rparr> | _ \<Rightarrow> None)"

definition fileRefs :: "Block \<Rightarrow> fileRef list" where
  "fileRefs b = bodyFileRefs b @ List.map_filter varyFileRef (Vary b)"

definition validateRef :: "Block \<Rightarrow> fileRef \<Rightarrow> varyErr option" where
  "validateRef b r = (if rname r = [] then Some (VaryRead (EmptyFilename (rflag r)))
     else if rname r = ''-'' \<and> ReadStdin b = None then Some (VaryStdin (rflag r)) else None)"

fun firstErr :: "('a \<Rightarrow> 'e option) \<Rightarrow> 'a list \<Rightarrow> 'e option" where
  "firstErr f [] = None"
| "firstErr f (x # xs) = (case f x of Some e \<Rightarrow> Some e | None \<Rightarrow> firstErr f xs)"

definition validateFileRefs :: "Block \<Rightarrow> varyErr option" where
  "validateFileRefs b = firstErr (validateRef b) (fileRefs b)"

definition varyBodyFiles :: "Block \<Rightarrow> bool" where
  "varyBodyFiles b = (case VaryFileContent b of None \<Rightarrow> True | Some v \<Rightarrow> v)"

definition mapData :: "(str \<Rightarrow> str) \<Rightarrow> dataPiece \<Rightarrow> dataPiece" where
  "mapData f d = (case dataFileRef d of
       Some ref \<Rightarrow>
         if dkind d = dataURLEncode then
           let at = the (IndexByte (dspec d) (CHR ''@'')); field = f (take at (dspec d)) in
           d\<lparr>dref := Some ref, dfield := field, dspec := field @ ''@'' @ rname ref\<rparr>
         else d
     | None \<Rightarrow> d\<lparr>dspec := f (dspec d)\<rparr>)"

definition mapForm :: "(str \<Rightarrow> str) \<Rightarrow> formPart \<Rightarrow> formPart" where
  "mapForm f p = p\<lparr>fName := f (fName p), fFileName := f (fFileName p), fType := f (fType p),
     fValue := (if fkind p = formLiteral then f (fValue p) else fValue p)\<rparr>"

definition mapStrings :: "(str \<Rightarrow> str) \<Rightarrow> Block \<Rightarrow> Block" where
  "mapStrings f b = b\<lparr>URLs := [f (URLs b ! 0)], Headers := map (mapTyped f) (Headers b),
     SuppressedHeaders := map f (SuppressedHeaders b),
     Cookies := map (\<lambda>c. c\<lparr>cName := f (cName c), cValue := f (cValue c)\<rparr>) (Cookies b),
     Method := f (Method b), bData := map (mapData f) (bData b),
     bJson := map (\<lambda>j. if jIsFile j then j else j\<lparr>jspec := f (jspec j)\<rparr>) (bJson b),
     bForm := map (mapForm f) (bForm b)\<rparr>"

text \<open>The strings \<open>mapStrings\<close> applies its function to, for the occurrence check.\<close>

definition typedStrings :: "Header \<Rightarrow> str list" where
  "typedStrings h = (case horigin h of
       headerTyped \<Rightarrow> [hName h, hValue h]
     | headerValueTyped \<Rightarrow> [hValue h]
     | headerBasic \<Rightarrow> (case basicCredentials (hValue h) of None \<Rightarrow> [] | Some creds \<Rightarrow> [creds])
     | headerBearer \<Rightarrow> (case CutPrefix (hValue h) bearerScheme of (cred, ok) \<Rightarrow> if ok then [cred] else [])
     | headerBaked \<Rightarrow> [])"

definition dataStrings :: "dataPiece \<Rightarrow> str list" where
  "dataStrings d = (case dataFileRef d of
       Some ref \<Rightarrow> if dkind d = dataURLEncode then [take (the (IndexByte (dspec d) (CHR ''@''))) (dspec d)] else []
     | None \<Rightarrow> [dspec d])"

definition mappedStrings :: "Block \<Rightarrow> str list" where
  "mappedStrings b = [URLs b ! 0] @ concat (map typedStrings (Headers b)) @ SuppressedHeaders b @
     concat (map (\<lambda>c. [cName c, cValue c]) (Cookies b)) @ [Method b] @ concat (map dataStrings (bData b)) @
     map jspec (filter (\<lambda>j. \<not> jIsFile j) (bJson b)) @
     concat (map (\<lambda>p. [fName p, fFileName p, fType p] @ (if fkind p = formLiteral then [fValue p] else [])) (bForm b))"

definition mentions :: "Block \<Rightarrow> str \<Rightarrow> bool" where
  "mentions b token \<longleftrightarrow> list_ex (\<lambda>s. Contains s token) (mappedStrings b) \<or>
     (varyBodyFiles b \<and> list_ex (\<lambda>f. Contains (snd f) token) (bodyFiles b))"

definition checkFanSize :: "Block \<Rightarrow> str \<Rightarrow> int \<Rightarrow> varyErr option" where
  "checkFanSize b token n = (if maxFanSize b > 0 \<and> n > maxFanSize b then Some (VaryFanSize token n) else None)"

definition checkFanProduct :: "Block \<Rightarrow> int list \<Rightarrow> varyErr option" where
  "checkFanProduct b counts = (if maxFanSize b \<le> 0 then None
     else if fanProduct counts (maxFanSize b) \<noteq> None then None else Some (VaryFanProduct counts))"

fun staticCheck :: "Block \<Rightarrow> bool \<Rightarrow> VarySpec list \<Rightarrow> varyErr + int list option" where
  "staticCheck b canDefer [] = Inr (Some [])"
| "staticCheck b canDefer (v # vs) =
     (if \<not> mentions b (Token v) \<and> \<not> canDefer then Inl (VaryUnused (Token v))
      else case staticSize (vSource v) of
        None \<Rightarrow> map_sum id (\<lambda>_. None) (staticCheck b canDefer vs)
      | Some n \<Rightarrow> (case checkFanSize b (Token v) n of
          Some e \<Rightarrow> Inl e
        | None \<Rightarrow> map_sum id (map_option ((#) n)) (staticCheck b canDefer vs)))"

definition validateVary :: "Block \<Rightarrow> varyErr option" where
  "validateVary b =
     (if Vary b = [] then None
      else if length (URLs b) \<noteq> 1 then Some (VaryURLCount (length (URLs b)))
      else case overlappingToken (varyTokens (Vary b)) of Some e \<Rightarrow> Some e | None \<Rightarrow>
        (case staticCheck b (varyBodyFiles b \<and> bodyFileRefs b \<noteq> []) (Vary b) of
           Inl e \<Rightarrow> Some e
         | Inr None \<Rightarrow> None
         | Inr (Some counts) \<Rightarrow> if bVaryMode b \<noteq> VaryPitchfork then checkFanProduct b counts else None))"

definition checkVariantURL :: "str \<Rightarrow> str list \<Rightarrow> varyErr option" where
  "checkVariantURL url vals =
     (let rest = (case Cut url ''://'' of (_, after, ok) \<Rightarrow> if ok then after else url) in
      if rest = [] then Some (VaryEmptyURL vals url) else None)"

definition substitute :: "(str \<times> str) list \<Rightarrow> Block \<Rightarrow> Block" where
  "substitute reps b =
     (let out = mapStrings (Replace reps) b;
          out = (if varyBodyFiles b \<and> bodyFiles b \<noteq> [] then out\<lparr>bodyFiles := map (\<lambda>(p, raw). (p, Replace reps raw)) (bodyFiles b)\<rparr> else out) in
      out\<lparr>Vary := [], URLs := [ensureScheme (URLs out ! 0) (defaultScheme b)]\<rparr>)"

subsection \<open>The fan\<close>

record Variant =
  vBlock :: Block
  vValues :: "str list"

record Fan =
  fanTokens :: "str list"
  fanSource :: str
  Template :: str
  Variants :: "Variant list"
  Ragged :: bool

fun snapshot :: "(str \<Rightarrow> str option) \<Rightarrow> fileRef list \<Rightarrow> (str \<times> str) list \<Rightarrow> readErr + (str \<times> str) list" where
  "snapshot readFile [] acc = Inr acc"
| "snapshot readFile (r # rs) acc =
     (if map_of acc (rname r) \<noteq> None then snapshot readFile rs acc
      else case refRead r readFile of
        Inl e \<Rightarrow> Inl e
      | Inr d \<Rightarrow> snapshot readFile rs (acc @ [(rname r, d)]))"

fun loadValues :: "Block \<Rightarrow> VarySpec list \<Rightarrow> (varyErr + VaryValue list list) option" where
  "loadValues b [] = Some (Inr [])"
| "loadValues b (v # vs) =
     (case specValues (reader b) v of
        None \<Rightarrow> None
      | Some (Inl e) \<Rightarrow> Some (Inl e)
      | Some (Inr vals) \<Rightarrow>
          (case checkFanSize b (Token v) (int (length vals)) of
             Some e \<Rightarrow> Some (Inl e)
           | None \<Rightarrow> map_option (map_sum id ((#) vals)) (loadValues b vs)))"

definition makeVariant :: "Block \<Rightarrow> str list \<Rightarrow> VaryValue list \<Rightarrow> varyErr + Variant" where
  "makeVariant b tokens tuple =
     (let v = \<lparr>vBlock = substitute (zip tokens (map Substituted tuple)) b, vValues = map vDisplay tuple\<rparr> in
      case checkVariantURL (URLs (vBlock v) ! 0) (vValues v) of Some e \<Rightarrow> Inl e | None \<Rightarrow> Inr v)"

definition combine :: "Block \<Rightarrow> VaryValue list list \<Rightarrow> varyErr + (VaryValue list list \<times> bool)" where
  "combine b perToken = (case bVaryMode b of
       VaryPitchfork \<Rightarrow> Inr (zipValues perToken)
     | VaryClusterBomb \<Rightarrow> (case checkFanProduct b (map (\<lambda>v. int (length v)) perToken) of
         Some e \<Rightarrow> Inl e | None \<Rightarrow> Inr (cartesianValues perToken, False)))"

text \<open>\<open>Some (Inr None)\<close> is the nil fan of a block without bindings.\<close>

definition blockFan :: "Block \<Rightarrow> (varyErr + Fan option) option" where
  "blockFan b0 =
     (if Vary b0 = [] then Some (Inr None)
      else case validateVary b0 of Some e \<Rightarrow> Some (Inl e) | None \<Rightarrow>
      (case validateFileRefs b0 of Some e \<Rightarrow> Some (Inl e) | None \<Rightarrow>
       (case snapshot (reader b0) (bodyFileRefs b0) [] of Inl e \<Rightarrow> Some (Inl (VaryRead e)) | Inr snaps \<Rightarrow>
        let b = b0\<lparr>bodyFiles := snaps\<rparr>; tokens = varyTokens (Vary b) in
        (case find (\<lambda>v. \<not> mentions b (Token v)) (Vary b) of Some v \<Rightarrow> Some (Inl (VaryUnused (Token v))) | None \<Rightarrow>
         (case loadValues b (Vary b) of None \<Rightarrow> None | Some (Inl e) \<Rightarrow> Some (Inl e) | Some (Inr perToken) \<Rightarrow>
          (case combine b perToken of Inl e \<Rightarrow> Some (Inl e) | Inr (tuples, ragged) \<Rightarrow>
           (case collect (map (makeVariant b tokens) tuples) of Inl e \<Rightarrow> Some (Inl e) | Inr vs \<Rightarrow>
            Some (Inr (Some \<lparr>fanTokens = displayStrings tokens,
              fanSource = combinedSource (Vary b) (map (map vDisplay) perToken) (bVaryMode b),
              Template = ensureScheme (URLs b ! 0) (defaultScheme b), Variants = vs, Ragged = ragged\<rparr>)))))))))"

subsection \<open>Sizes\<close>

lemma int_mult_ge_one: "1 \<le> (a :: int) \<Longrightarrow> 1 \<le> b \<Longrightarrow> 1 \<le> a * b"
  using mult_mono [of 1 a 1 b] by simp

lemma prod_list_pos: "list_all (\<lambda>n. 1 \<le> n) ns \<Longrightarrow> 1 \<le> prod_list (ns :: int list)"
  by (induction ns) (auto simp: int_mult_ge_one)

lemma le_div_iff: "0 < (n :: int) \<Longrightarrow> t \<le> lim div n \<longleftrightarrow> t * n \<le> lim"
proof
  assume n: "0 < n" and "t \<le> lim div n"
  then have "t * n \<le> (lim div n) * n" by (simp add: mult_right_mono)
  also have "\<dots> \<le> lim" using n pos_mod_sign [of n lim] by (simp add: minus_mod_eq_div_mult [symmetric])
  finally show "t * n \<le> lim" .
next
  assume n: "0 < n" and "t * n \<le> lim"
  then have "(t * n) div n \<le> lim div n" by (intro zdiv_mono1) auto
  with n show "t \<le> lim div n" by simp
qed

text \<open>
  The overflow-safe product: with a limit below 2^63 no intermediate total wraps, and the check
  refuses exactly the products beyond the limit.
\<close>

lemma fanProductFrom_exact:
  assumes "1 \<le> tot" and "tot \<le> lim" and "lim < 2 ^ 63"
  shows "fanProductFrom tot ns lim = (if list_all (\<lambda>n. 1 \<le> n) ns \<and> tot * prod_list ns \<le> lim then Some (tot * prod_list ns) else None)"
  using assms(1,2)
proof (induction ns arbitrary: tot)
  case (Cons n ns)
  show ?case
  proof (cases "n < 1 \<or> tot > lim div n")
    case True
    have "\<not> (1 \<le> n \<and> list_all (\<lambda>n. 1 \<le> n) ns \<and> tot * (n * prod_list ns) \<le> lim)"
    proof
      assume a: "1 \<le> n \<and> list_all (\<lambda>n. 1 \<le> n) ns \<and> tot * (n * prod_list ns) \<le> lim"
      then have "tot * n * 1 \<le> tot * n * prod_list ns" using prod_list_pos Cons.prems by (intro mult_left_mono) auto
      then have "tot * n \<le> lim" using a by (simp add: mult.assoc)
      then have "tot \<le> lim div n" using a by (simp add: le_div_iff)
      with True a show False by simp
    qed
    with True show ?thesis by auto
  next
    case False
    then have le: "tot * n \<le> lim" using le_div_iff [of n tot lim] by auto
    have ge: "1 \<le> tot * n" using False Cons.prems by (simp add: int_mult_ge_one)
    have "wrap64 (tot * n) = tot * n" using le ge assms(3) by (intro wrap64_id) auto
    then show ?thesis using Cons.IH [OF ge le] False by (simp add: mult.assoc)
  qed
qed simp

corollary fanProduct_exact:
  assumes "1 \<le> lim" and "lim < 2 ^ 63"
  shows "fanProduct ns lim = (if list_all (\<lambda>n. 1 \<le> n) ns \<and> prod_list ns \<le> lim then Some (prod_list ns) else None)"
  using fanProductFrom_exact [of 1 lim ns] assms by (simp add: fanProduct_def)

lemma concat_concat_map: "concat (concat xss) = concat (map concat xss)"
  by (induction xss) auto

lemma append_nil_fun: "(@) [] = (\<lambda>q. q)"
  by (simp add: fun_eq_iff)

lemma append_snoc_fun: "(@) (p @ [x]) = (\<lambda>q. p @ x # q)"
  by (simp add: fun_eq_iff)

lemma foldl_cartesianStep: "foldl cartesianStep acc per = concat (map (\<lambda>p. map (\<lambda>q. p @ q) (product_lists per)) acc)"
proof (induction per arbitrary: acc)
  case (Cons vals per)
  show ?case
    unfolding foldl_Cons Cons.IH by (simp add: cartesianStep_def map_concat concat_concat_map append_snoc_fun comp_def)
qed (simp add: append_nil_fun)

lemma cartesianValues_eq: "cartesianValues per = product_lists per"
  by (simp add: cartesianValues_def foldl_cartesianStep append_nil_fun)

lemma length_cartesianValues: "int (length (cartesianValues per)) = prod_list (map (\<lambda>v. int (length v)) per)"
  unfolding cartesianValues_eq
  by (induction per) (simp_all add: length_concat comp_def sum_list_triv)

lemma foldl_min: "foldl (\<lambda>n vals. if length vals < n then length vals else n) n per = Min (insert n (set (map length per)))"
proof (induction per arbitrary: n)
  case (Cons v per)
  have "insert n (set (map length (v # per))) = insert (length v) (insert n (set (map length per)))" by auto
  moreover have "Min (insert (length v) (insert n (set (map length per)))) = Min (insert (min (length v) n) (set (map length per)))"
    by (cases "per = []") (simp_all add: min.assoc min.left_commute)
  ultimately show ?case using Cons.IH [of "if length v < n then length v else n"] by (simp add: min_def split: if_splits)
qed simp

definition shortest :: "'a list list \<Rightarrow> nat" where
  "shortest per = Min (set (map length per))"

lemma zipValues_eq:
  assumes "per \<noteq> []"
  shows "zipValues per = (map (\<lambda>k. map (\<lambda>vals. vals ! k) per) [0..<shortest per], list_ex (\<lambda>vals. length vals \<noteq> shortest per) per)"
proof -
  have "insert (length (per ! 0)) (set (map length per)) = set (map length per)" using assms by (cases per) auto
  then have "foldl (\<lambda>n vals. if length vals < n then length vals else n) (length (per ! 0)) per = shortest per"
    by (simp add: foldl_min shortest_def)
  moreover have "map (\<lambda>t. per ! t ! k) [0..<length per] = map (\<lambda>vals. vals ! k) per" for k
    by (rule nth_equalityI) auto
  ultimately show ?thesis by (simp add: zipValues_def Let_def)
qed

lemma overlap_free_prefix_free:
  assumes "overlappingToken tokens = None" and "map fst reps = tokens"
  shows "prefix_free reps"
proof -
  have none: "overlapAt tokens (i, j) = None" if "i < length tokens" "j < length tokens" for i j
    using assms(1) that by (auto simp: overlappingToken_def find_None_iff find_Some_iff split: option.splits)
  show ?thesis
    unfolding prefix_free_def
  proof (intro ballI impI)
    fix a b assume "a \<in> set reps" "b \<in> set reps" and pre: "HasPrefix (fst b) (fst a)"
    then obtain i j where i: "i < length reps" "a = reps ! i" and j: "j < length reps" "b = reps ! j"
      by (auto simp: in_set_conv_nth)
    then have "tokens ! i = fst a" "tokens ! j = fst b" "length tokens = length reps" using assms(2) by auto
    then show "a = b" using none [of i j] pre i j by (auto simp: overlapAt_def split: if_splits)
  qed
qed

text \<open>The substitution does not depend on the order of the bindings: once the overlap check has accepted the
  tokens, replacing with the bindings in any order gives the same string.
\<close>

theorem substitution_order_free:
  assumes "overlappingToken (map fst reps) = None" and "mset reps = mset reps'"
  shows "Replace reps s = Replace reps' s"
  using Replace_order_free [OF overlap_free_prefix_free [OF assms(1) refl], of reps' s] mset_eq_setD [OF assms(2)] by simp

theorem substitution_order_free_witness:
  "overlappingToken [''U'', ''V''] = None \<and>
   Replace [(''U'', ''V1''), (''V'', ''2'')] ''/U?q=V'' = Replace [(''V'', ''2''), (''U'', ''V1'')] ''/U?q=V''"
proof -
  have o: "overlappingToken [''U'', ''V''] = None" by code_simp
  then show ?thesis
    using substitution_order_free [of "[(''U'', ''V1''), (''V'', ''2'')]" "[(''V'', ''2''), (''U'', ''V1'')]"] by simp
qed

subsection \<open>The variants of a fan\<close>

lemma collect_InrD: "collect rs = Inr xs \<Longrightarrow> rs = map Inr xs"
  by (induction rs arbitrary: xs rule: collect.induct) (auto simp: map_sum_def split: sum.splits)

lemma map_cons_eq_Inr [simp]:
  "map_sum id ((#) v) r = Inr per \<longleftrightarrow> (\<exists>per'. r = Inr per' \<and> per = v # per')"
  by (cases r) auto

lemma loadValues_length: "loadValues b vs = Some (Inr per) \<Longrightarrow> length per = length vs"
  by (induction vs arbitrary: per) (auto split: option.splits sum.splits)

lemma loadValues_size:
  "loadValues b vs = Some (Inr per) \<Longrightarrow> 0 < maxFanSize b \<Longrightarrow> vals \<in> set per \<Longrightarrow> int (length vals) \<le> maxFanSize b"
  by (induction vs arbitrary: per) (auto simp: checkFanSize_def split: option.splits sum.splits if_splits)

lemma makeVariant_InrD:
  "makeVariant b tokens tuple = Inr v \<Longrightarrow>
     vValues v = map vDisplay tuple \<and> vBlock v = substitute (zip tokens (map Substituted tuple)) b"
  by (auto simp: makeVariant_def Let_def split: option.splits)

lemma substitute_shape [simp]:
  "Vary (substitute reps b) = []" "length (URLs (substitute reps b)) = 1" "Repeat (substitute reps b) = Repeat b"
  by (simp_all add: substitute_def mapStrings_def Let_def)

lemma product_lists_map: "product_lists (map (map g) per) = map (map g) (product_lists per)"
  by (induction per) (simp_all add: map_concat comp_def)

text \<open>What a successful fan went through: the values it loaded, and how they were combined.\<close>

lemma blockFan_SomeD:
  assumes "blockFan b0 = Some (Inr (Some f))"
  obtains b per tuples where "bodyFiles_update (\<lambda>_. bodyFiles b) b0 = b" "loadValues b (Vary b0) = Some (Inr per)"
    "combine b per = Inr (tuples, Ragged f)" "map (makeVariant b (varyTokens (Vary b0))) tuples = map Inr (Variants f)"
    "Vary b0 \<noteq> []" "fanTokens f = displayStrings (varyTokens (Vary b0))"
proof -
  from assms have ne: "Vary b0 \<noteq> []" by (auto simp: blockFan_def)
  from assms ne obtain snaps where s: "snapshot (reader b0) (bodyFileRefs b0) [] = Inr snaps"
    by (auto simp: blockFan_def Let_def split: option.splits sum.splits)
  let ?b = "b0\<lparr>bodyFiles := snaps\<rparr>"
  from assms ne s obtain per where l: "loadValues ?b (Vary b0) = Some (Inr per)"
    by (auto simp: blockFan_def Let_def split: option.splits sum.splits)
  from assms ne s l obtain tuples rag where c: "combine ?b per = Inr (tuples, rag)"
    by (auto simp: blockFan_def Let_def split: option.splits sum.splits)
  from assms ne s l c obtain vs where v: "collect (map (makeVariant ?b (varyTokens (Vary b0))) tuples) = Inr vs"
    by (auto simp: blockFan_def Let_def split: option.splits sum.splits)
  from assms ne s l c v have f: "Variants f = vs" "Ragged f = rag" "fanTokens f = displayStrings (varyTokens (Vary b0))"
    by (auto simp: blockFan_def Let_def split: option.splits sum.splits)
  show ?thesis using that [of ?b per tuples] l c f ne collect_InrD [OF v] by simp
qed

lemma combine_width:
  assumes "combine b per = Inr (tuples, rag)" and "per \<noteq> []" and "t \<in> set tuples"
  shows "length t = length per"
  using assms by (auto simp: combine_def zipValues_eq cartesianValues_eq in_set_product_lists_length split: VaryMode.splits option.splits)

lemma blockFan_shape:
  assumes "blockFan b = Some (Inr (Some f))"
  shows "fanTokens f \<noteq> [] \<and> list_all (\<lambda>v. length (vValues v) = length (Vary b) \<and> length (vValues v) = length (fanTokens f) \<and>
       Vary (vBlock v) = [] \<and> length (URLs (vBlock v)) = 1 \<and> Repeat (vBlock v) = Repeat b) (Variants f)"
proof -
  obtain b' per tuples where b': "bodyFiles_update (\<lambda>_. bodyFiles b') b = b'" and l: "loadValues b' (Vary b) = Some (Inr per)"
    and c: "combine b' per = Inr (tuples, Ragged f)" and v: "map (makeVariant b' (varyTokens (Vary b))) tuples = map Inr (Variants f)"
    and ne: "Vary b \<noteq> []" and t: "fanTokens f = displayStrings (varyTokens (Vary b))"
    by (rule blockFan_SomeD [OF assms])
  have "Repeat b' = Repeat b" by (subst b' [symmetric], simp)
  moreover have "per \<noteq> []" "length per = length (Vary b)" using loadValues_length [OF l] ne by auto
  ultimately have "length (vValues w) = length (Vary b) \<and> Vary (vBlock w) = [] \<and> length (URLs (vBlock w)) = 1 \<and> Repeat (vBlock w) = Repeat b"
    if w: "w \<in> set (Variants f)" for w
  proof -
    from w have "Inr w \<in> set (map (makeVariant b' (varyTokens (Vary b))) tuples)" using v by (simp add: image_iff)
    then obtain tu where "tu \<in> set tuples" "makeVariant b' (varyTokens (Vary b)) tu = Inr w" by auto
    then show ?thesis
      using combine_width [OF c \<open>per \<noteq> []\<close>] makeVariant_InrD \<open>Repeat b' = Repeat b\<close> \<open>length per = length (Vary b)\<close> by fastforce
  qed
  then show ?thesis using ne by (simp add: list_all_iff t displayStrings_def varyTokens_def)
qed

lemma combine_bound:
  assumes "combine b per = Inr (tuples, rag)" and "per \<noteq> []" and "0 < maxFanSize b" and "maxFanSize b < 2 ^ 63"
    and "\<And>vals. vals \<in> set per \<Longrightarrow> int (length vals) \<le> maxFanSize b"
  shows "int (length tuples) \<le> maxFanSize b"
proof (cases "bVaryMode b")
  case VaryClusterBomb
  then have "fanProduct (map (\<lambda>v. int (length v)) per) (maxFanSize b) \<noteq> None" and "tuples = cartesianValues per"
    using assms(1,3) by (auto simp: combine_def checkFanProduct_def split: option.splits if_splits)
  then show ?thesis
    using fanProduct_exact [of "maxFanSize b" "map (\<lambda>v. int (length v)) per"] assms(3,4) length_cartesianValues [of per]
    by (auto split: if_splits)
next
  case VaryPitchfork
  then have "length tuples = shortest per" using assms(1,2) by (auto simp: combine_def zipValues_eq)
  moreover have "shortest per \<le> length (hd per)" using assms(2) by (simp add: shortest_def)
  moreover have "int (length (hd per)) \<le> maxFanSize b" using assms(2,5) by simp
  ultimately show ?thesis by linarith
qed

text \<open>What simultaneous replacement is: the string is read once from the left; where a key starts its value is taken
  instead and reading goes on behind the key, and elsewhere a character stands for itself.\<close>

inductive replaces :: "(str \<times> str) list \<Rightarrow> str \<Rightarrow> str \<Rightarrow> bool" for reps :: "(str \<times> str) list" where
  replaces_end: "replaces reps [] []"
| replaces_key: "(key, val) \<in> set reps \<Longrightarrow> key \<noteq> [] \<Longrightarrow> replaces reps s t \<Longrightarrow> replaces reps (key @ s) (val @ t)"
| replaces_char: "\<forall>r\<in>set reps. fst r = [] \<or> \<not> HasPrefix (c # s) (fst r) \<Longrightarrow> replaces reps s t \<Longrightarrow> replaces reps (c # s) (c # t)"

lemma replaces_Replace: "replaces reps s (Replace reps s)"
proof (induction reps s rule: Replace.induct)
  case (1 reps)
  show ?case by (simp add: replaces_end)
next
  case (2 reps c s)
  show ?case
  proof (cases "find (\<lambda>r. fst r \<noteq> [] \<and> HasPrefix (c # s) (fst r)) reps")
    case None
    then have "\<forall>r\<in>set reps. fst r = [] \<or> \<not> HasPrefix (c # s) (fst r)" by (auto simp: find_None_iff)
    then have "replaces reps (c # s) (c # Replace reps s)" using "2.IH"(1) [OF None] by (rule replaces_char)
    then show ?thesis by (simp add: Replace.simps(2) None)
  next
    case (Some x)
    then have x: "x \<in> set reps" "fst x \<noteq> []" "HasPrefix (c # s) (fst x)" by (auto simp: find_Some_iff)
    have "replaces reps (fst x @ drop (length (fst x)) (c # s)) (snd x @ Replace reps (drop (length (fst x)) (c # s)))"
      using x(1,2) "2.IH"(2) [OF Some] by (cases x) (auto intro: replaces_key)
    moreover have "fst x @ drop (length (fst x)) (c # s) = c # s"
      using x(3) by (auto simp: HasPrefix_iff)
    ultimately show ?thesis by (simp add: Replace.simps(2) Some)
  qed
qed

text \<open>A block with a function applied to its strings, field by field.\<close>

definition rewritten :: "(str \<Rightarrow> str) \<Rightarrow> Block \<Rightarrow> Block \<Rightarrow> bool" where
  "rewritten R b v \<longleftrightarrow>
     URLs v = [ensureScheme (R (URLs b ! 0)) (defaultScheme b)] \<and> Method v = R (Method b) \<and>
     Headers v = map (mapTyped R) (Headers b) \<and>
     list_all2 (\<lambda>h h'. case horigin h of
         headerTyped \<Rightarrow> hName h' = R (hName h) \<and> hValue h' = R (hValue h)
       | headerValueTyped \<Rightarrow> hName h' = hName h \<and> hValue h' = R (hValue h)
       | headerBaked \<Rightarrow> h' = h
       | _ \<Rightarrow> hName h' = hName h) (Headers b) (Headers v) \<and>
     SuppressedHeaders v = map R (SuppressedHeaders b) \<and>
     map cName (Cookies v) = map (R \<circ> cName) (Cookies b) \<and> map cValue (Cookies v) = map (R \<circ> cValue) (Cookies b) \<and>
     bData v = map (mapData R) (bData b) \<and>
     list_all2 (\<lambda>d d'. dataFileRef d = None \<longrightarrow> dspec d' = R (dspec d)) (bData b) (bData v) \<and>
     list_all2 (\<lambda>p p'. fName p' = R (fName p) \<and> fFileName p' = R (fFileName p) \<and> fType p' = R (fType p) \<and>
         fValue p' = (if fkind p = formLiteral then R (fValue p) else fValue p)) (bForm b) (bForm v) \<and>
     map jspec (bJson v) = map (\<lambda>j. if jIsFile j then jspec j else R (jspec j)) (bJson b) \<and>
     bodyFiles v = (if varyBodyFiles b then map (\<lambda>(p, raw). (p, R raw)) (bodyFiles b) else bodyFiles b) \<and>
     Vary v = [] \<and> Repeat v = Repeat b \<and> bName v = bName b \<and> FormEscape v = FormEscape b"

lemma mapTyped_strings:
  "case horigin h of
     headerTyped \<Rightarrow> hName (mapTyped R h) = R (hName h) \<and> hValue (mapTyped R h) = R (hValue h)
   | headerValueTyped \<Rightarrow> hName (mapTyped R h) = hName h \<and> hValue (mapTyped R h) = R (hValue h)
   | headerBaked \<Rightarrow> mapTyped R h = h
   | _ \<Rightarrow> hName (mapTyped R h) = hName h"
  by (cases "horigin h") (auto simp: mapTyped_def split: option.split prod.split)

lemma substitute_rewritten: "rewritten (Replace reps) b (substitute reps b)"
proof -
  have "list_all2 (\<lambda>h h'. case horigin h of
         headerTyped \<Rightarrow> hName h' = Replace reps (hName h) \<and> hValue h' = Replace reps (hValue h)
       | headerValueTyped \<Rightarrow> hName h' = hName h \<and> hValue h' = Replace reps (hValue h)
       | headerBaked \<Rightarrow> h' = h
       | _ \<Rightarrow> hName h' = hName h) (Headers b) (map (mapTyped (Replace reps)) (Headers b))"
    by (simp only: list.rel_map list.rel_refl_strong mapTyped_strings)
  moreover have "list_all2 (\<lambda>d d'. dataFileRef d = None \<longrightarrow> dspec d' = Replace reps (dspec d)) (bData b) (map (mapData (Replace reps)) (bData b))"
    by (simp add: list.rel_map list.rel_refl_strong mapData_def)
  ultimately show ?thesis
    by (simp add: rewritten_def substitute_def mapStrings_def varyBodyFiles_def Let_def comp_def mapForm_def list.rel_map list.rel_refl_strong)
qed

lemma loadValues_source:
  "loadValues b vs = Some (Inr per) \<Longrightarrow> list_all2 (\<lambda>v vals. \<exists>raws. sourceValues (subject v) (reader b) (vSource v) = Some (Inr raws) \<and>
     raws \<noteq> [] \<and> vals = map (\<lambda>raw. \<lparr>Substituted = applyEncoders (vEncoders v) raw, vDisplay = displayValue raw\<rparr>) raws) vs per"
  by (induction vs arbitrary: per)
     (auto simp: specValues_def split: option.splits sum.splits if_splits)


definition fanExample :: "VaryMode \<Rightarrow> Block" where
  "fanExample mode = \<lparr>URLs = [''AB''], bName = [], Headers = [], SuppressedHeaders = [], Cookies = [], Method = [],
     bData = [], bForm = [], bJson = [], FormEscape = False, Repeat = 1,
     Vary = [\<lparr>Token = ''A'', vEncoders = [], vSource = sourceList [''x'', ''y'']\<rparr>,
             \<lparr>Token = ''B'', vEncoders = [], vSource = sourceList [''p'', ''q'']\<rparr>],
     bVaryMode = mode, VaryFileContent = None, bodyFiles = [], bRead = (\<lambda>_. None), ReadStdin = None,
     maxFanSize = 4, defaultScheme = ''h''\<rparr>"

lemma fanExample_accepted:
  "case blockFan (fanExample VaryClusterBomb) of Some (Inr (Some f)) \<Rightarrow> length (Variants f) = 4 | _ \<Rightarrow> False"
  by code_simp


end
