(* ===== verification/Plan.thy ===== *)
theory Plan
  imports VaryFan
begin

text \<open>
  Expanding a parsed plan into request groups (\<open>internal/curlblocks/plan.go\<close>) and the label specifications of a
  block (\<open>Block.NameSpecs\<close> of \<open>naming.go\<close>). The command-wide flags a plan also carries take no part in the
  expansion. \<open>None\<close> is a panic; an error names its block unless the command line opened none.
\<close>

record Plan =
  planBlocks :: "Block list"
  implicit :: bool

record RequestGroup =
  gBlock :: Block
  gURL :: str
  gRepeat :: int
  gLabels :: "Label list"
  gFan :: "Fan option"
  gBlockIndex :: nat

datatype planErr =
    PlanRepeat nat int
  | PlanBlock nat varyErr
  | PlanPlain varyErr
  | PlanNames nameErr
  | PlanTally nat int nat

definition BlockError :: "Plan \<Rightarrow> nat \<Rightarrow> varyErr \<Rightarrow> planErr" where
  "BlockError p i e = (if implicit p then PlanPlain e else PlanBlock (i + 1) e)"

definition NameSpecs :: "Block \<Rightarrow> Fan option \<Rightarrow> nat \<Rightarrow> NameSpec list option" where
  "NameSpecs b fan src = (case fan of
       None \<Rightarrow>
         if Vary b \<noteq> [] then None
         else Some (map (\<lambda>_. \<lparr>nsName = bName b, nsCount = nat (Repeat b), nsTokens = [], nsRows = [], nsSource = src\<rparr>) (URLs b))
     | Some f \<Rightarrow> Some [\<lparr>nsName = bName b, nsCount = nat (Repeat b), nsTokens = fanTokens f, nsRows = map vValues (Variants f), nsSource = src\<rparr>])"

definition groupsOf :: "Block \<Rightarrow> Fan option \<Rightarrow> nat \<Rightarrow> RequestGroup list" where
  "groupsOf b fan i = (case fan of
       Some f \<Rightarrow> map (\<lambda>v. \<lparr>gBlock = vBlock v, gURL = URLs (vBlock v) ! 0, gRepeat = Repeat b, gLabels = [], gFan = Some f, gBlockIndex = i\<rparr>) (Variants f)
     | None \<Rightarrow> map (\<lambda>u. \<lparr>gBlock = b\<lparr>URLs := [u]\<rparr>, gURL = u, gRepeat = Repeat b, gLabels = [], gFan = None, gBlockIndex = i\<rparr>) (URLs b))"

text \<open>The loop over the blocks, from block \<open>i\<close> on.\<close>

fun expandBlocks :: "Plan \<Rightarrow> nat \<Rightarrow> Block list \<Rightarrow> (planErr + RequestGroup list \<times> NameSpec list) option" where
  "expandBlocks p i [] = Some (Inr ([], []))"
| "expandBlocks p i (b # bs) =
     (if Repeat b < 1 then Some (Inl (PlanRepeat (i + 1) (Repeat b)))
      else case blockFan b of
        None \<Rightarrow> None
      | Some (Inl e) \<Rightarrow> Some (Inl (BlockError p i e))
      | Some (Inr fan) \<Rightarrow>
          (case NameSpecs b fan i of
             None \<Rightarrow> None
           | Some specs \<Rightarrow> map_option (map_sum id (\<lambda>(gs, ss). (groupsOf b fan i @ gs, specs @ ss))) (expandBlocks p (i + 1) bs)))"

fun dealLabels :: "RequestGroup list \<Rightarrow> Label list \<Rightarrow> RequestGroup list" where
  "dealLabels [] labels = []"
| "dealLabels (g # gs) labels = g\<lparr>gLabels := take (nat (gRepeat g)) labels\<rparr> # dealLabels gs (drop (nat (gRepeat g)) labels)"

definition assignLabels :: "RequestGroup list \<Rightarrow> Label list \<Rightarrow> planErr + RequestGroup list" where
  "assignLabels groups labels =
     (let want = sum_list (map gRepeat groups) in
      if int (length labels) \<noteq> want then Inl (PlanTally (length labels) want (length groups))
      else Inr (dealLabels groups labels))"

definition Expand :: "(str \<Rightarrow> str) \<Rightarrow> Plan \<Rightarrow> (planErr + RequestGroup list) option" where
  "Expand quote p =
     (case expandBlocks p 0 (planBlocks p) of
        None \<Rightarrow> None
      | Some (Inl e) \<Rightarrow> Some (Inl e)
      | Some (Inr (groups, specs)) \<Rightarrow>
          (case ResolveNames quote specs of
             None \<Rightarrow> None
           | Some (Inl e) \<Rightarrow> Some (Inl (PlanNames e))
           | Some (Inr labels) \<Rightarrow> Some (assignLabels groups labels)))"

subsection \<open>Groups and specifications agree\<close>

definition specTotal :: "NameSpec list \<Rightarrow> nat" where
  "specTotal specs = sum_list (map (\<lambda>s. nsCount s * (if nsTokens s = [] then 1 else length (nsRows s))) specs)"

definition groupOk :: "RequestGroup \<Rightarrow> bool" where
  "groupOk g \<longleftrightarrow> 1 \<le> gRepeat g \<and> URLs (gBlock g) = [gURL g] \<and> Vary (gBlock g) = [] \<and> Repeat (gBlock g) = gRepeat g"

lemma blockFan_nil: "blockFan b = Some (Inr None) \<Longrightarrow> Vary b = []"
  by (auto simp: blockFan_def Let_def split: option.splits sum.splits if_splits)

lemma NameSpecs_defined: "blockFan b = Some (Inr fan) \<Longrightarrow> \<exists>specs. NameSpecs b fan i = Some specs"
  using blockFan_nil by (auto simp: NameSpecs_def split: option.splits)

lemma one_block:
  assumes "blockFan b = Some (Inr fan)" and "NameSpecs b fan i = Some specs" and "1 \<le> Repeat b"
  shows "checkRows specs" and "list_all groupOk (groupsOf b fan i)"
    and "int (specTotal specs) = sum_list (map gRepeat (groupsOf b fan i))"
proof -
  show "checkRows specs"
    using assms(1,2) blockFan_shape [of b "the fan"]
    by (cases fan) (auto simp: NameSpecs_def checkRows_def list_all_iff split: if_splits)
  show "list_all groupOk (groupsOf b fan i)"
    using assms(1,3) blockFan_shape [of b "the fan"] blockFan_nil [of b]
    by (cases fan) (auto simp: groupsOf_def groupOk_def list_all_iff length_Suc_conv)
  show "int (specTotal specs) = sum_list (map gRepeat (groupsOf b fan i))"
    using assms blockFan_shape [of b "the fan"]
    by (cases fan) (auto simp: NameSpecs_def groupsOf_def specTotal_def comp_def sum_list_triv split: if_splits)
qed

lemma map_sum_id_Inr: "map_sum id f r = Inr y \<longleftrightarrow> (\<exists>x. r = Inr x \<and> y = f x)"
  by (cases r) auto

lemma map_sum_id_Inl: "map_sum id f r = Inl e \<longleftrightarrow> r = Inl e"
  by (cases r) auto

lemma expandBlocks_agree:
  assumes "expandBlocks p i bs = Some (Inr (groups, specs))"
  shows "checkRows specs \<and> list_all groupOk groups \<and> int (specTotal specs) = sum_list (map gRepeat groups)"
  using assms
proof (induction bs arbitrary: i groups specs)
  case (Cons b bs)
  then have r: "1 \<le> Repeat b" by (auto split: if_splits)
  with Cons.prems obtain fan sp gs ss where f: "blockFan b = Some (Inr fan)" and n: "NameSpecs b fan i = Some sp"
    and e: "expandBlocks p (i + 1) bs = Some (Inr (gs, ss))" and g: "groups = groupsOf b fan i @ gs" "specs = sp @ ss"
    by (auto split: option.splits sum.splits simp: map_sum_id_Inr)
  from one_block [OF f n r] Cons.IH [OF e] g show ?case
    by (auto simp: checkRows_def specTotal_def)
qed (simp add: checkRows_def specTotal_def)

lemma dealLabels_spec:
  assumes "int (length labels) = sum_list (map gRepeat groups)" and "list_all groupOk groups"
  shows "concat (map gLabels (dealLabels groups labels)) = labels \<and>
     list_all (\<lambda>g. groupOk g \<and> length (gLabels g) = nat (gRepeat g)) (dealLabels groups labels)"
  using assms
proof (induction groups arbitrary: labels)
  case (Cons g gs)
  have nonneg: "0 \<le> sum_list (map gRepeat gs)" using Cons.prems(2) by (intro sum_list_nonneg) (auto simp: list_all_iff groupOk_def)
  have g: "1 \<le> gRepeat g" using Cons.prems(2) by (simp add: groupOk_def)
  have "int (length (drop (nat (gRepeat g)) labels)) = sum_list (map gRepeat gs)"
    using Cons.prems(1) nonneg g by auto
  from Cons.IH [OF this] Cons.prems nonneg g show ?case by (auto simp: groupOk_def)
qed simp

lemma expandBlocks_defined:
  "expandBlocks p i bs = None \<Longrightarrow> \<exists>b\<in>set bs. blockFan b = None"
proof (induction bs arbitrary: i)
  case (Cons b bs)
  show ?case
  proof (cases "blockFan b")
    case (Some r)
    have "expandBlocks p (i + 1) bs = None"
    proof (cases r)
      case (Inr fan)
      then obtain sp where "NameSpecs b fan i = Some sp" using NameSpecs_defined Some by blast
      with Some Inr Cons.prems show ?thesis by (simp split: if_splits)
    qed (use Some Cons.prems in \<open>simp split: if_splits\<close>)
    with Cons.IH show ?thesis by auto
  qed simp
qed simp

text \<open>C31. Expansion keeps requests and labels aligned: when it succeeds, every group is a single-URL request without
  bindings whose target is its own URL, it holds exactly as many labels as copies it asks for, and no two copies
  anywhere in the plan share a label.
\<close>

theorem expansion_labels_every_copy:
  assumes "Expand quote p = Some (Inr groups)"
  shows "distinct (map Display (concat (map gLabels groups))) \<and>
    list_all (\<lambda>g. 1 \<le> gRepeat g \<and> length (gLabels g) = nat (gRepeat g) \<and> URLs (gBlock g) = [gURL g] \<and> Vary (gBlock g) = []) groups"
proof -
  obtain gs specs labels where e: "expandBlocks p 0 (planBlocks p) = Some (Inr (gs, specs))"
    and r: "ResolveNames quote specs = Some (Inr labels)" and a: "assignLabels gs labels = Inr groups"
    using assms by (auto simp: Expand_def split: option.splits sum.splits)
  from a have n: "int (length labels) = sum_list (map gRepeat gs)" and d: "groups = dealLabels gs labels"
    by (auto simp: assignLabels_def Let_def split: if_splits)
  have "list_all groupOk gs" using expandBlocks_agree [OF e] by simp
  from dealLabels_spec [OF n this] have c: "concat (map gLabels groups) = labels"
    and l: "list_all (\<lambda>g. groupOk g \<and> length (gLabels g) = nat (gRepeat g)) groups" unfolding d by simp_all
  have "distinct (map Display labels)" using ResolveNames_labels [OF r] by simp
  moreover have "list_all (\<lambda>g. 1 \<le> gRepeat g \<and> length (gLabels g) = nat (gRepeat g) \<and> URLs (gBlock g) = [gURL g] \<and> Vary (gBlock g) = []) groups"
    using l by (rule list.pred_mono_strong) (simp add: groupOk_def)
  ultimately show ?thesis unfolding c by simp
qed

text \<open>C32. The alignment guard of the expansion never fires and its panics are unreachable: the tally of labels always
  matches the tally of requests, and an expansion fails to return only when the values of some block's bindings
  cannot be enumerated.
\<close>

theorem expansion_never_misaligned:
  "Expand quote p \<noteq> Some (Inl (PlanTally have want n)) \<and>
   ((\<exists>r. Expand quote p = Some r) \<or> (\<exists>b. b \<in> set (planBlocks p) \<and> blockFan b = None))"
proof (cases "expandBlocks p 0 (planBlocks p)")
  case None
  then show ?thesis using expandBlocks_defined [OF None] by (auto simp: Expand_def)
next
  case (Some out)
  show ?thesis
  proof (cases out)
    case (Inl e)
    have "e \<noteq> PlanTally h w k" if "expandBlocks p i bs = Some (Inl e)" for h w k i bs
      using that by (induction bs arbitrary: i) (auto simp: BlockError_def map_sum_id_Inl split: if_splits option.splits sum.splits)
    then show ?thesis using Some Inl by (auto simp: Expand_def)
  next
    case (Inr gsp)
    then obtain gs specs where e: "expandBlocks p 0 (planBlocks p) = Some (Inr (gs, specs))" using Some by (cases gsp) auto
    from expandBlocks_agree [OF e] obtain r where r: "ResolveNames quote specs = Some r"
      using ResolveNames_total by blast
    from e r expandBlocks_agree [OF e] ResolveNames_labels [of quote specs] show ?thesis
      by (auto simp: Expand_def assignLabels_def Let_def specTotal_def split: sum.splits)
  qed
qed

definition planExample :: Plan where
  "planExample = \<lparr>planBlocks = [fanExample VaryPitchfork, (fanExample VaryPitchfork)\<lparr>URLs := [''u'', ''v''], Vary := [], Repeat := 2\<rparr>], implicit = False\<rparr>"

lemma planExample_expands:
  "case Expand (\<lambda>s. s) planExample of Some (Inr gs) \<Rightarrow> length gs = 4 | _ \<Rightarrow> False"
  by code_simp

theorem expansion_labels_every_copy_witness:
  "\<exists>groups. Expand (\<lambda>s. s) planExample = Some (Inr groups) \<and> length groups = 4 \<and> distinct (map Display (concat (map gLabels groups)))"
proof -
  obtain gs where "Expand (\<lambda>s. s) planExample = Some (Inr gs)" "length gs = 4"
    using planExample_expands by (auto split: option.splits sum.splits)
  with expansion_labels_every_copy [OF this(1)] show ?thesis by blast
qed

end
