(* ===== verification/RequestBody.thy ===== *)
theory RequestBody
  imports VaryFan "HOL-Library.AList"
begin

text \<open>
  Request bodies (\<open>internal/curlblocks/body.go\<close>, \<open>form.go\<close>, \<open>json.go\<close>, \<open>request.go\<close>): choosing the one body kind
  of a block, encoding a form as multipart, merging JSON documents as RFC 7386 patches, and the headers a body
  implies. JSON text is decoded, validated and printed by \<open>encoding/json\<close>, whose three entry points are arguments
  (\<open>decode\<close> returns the single value of its input with number literals kept, or nothing), as are the host's table
  of media types and a freshly generated multipart boundary. The multipart writer is modelled.
\<close>

subsection \<open>JSON merge patches\<close>

datatype jvalue = JNull | JBool bool | JNumber str | JString str | JArray "jvalue list" | JObject "(str \<times> jvalue) list"

definition jfields :: "jvalue \<Rightarrow> (str \<times> jvalue) list" where
  "jfields v = (case v of JObject fs \<Rightarrow> fs | _ \<Rightarrow> [])"

definition jget :: "(str \<times> jvalue) list \<Rightarrow> str \<Rightarrow> jvalue" where
  "jget fs k = (case map_of fs k of Some v \<Rightarrow> v | None \<Rightarrow> JNull)"

text \<open>An object's fields are listed in the order in which the range over the Go map visits them.\<close>

fun mergePatch :: "jvalue \<Rightarrow> jvalue \<Rightarrow> jvalue"
and mergeFields :: "(str \<times> jvalue) list \<Rightarrow> (str \<times> jvalue) list \<Rightarrow> (str \<times> jvalue) list" where
  "mergePatch target (JObject ps) = JObject (mergeFields (jfields target) ps)"
| "mergePatch target patch = patch"
| "mergeFields fs [] = fs"
| "mergeFields fs ((k, v) # ps) =
     (if v = JNull then mergeFields (AList.delete k fs) ps
      else mergeFields (AList.update k (mergePatch (jget fs k) v) fs) ps)"

datatype bodyErr =
    BodyRead readErr
  | BodyForm formErr
  | BodyVary varyErr
  | JsonInvalid jsonPiece
  | JsonNotObject str str
  | BodyKinds
  | BadBoundary str

fun jsonKind :: "jvalue \<Rightarrow> str" where
  "jsonKind JNull = ''null''"
| "jsonKind (JBool _) = ''a boolean''"
| "jsonKind (JNumber _) = ''a number''"
| "jsonKind (JString _) = ''a string''"
| "jsonKind (JArray _) = ''an array''"
| "jsonKind (JObject _) = ''a value''"

definition decodeJSON :: "(str \<Rightarrow> jvalue option) \<Rightarrow> jsonPiece \<Rightarrow> str \<Rightarrow> bodyErr + jvalue" where
  "decodeJSON decode p data = (case decode data of None \<Rightarrow> Inl (JsonInvalid p) | Some v \<Rightarrow> Inr v)"

definition decodeObject :: "(str \<Rightarrow> jvalue option) \<Rightarrow> jsonPiece \<Rightarrow> str \<Rightarrow> str \<Rightarrow> bodyErr + (str \<times> jvalue) list" where
  "decodeObject decode p data subj = (case decodeJSON decode p data of
       Inl e \<Rightarrow> Inl e
     | Inr (JObject fs) \<Rightarrow> Inr fs
     | Inr v \<Rightarrow> Inl (JsonNotObject subj (jsonKind v)))"

definition baseSubject :: str where "baseSubject = ''the base --json''"
definition patchSubject :: str where "patchSubject = ''a --json patch''"

definition errOf :: "'e + 'a \<Rightarrow> 'e option" where
  "errOf r = (case r of Inl e \<Rightarrow> Some e | Inr _ \<Rightarrow> None)"

fun checkMergeable :: "(str \<Rightarrow> jvalue option) \<Rightarrow> jsonPiece list \<Rightarrow> bodyErr option" where
  "checkMergeable decode [] = None"
| "checkMergeable decode (p # ps) = (case decodeObject decode p (jspec p) baseSubject of
       Inl e \<Rightarrow> Some e
     | Inr _ \<Rightarrow> firstErr (\<lambda>q. errOf (decodeObject decode q (jspec q) patchSubject)) ps)"

text \<open>\<open>fileRef.validate\<close>: an empty name is refused before anything is read.\<close>

definition refValidate :: "fileRef \<Rightarrow> bodyErr option" where
  "refValidate r = (if rname r = [] then Some (BodyRead (EmptyFilename (rflag r))) else None)"

definition resolveJSON :: "(str \<Rightarrow> bool) \<Rightarrow> (str \<Rightarrow> jvalue option) \<Rightarrow> jsonPiece list \<Rightarrow> jsonPiece list \<Rightarrow> bodyErr + jsonPiece list" where
  "resolveJSON valid decode pre blk =
     (let ps = pre @ blk in
      case firstErr (\<lambda>p. if jIsFile p then refValidate (jsonFileRef p)
          else if valid (jspec p) then None else Some (JsonInvalid p)) ps of
        Some e \<Rightarrow> Inl e
      | None \<Rightarrow>
          if 1 < length ps \<and> \<not> list_ex jIsFile ps
          then (case checkMergeable decode ps of Some e \<Rightarrow> Inl e | None \<Rightarrow> Inr ps) else Inr ps)"

text \<open>The patches are decoded and applied one after another, so an error of a later piece comes last.\<close>

fun applyPatches :: "(str \<Rightarrow> jvalue option) \<Rightarrow> jvalue \<Rightarrow> (jsonPiece \<times> str) list \<Rightarrow> bodyErr + jvalue" where
  "applyPatches decode doc [] = Inr doc"
| "applyPatches decode doc ((p, data) # ps) = (case decodeObject decode p data patchSubject of
       Inl e \<Rightarrow> Inl e
     | Inr patch \<Rightarrow> applyPatches decode (mergePatch doc (JObject patch)) ps)"

definition jsonBody :: "(str \<Rightarrow> bool) \<Rightarrow> (str \<Rightarrow> jvalue option) \<Rightarrow> (jvalue \<Rightarrow> str) \<Rightarrow> (str \<Rightarrow> str option) \<Rightarrow> jsonPiece list \<Rightarrow> bodyErr + str" where
  "jsonBody valid decode marshal readFile ps =
     (case collect (map (jsonLoad readFile) ps) of
        Inl e \<Rightarrow> Inl (BodyRead e)
      | Inr raws \<Rightarrow>
          (case zip ps raws of
             [] \<Rightarrow> Inr []
           | [(p, raw)] \<Rightarrow> if valid raw then Inr raw else Inl (JsonInvalid p)
           | (p, raw) # rest \<Rightarrow>
               (case decodeObject decode p raw baseSubject of
                  Inl e \<Rightarrow> Inl e
                | Inr fs \<Rightarrow> map_sum id marshal (applyPatches decode (JObject fs) rest))))"

subsection \<open>Multipart forms\<close>

definition crlf :: str where "crlf = [chr 13, chr 10]"

definition boundaryChar :: "nat \<Rightarrow> nat \<times> char \<Rightarrow> bool" where
  "boundaryChar n = (\<lambda>(i, c). let k = code c in
     (65 \<le> k \<and> k \<le> 90) \<or> (97 \<le> k \<and> k \<le> 122) \<or> (48 \<le> k \<and> k \<le> 57) \<or>
     c \<in> set (chr 39 # ''()+_,-./:=?'') \<or> (c = CHR '' '' \<and> i \<noteq> n - 1))"

definition validBoundary :: "str \<Rightarrow> bool" where
  "validBoundary b \<longleftrightarrow> 1 \<le> length b \<and> length b \<le> 70 \<and> list_all (boundaryChar (length b)) (zip [0..<length b] b)"

definition FormDataContentType :: "str \<Rightarrow> str" where
  "FormDataContentType b = ''multipart/form-data; boundary='' @
     (if ContainsAny b (chr 34 # chr 92 # ''()<>@,;:/[]?= '') then [chr 34] @ b @ [chr 34] else b)"

definition pathBase :: "str \<Rightarrow> str" where
  "pathBase path =
     (if path = [] then ''.''
      else let p = rev (dropWhile (\<lambda>c. c = CHR ''/'') (rev path)) in
        if p = [] then ''/'' else rev (takeWhile (\<lambda>c. c \<noteq> CHR ''/'') (rev p)))"

definition pathExt :: "str \<Rightarrow> str" where
  "pathExt path =
     (let final = rev (takeWhile (\<lambda>c. c \<noteq> CHR ''/'') (rev path)) in
      if CHR ''.'' \<in> set final then rev (takeWhile (\<lambda>c. c \<noteq> CHR ''.'') (rev final) @ ''.'') else [])"

definition contentType :: "(str \<Rightarrow> str) \<Rightarrow> formPart \<Rightarrow> str" where
  "contentType typeByExt p =
     (if fType p \<noteq> [] then fType p
      else if fkind p \<noteq> formFile then []
      else let ct = typeByExt (pathExt (fValue p)) in
        if ct \<noteq> [] then (case IndexByte ct (CHR '';'') of Some i \<Rightarrow> TrimSpace (take i ct) | None \<Rightarrow> ct)
        else ''application/octet-stream'')"

definition partHeader :: "(str \<Rightarrow> str) \<Rightarrow> bool \<Rightarrow> formPart \<Rightarrow> str" where
  "partHeader typeByExt escape p =
     (let disp = ''form-data; name='' @ [chr 34] @ formEscapeName (fName p) escape @ [chr 34] @
            (if fkind p = formFile
             then ''; filename='' @ [chr 34] @ formEscapeName (if fFileName p = [] then pathBase (fValue p) else fFileName p) escape @ [chr 34]
             else []);
          ct = contentType typeByExt p in
      ''Content-Disposition: '' @ disp @ crlf @ (if ct \<noteq> [] then ''Content-Type: '' @ ct @ crlf else []))"

text \<open>The bytes \<open>multipart.Writer\<close> emits: a delimiter line before every part, CRLF first for all but the first.\<close>

definition partBytes :: "(str \<Rightarrow> str) \<Rightarrow> bool \<Rightarrow> formPart \<times> str \<Rightarrow> str" where
  "partBytes typeByExt escape = (\<lambda>(p, content). partHeader typeByExt escape p @ crlf @ content)"

fun writeParts :: "str \<Rightarrow> bool \<Rightarrow> str list \<Rightarrow> str" where
  "writeParts b first [] = crlf @ ''--'' @ b @ ''--'' @ crlf"
| "writeParts b first (t # ts) = (if first then [] else crlf) @ ''--'' @ b @ crlf @ t @ writeParts b False ts"

definition formBody :: "(str \<Rightarrow> str) \<Rightarrow> str \<Rightarrow> (str \<Rightarrow> str option) \<Rightarrow> str \<Rightarrow> bool \<Rightarrow> formPart list \<Rightarrow> bodyErr + str \<times> str" where
  "formBody typeByExt fresh readFile boundary escape parts =
     (if boundary \<noteq> [] \<and> \<not> validBoundary boundary then Inl (BadBoundary boundary)
      else let b = (if boundary \<noteq> [] then boundary else fresh) in
        case collect (map (formContent readFile) parts) of
          Inl e \<Rightarrow> Inl (BodyRead e)
        | Inr contents \<Rightarrow>
            Inr (writeParts b True (map (partBytes typeByExt escape) (zip parts contents)), FormDataContentType b))"

subsection \<open>One body kind per block\<close>

record bodyArgs =
  dataArgs :: "dataPiece list"
  formArgs :: "(bool \<times> str) list"
  jsonArgs :: "jsonPiece list"

definition resolveForm :: "(bool \<times> str) list \<Rightarrow> (bool \<times> str) list \<Rightarrow> bodyErr + formPart list" where
  "resolveForm pre blk = collect (map (\<lambda>(literal, spec). case parseFormSpec literal spec of
       Inl e \<Rightarrow> Inl (BodyForm e)
     | Inr p \<Rightarrow> (case formFileRef p of
         None \<Rightarrow> Inr p
       | Some r \<Rightarrow> (case refValidate r of Some e \<Rightarrow> Inl e | None \<Rightarrow> Inr p))) (pre @ blk))"

definition resolveData :: "dataPiece list \<Rightarrow> dataPiece list \<Rightarrow> bodyErr + dataPiece list" where
  "resolveData pre blk = (case firstErr (\<lambda>p. case dataFileRef p of None \<Rightarrow> None | Some r \<Rightarrow> refValidate r) (pre @ blk) of
       Some e \<Rightarrow> Inl e | None \<Rightarrow> Inr (pre @ blk))"

definition resolveBody :: "(str \<Rightarrow> bool) \<Rightarrow> (str \<Rightarrow> jvalue option) \<Rightarrow> bool \<Rightarrow> bodyArgs \<Rightarrow> bodyArgs \<Rightarrow>
    bodyErr + dataPiece list \<times> formPart list \<times> jsonPiece list" where
  "resolveBody valid decode resetBody pre blk =
     (let bodyPre = (if resetBody then \<lparr>dataArgs = [], formArgs = [], jsonArgs = []\<rparr> else pre) in
      case resolveForm (formArgs bodyPre) (formArgs blk) of Inl e \<Rightarrow> Inl e | Inr form \<Rightarrow>
      (case resolveJSON valid decode (jsonArgs bodyPre) (jsonArgs blk) of Inl e \<Rightarrow> Inl e | Inr js \<Rightarrow>
       (case resolveData (dataArgs bodyPre) (dataArgs blk) of Inl e \<Rightarrow> Inl e | Inr ds \<Rightarrow>
        if 1 < length (filter (\<lambda>n. 0 < n) [length ds, length form, length js]) then Inl BodyKinds
        else Inr (ds, form, js))))"

subsection \<open>The request\<close>

definition HTTPMethod :: "Block \<Rightarrow> str" where
  "HTTPMethod b = (if Method b \<noteq> [] then Method b
     else if bData b \<noteq> [] \<or> bForm b \<noteq> [] \<or> bJson b \<noteq> [] then ''POST'' else ''GET'')"

definition SuppressesHeader :: "Block \<Rightarrow> str \<Rightarrow> bool" where
  "SuppressesHeader b name \<longleftrightarrow> list_ex (\<lambda>n. EqualFold n name) (SuppressedHeaders b)"

definition setsHeader :: "Block \<Rightarrow> str \<Rightarrow> bool" where
  "setsHeader b name \<longleftrightarrow> list_ex (\<lambda>h. horigin h \<noteq> headerBaked \<and> EqualFold (hName h) name) (Headers b)"

definition defaultHeaders :: "Block \<Rightarrow> (str \<times> str) list \<Rightarrow> (str \<times> str) list" where
  "defaultHeaders b candidates = filter (\<lambda>h. \<not> (snd h = [] \<or> setsHeader b (fst h) \<or> SuppressesHeader b (fst h))) candidates"

text \<open>The result is the body, if the block has one, and the headers it implies.\<close>

definition requestBody :: "(str \<Rightarrow> bool) \<Rightarrow> (str \<Rightarrow> jvalue option) \<Rightarrow> (jvalue \<Rightarrow> str) \<Rightarrow> (str \<Rightarrow> str) \<Rightarrow> str \<Rightarrow>
    Block \<Rightarrow> str \<Rightarrow> bodyErr + str option \<times> (str \<times> str) list" where
  "requestBody valid decode marshal typeByExt fresh b boundary =
     (case validateFileRefs b of Some e \<Rightarrow> Inl (BodyVary e) | None \<Rightarrow>
      if bForm b \<noteq> [] then
        map_sum id (\<lambda>(data, ct). (Some data, defaultHeaders b [(''Content-Type'', ct)]))
          (formBody typeByExt fresh (reader b) boundary (FormEscape b) (bForm b))
      else if bJson b \<noteq> [] then
        map_sum id (\<lambda>data. (Some data, defaultHeaders b [(''Content-Type'', ''application/json''), (''Accept'', ''application/json'')]))
          (jsonBody valid decode marshal (reader b) (bJson b))
      else case dataBody (reader b) (bData b) of
        Inl e \<Rightarrow> Inl (BodyRead e)
      | Inr None \<Rightarrow> Inr (None, [])
      | Inr (Some data) \<Rightarrow> Inr (Some data, defaultHeaders b [(''Content-Type'', ''application/x-www-form-urlencoded'')]))"

definition impliedHeaders :: "Block \<Rightarrow> str list" where
  "impliedHeaders b = (if bForm b \<noteq> [] \<or> bData b \<noteq> [] then [''Content-Type'']
     else if bJson b \<noteq> [] then [''Content-Type'', ''Accept''] else [])"

definition DefaultHeaderNames :: "Block \<Rightarrow> str list" where
  "DefaultHeaderNames b = names
     (fold nameSetAdd (filter (\<lambda>n. \<not> setsHeader b n \<and> \<not> SuppressesHeader b n) (impliedHeaders b))
       (fold nameSetAdd (map hName (filter (\<lambda>h. horigin h = headerBaked) (Headers b))) \<lparr>names = [], seen = (\<lambda>_. False)\<rparr>))"

subsection \<open>Merging follows RFC 7386\<close>

fun wfJ :: "jvalue \<Rightarrow> bool" where
  "wfJ (JObject fs) \<longleftrightarrow> distinct (map fst fs) \<and> list_all (\<lambda>f. wfJ (snd f)) fs"
| "wfJ (JArray vs) \<longleftrightarrow> list_all wfJ vs"
| "wfJ v \<longleftrightarrow> True"

definition jlookup :: "jvalue \<Rightarrow> str \<Rightarrow> jvalue option" where
  "jlookup v k = map_of (jfields v) k"

lemma mergeFields_lookup:
  "distinct (map fst ps) \<Longrightarrow> map_of (mergeFields fs ps) k = (case map_of ps k of
       None \<Rightarrow> map_of fs k
     | Some v \<Rightarrow> if v = JNull then None else Some (mergePatch (jget fs k) v))"
proof (induction ps arbitrary: fs)
  case (Cons q ps)
  obtain k' v where q: "q = (k', v)" by (cases q)
  from Cons.prems have "map_of ps k' = None" by (auto simp: q map_of_eq_None_iff)
  then show ?case
    using Cons by (auto simp: q delete_conv update_conv jget_def split: option.splits)
qed simp

lemma update_same: "map_of fs k = Some v \<Longrightarrow> AList.update k v fs = fs"
  by (induction fs) (auto split: if_splits)

lemma mergeFields_fixed:
  assumes "\<And>k v. (k, v) \<in> set ps \<Longrightarrow> (if v = JNull then map_of gs k = None else map_of gs k \<noteq> None \<and> mergePatch (jget gs k) v = jget gs k)"
  shows "mergeFields gs ps = gs"
  using assms
proof (induction ps)
  case (Cons q ps)
  obtain k v where q: "q = (k, v)" by (cases q)
  have ih: "mergeFields gs ps = gs" using Cons by (meson list.set_intros(2))
  show ?case
  proof (cases "v = JNull")
    case True
    then have "AList.delete k gs = gs" using Cons.prems [of k v] q by (auto simp: map_of_eq_None_iff intro: delete_idem)
    then show ?thesis using True ih q by simp
  next
    case False
    then have "AList.update k (mergePatch (jget gs k) v) gs = gs"
      using Cons.prems [of k v] q by (auto simp: jget_def intro: update_same)
    then show ?thesis using False ih q by simp
  qed
qed simp

lemma mergePatch_idem: "wfJ p \<Longrightarrow> mergePatch (mergePatch t p) p = mergePatch t p"
proof (induction p arbitrary: t)
  case (JObject ps)
  let ?fs = "jfields t" and ?gs = "mergeFields (jfields t) ps"
  have d: "distinct (map fst ps)" and w: "\<And>k v. (k, v) \<in> set ps \<Longrightarrow> wfJ v" using JObject.prems by (auto simp: list_all_iff)
  have "mergeFields ?gs ps = ?gs"
  proof (rule mergeFields_fixed)
    fix k v assume kv: "(k, v) \<in> set ps"
    then have "map_of ps k = Some v" using d by simp
    then have l: "map_of ?gs k = (if v = JNull then None else Some (mergePatch (jget ?fs k) v))"
      by (simp add: mergeFields_lookup [OF d])
    moreover have "mergePatch (mergePatch (jget ?fs k) v) v = mergePatch (jget ?fs k) v"
      using JObject.IH [OF kv, of v] w [OF kv] by simp
    ultimately show "if v = JNull then map_of ?gs k = None else map_of ?gs k \<noteq> None \<and> mergePatch (jget ?gs k) v = jget ?gs k"
      by (simp add: jget_def)
  qed
  then show ?case by (simp add: jfields_def)
qed simp_all

text \<open>C36. A merge is the one RFC 7386 prescribes, whatever order the patch's fields are visited in: a field the patch
  does not name keeps its value, a null deletes it, any other value is merged into it recursively, a patch that is
  no object replaces the target; and applying the same patch again changes nothing.
\<close>

theorem merge_patch_rfc7386:
  assumes "wfJ patch"
  shows "(case patch of
       JObject ps \<Rightarrow> \<forall>k. jlookup (mergePatch target patch) k = (case map_of ps k of
           None \<Rightarrow> jlookup target k
         | Some v \<Rightarrow> if v = JNull then None
             else Some (mergePatch (case jlookup target k of Some old \<Rightarrow> old | None \<Rightarrow> JNull) v))
     | _ \<Rightarrow> mergePatch target patch = patch) \<and>
     mergePatch (mergePatch target patch) patch = mergePatch target patch"
proof -
  have "jlookup (mergePatch target (JObject ps)) k = (case map_of ps k of
           None \<Rightarrow> jlookup target k
         | Some v \<Rightarrow> if v = JNull then None
             else Some (mergePatch (case jlookup target k of Some old \<Rightarrow> old | None \<Rightarrow> JNull) v))"
    if "patch = JObject ps" for ps k
    using assms that mergeFields_lookup [of ps "jfields target" k] by (simp add: jlookup_def jfields_def [of "JObject _"] jget_def split: option.split)
  then show ?thesis using mergePatch_idem [OF assms] by (cases patch) simp_all
qed

theorem merge_patch_rfc7386_witness:
  "wfJ (JObject [(''a'', JNull), (''b'', JObject [(''c'', JBool True)])]) \<and>
   jlookup (mergePatch (JObject [(''a'', JNumber ''1''), (''d'', JNull)]) (JObject [(''a'', JNull), (''b'', JObject [(''c'', JBool True)])])) ''d'' = Some JNull"
proof -
  let ?p = "JObject [(''a'', JNull), (''b'', JObject [(''c'', JBool True)])]"
  have w: "wfJ ?p" by simp
  from merge_patch_rfc7386 [OF w, of "JObject [(''a'', JNumber ''1''), (''d'', JNull)]"]
  have "jlookup (mergePatch (JObject [(''a'', JNumber ''1''), (''d'', JNull)]) ?p) ''d'' = jlookup (JObject [(''a'', JNumber ''1''), (''d'', JNull)]) ''d''"
    by simp
  with w show ?thesis by (simp add: jlookup_def jfields_def)
qed

lemma default_header_names_agree:
  assumes "requestBody valid decode marshal typeByExt fresh b boundary = Inr (body, hs)"
    and "length (filter (\<lambda>n. 0 < n) [length (bData b), length (bForm b), length (bJson b)]) \<le> 1"
  shows "map fst hs = filter (\<lambda>n. \<not> setsHeader b n \<and> \<not> SuppressesHeader b n) (impliedHeaders b)"
proof -
  have ct: "FormDataContentType x \<noteq> []" for x by (simp add: FormDataContentType_def)
  show ?thesis
    using assms ct
    by (auto simp: requestBody_def impliedHeaders_def defaultHeaders_def formBody_def dataBody_def Let_def map_sum_def
        split: option.splits sum.splits if_splits)
qed

subsection \<open>Multipart bodies can be taken apart\<close>

text \<open>The reference reader splits at every delimiter.\<close>

function splitOn :: "str \<Rightarrow> str \<Rightarrow> str list" where
  "splitOn d s = (if d = [] then [s] else case Index s d of
       None \<Rightarrow> [s]
     | Some i \<Rightarrow> take i s # splitOn d (drop (i + length d) s))"
  by pat_completeness auto

lemma Index_bound:
  assumes "Index s d = Some i"
  shows "i + length d \<le> length s"
proof -
  obtain t where "drop i s = d @ t" and "i \<le> length s" using Index_Some [OF assms] by (auto simp: HasPrefix_iff)
  moreover from this(1) have "length s - i = length d + length t" by (metis length_append length_drop)
  ultimately show ?thesis by linarith
qed

termination splitOn
proof (relation "measure (\<lambda>(_, s). length s)")
  fix d s :: str and i assume "d \<noteq> []" and "Index s d = Some i"
  then have "0 < length d" "i + length d \<le> length s" using Index_bound by auto
  then have "length s - (i + length d) < length s" by linarith
  then show "((d, drop (i + length d) s), d, s) \<in> measure (\<lambda>(_, s). length s)" by simp
qed simp

declare splitOn.simps [simp del]

text \<open>A delimiter whose first byte occurs nowhere else in it cannot straddle the text before it.\<close>

lemma Index_delimiter:
  assumes "d = c # ds" and "c \<notin> set ds" and "Index t d = None"
  shows "Index (t @ d @ rest) d = Some (length t)"
  using assms(3)
proof (induction t)
  case Nil
  show ?case using assms(1) HasPrefix_append [of d rest] by simp
next
  case (Cons x t)
  have no: "\<not> HasPrefix (x # t) d" and ih: "Index (t @ d @ rest) d = Some (length t)"
    using Cons by (auto split: if_splits)
  have "\<not> HasPrefix ((x # t) @ d @ rest) d"
  proof
    assume "HasPrefix ((x # t) @ d @ rest) d"
    then obtain r where eq: "(x # t) @ d @ rest = d @ r" by (auto simp: HasPrefix_iff)
    show False
    proof (cases "length d \<le> length (x # t)")
      case True
      then have "HasPrefix (x # t) d" using eq by (metis HasPrefix_iff append_eq_append_conv_if append_take_drop_id)
      with no show False by simp
    next
      case False
      then have "d ! length (x # t) = c"
        using arg_cong [OF eq, of "\<lambda>l. l ! length (x # t)"] assms(1) by (simp add: nth_append)
      moreover have "d ! length (x # t) \<in> set ds" using False assms(1) by auto
      ultimately show False using assms(2) by simp
    qed
  qed
  then show ?case using ih by simp
qed

lemma splitOn_step: "d \<noteq> [] \<Longrightarrow> Index (t @ d @ r) d = Some (length t) \<Longrightarrow> splitOn d (t @ d @ r) = t # splitOn d r"
  by (subst splitOn.simps) simp

lemma splitOn_join:
  assumes "d = c # ds" and "c \<notin> set ds" and "list_all (\<lambda>t. Index t d = None) (t # ts)"
  shows "splitOn d (t @ concat (map (\<lambda>u. d @ u) ts)) = t # ts"
  using assms(3)
proof (induction ts arbitrary: t)
  case Nil
  then show ?case by (subst splitOn.simps) simp
next
  case (Cons u us)
  from Cons.prems have "Index (t @ d @ (u @ concat (map (\<lambda>u. d @ u) us))) d = Some (length t)"
    by (intro Index_delimiter [OF assms(1,2)]) simp
  then have "splitOn d (t @ d @ (u @ concat (map (\<lambda>u. d @ u) us))) = t # splitOn d (u @ concat (map (\<lambda>u. d @ u) us))"
    using assms(1) by (intro splitOn_step) simp_all
  with Cons.IH [of u] Cons.prems show ?case by simp
qed

definition delimiter :: "str \<Rightarrow> str" where
  "delimiter b = crlf @ ''--'' @ b"

lemma writeParts_delimited:
  "(if first then crlf else []) @ writeParts b first ts = concat (map (\<lambda>u. delimiter b @ u) (map (\<lambda>t. crlf @ t) ts @ [''--'' @ crlf]))
    \<or> first \<and> ts = []"
proof (induction ts arbitrary: first)
  case (Cons t ts)
  show ?case using Cons.IH [of False] by (auto simp: delimiter_def)
qed (auto simp: delimiter_def)

lemma validBoundary_no_cr: "validBoundary b \<Longrightarrow> chr 13 \<notin> set b"
proof
  assume v: "validBoundary b" and "chr 13 \<in> set b"
  then obtain i where i: "i < length b" "b ! i = chr 13" by (auto simp: in_set_conv_nth)
  then have "boundaryChar (length b) (i, chr 13)" using v by (auto simp: validBoundary_def list_all_length)
  moreover have "chr 13 \<notin> set (chr 39 # ''()+_,-./:=?'')" and "chr 13 \<noteq> CHR '' ''" by code_simp+
  ultimately show False by (simp add: boundaryChar_def)
qed

text \<open>C37. A multipart body can be taken apart again: splitting at the boundary's delimiter line yields, between an empty
  preamble and the closing mark, exactly the parts that were written, in order, provided the delimiter occurs inside
  none of them.
\<close>

theorem multipart_parts_recoverable:
  assumes "formBody typeByExt fresh readFile boundary escape parts = Inr (body, ct)" and "boundary \<noteq> []" and "parts \<noteq> []"
    and "collect (map (formContent readFile) parts) = Inr contents"
    and "list_all (\<lambda>t. Index (crlf @ t) (delimiter boundary) = None) (map (partBytes typeByExt escape) (zip parts contents))"
  shows "splitOn (delimiter boundary) (crlf @ body) =
     [] # map (\<lambda>t. crlf @ t) (map (partBytes typeByExt escape) (zip parts contents)) @ [''--'' @ crlf]"
proof -
  let ?ts = "map (partBytes typeByExt escape) (zip parts contents)"
  have v: "validBoundary boundary" and body: "body = writeParts boundary True ?ts"
    using assms(1,2,4) by (auto simp: formBody_def Let_def split: if_splits)
  have d: "delimiter boundary = chr 13 # (chr 10 # ''--'' @ boundary)" by (simp add: delimiter_def crlf_def)
  have c: "chr 13 \<notin> set (chr 10 # ''--'' @ boundary)"
  proof -
    have "chr 13 \<notin> set (chr 10 # ''--'')" by code_simp
    with validBoundary_no_cr [OF v] show ?thesis by simp
  qed
  have "length contents = length parts" using assms(4) by (metis collect_InrD length_map)
  then have "crlf @ body = concat (map (\<lambda>u. delimiter boundary @ u) (map (\<lambda>t. crlf @ t) ?ts @ [''--'' @ crlf]))"
    using writeParts_delimited [of True boundary ?ts] assms(3) body by (cases parts; cases contents) auto
  moreover have "list_all (\<lambda>t. Index t (delimiter boundary) = None) ([] # map (\<lambda>t. crlf @ t) ?ts @ [''--'' @ crlf])"
  proof -
    have "Index (''--'' @ crlf) (delimiter boundary) = None" unfolding d by code_simp
    moreover have "Index [] (delimiter boundary) = None" unfolding d by simp
    ultimately show ?thesis using assms(5) by (simp add: list_all_iff)
  qed
  ultimately show ?thesis using splitOn_join [OF d c, of "[]" "map (\<lambda>t. crlf @ t) ?ts @ [''--'' @ crlf]"] by simp
qed

definition demo_parts :: "formPart list" where
  "demo_parts = [\<lparr>fName = ''a'', fkind = formLiteral, fValue = ''1'', fFileName = [], fType = []\<rparr>]"

definition demo_part :: str where
  "demo_part = partBytes (\<lambda>_. []) False (hd demo_parts, ''1'')"

theorem multipart_parts_recoverable_witness:
  "\<exists>body ct. formBody (\<lambda>_. []) [] (\<lambda>_. None) ''B'' False demo_parts = Inr (body, ct) \<and>
     splitOn (delimiter ''B'') (crlf @ body) = [[], crlf @ demo_part, ''--'' @ crlf]"
proof -
  have v: "validBoundary ''B''" by code_simp
  have c: "collect (map (formContent (\<lambda>_. None)) demo_parts) = Inr [''1'']" by code_simp
  have z: "map (partBytes (\<lambda>_. []) False) (zip demo_parts [''1'']) = [demo_part]"
    by (simp add: demo_part_def demo_parts_def)
  have f: "formBody (\<lambda>_. []) [] (\<lambda>_. None) ''B'' False demo_parts = Inr (writeParts ''B'' True [demo_part], FormDataContentType ''B'')"
    using v c z by (simp add: formBody_def)
  have n: "Index (crlf @ demo_part) (delimiter ''B'') = None" by code_simp
  have "demo_parts \<noteq> []" by (simp add: demo_parts_def)
  from multipart_parts_recoverable [OF f _ this c] n z
  have "splitOn (delimiter ''B'') (crlf @ writeParts ''B'' True [demo_part]) = [[], crlf @ demo_part, ''--'' @ crlf]" by simp
  with f show ?thesis by blast
qed

end
