(* ===== verification/Padding.thy ===== *)
theory Padding
  imports RequestBody
begin

text \<open>
  Synthetic request padding (\<open>tth2/padding.go\<close>): query parameters, headers and body fields put in front of the real
  ones. A request carries the parts padding reads and writes; its header map has canonical keys. What a call to
  \<open>GetBody\<close> and reading its result yields is a field. The media type parser of the \<open>mime\<close> package is the argument
  \<open>parseMediaType\<close>, from a header value to a type and its parameters.
\<close>

record RequestPadding =
  URLParams :: int
  padHeaders :: int
  BodyParams :: int

datatype getBodyResult = BodyError | BodyNil | BodyReadError | BodyBytes str

record padReq =
  RawQuery :: str
  hdr :: "str \<rightharpoonup> str list"
  bodySet :: bool
  GetBody :: "getBodyResult option"
  ContentLength :: int

datatype padErr =
    PadNegative str
  | PadTooMany nat nat
  | PadAt nat padErr
  | OneShotBody nat
  | PadNoContentType
  | PadUnsupported str
  | PadNoGetBody
  | PadGetBody
  | PadNilBody
  | PadRead
  | PadJSONEmpty
  | PadJSONArray
  | PadJSONNotObject char
  | PadNoBoundary
  | PadNoFirstPart str

definition isZero :: "RequestPadding \<Rightarrow> bool" where
  "isZero p \<longleftrightarrow> URLParams p = 0 \<and> padHeaders p = 0 \<and> BodyParams p = 0"

definition validatePad :: "RequestPadding \<Rightarrow> padErr option" where
  "validatePad p = (if URLParams p < 0 then Some (PadNegative ''URLParams'')
     else if padHeaders p < 0 then Some (PadNegative ''Headers'')
     else if BodyParams p < 0 then Some (PadNegative ''BodyParams'') else None)"

fun validateFrom :: "nat \<Rightarrow> RequestPadding list \<Rightarrow> padErr option" where
  "validateFrom i [] = None"
| "validateFrom i (p # ps) = (case validatePad p of Some e \<Rightarrow> Some (PadAt i e) | None \<Rightarrow> validateFrom (i + 1) ps)"

definition validatePadding :: "padReq list \<Rightarrow> RequestPadding list \<Rightarrow> padErr option" where
  "validatePadding reqs pads = (if length reqs < length pads then Some (PadTooMany (length pads) (length reqs)) else validateFrom 0 pads)"

fun requireFrom :: "nat \<Rightarrow> padReq list \<Rightarrow> padErr option" where
  "requireFrom i [] = None"
| "requireFrom i (r # rs) = (if bodySet r \<and> GetBody r = None then Some (OneShotBody i) else requireFrom (i + 1) rs)"

definition requireReusableBodies :: "padReq list \<Rightarrow> padErr option" where
  "requireReusableBodies reqs = requireFrom 0 reqs"

text \<open>The synthetic query and form parameters, joined by ampersands.\<close>

definition padParam :: "nat \<Rightarrow> str" where
  "padParam i = ''_pad'' @ natDigits (i + 1) @ ''=x''"

definition padParams :: "nat \<Rightarrow> str" where
  "padParams n = Join (map padParam [0..<n]) ''&''"

definition readBodyBytes :: "padReq \<Rightarrow> padErr + str" where
  "readBodyBytes r = (case GetBody r of
       None \<Rightarrow> Inl PadNoGetBody
     | Some BodyError \<Rightarrow> Inl PadGetBody
     | Some BodyNil \<Rightarrow> Inl PadNilBody
     | Some BodyReadError \<Rightarrow> Inl PadRead
     | Some (BodyBytes b) \<Rightarrow> Inr b)"

definition setBody :: "str \<Rightarrow> padReq \<Rightarrow> padReq" where
  "setBody b r = r\<lparr>ContentLength := int (length b), bodySet := True, GetBody := Some (BodyBytes b)\<rparr>"

definition jsonSpace :: "char \<Rightarrow> bool" where
  "jsonSpace c \<longleftrightarrow> c = CHR '' '' \<or> code c = 9 \<or> code c = 13 \<or> code c = 10"

definition jsonPads :: "nat \<Rightarrow> str" where
  "jsonPads n = Join (map (\<lambda>i. [chr 34] @ ''_pad'' @ natDigits (i + 1) @ [chr 34] @ '':'' @ [chr 34] @ ''x'' @ [chr 34]) [0..<n]) '',''"

definition padJSONBody :: "nat \<Rightarrow> padReq \<Rightarrow> padErr + padReq" where
  "padJSONBody n r = (case readBodyBytes r of Inl e \<Rightarrow> Inl e | Inr b \<Rightarrow>
     (case dropWhile jsonSpace b of
        [] \<Rightarrow> Inl PadJSONEmpty
      | c # rest \<Rightarrow>
          if c \<noteq> CHR ''{'' then Inl (if c = CHR ''['' then PadJSONArray else PadJSONNotObject c)
          else let trimmed = TrimSpace rest in
            if trimmed \<noteq> [] \<and> trimmed ! 0 = CHR ''}'' then Inr (setBody (''{'' @ jsonPads n @ ''}'') r)
            else Inr (setBody (''{'' @ jsonPads n @ '','' @ rest) r)))"

definition padFormBody :: "nat \<Rightarrow> padReq \<Rightarrow> padErr + padReq" where
  "padFormBody n r = (case readBodyBytes r of Inl e \<Rightarrow> Inl e
     | Inr b \<Rightarrow> Inr (setBody (padParams n @ (if b \<noteq> [] then ''&'' else []) @ b) r))"

definition padPart :: "str \<Rightarrow> nat \<Rightarrow> str" where
  "padPart boundary i = ''--'' @ boundary @ [chr 13, chr 10] @ ''Content-Disposition: form-data; name='' @ [chr 34] @ ''_pad'' @
     natDigits (i + 1) @ [chr 34, chr 13, chr 10, chr 13, chr 10] @ ''x'' @ [chr 13, chr 10]"

definition padMultipartBody :: "nat \<Rightarrow> str \<Rightarrow> padReq \<Rightarrow> padErr + padReq" where
  "padMultipartBody n boundary r =
     (if boundary = [] then Inl PadNoBoundary
      else case readBodyBytes r of Inl e \<Rightarrow> Inl e | Inr b \<Rightarrow>
        let marker = ''--'' @ boundary @ [chr 13, chr 10] in
        (case Index b marker of
           None \<Rightarrow> Inl (PadNoFirstPart marker)
         | Some idx \<Rightarrow> Inr (setBody (take idx b @ concat (map (padPart boundary) [0..<n]) @ drop idx b) r)))"

definition headerGet :: "padReq \<Rightarrow> str \<Rightarrow> str" where
  "headerGet r k = (case hdr r k of Some (v # _) \<Rightarrow> v | _ \<Rightarrow> [])"

definition padBody :: "(str \<Rightarrow> str \<times> (str \<rightharpoonup> str)) \<Rightarrow> nat \<Rightarrow> padReq \<Rightarrow> padErr + padReq" where
  "padBody parseMediaType n r =
     (let ct = headerGet r ''Content-Type'' in
      if ct = [] then Inl PadNoContentType
      else case parseMediaType ct of (mediaType, params) \<Rightarrow>
        if mediaType = ''application/json'' then padJSONBody n r
        else if mediaType = ''application/x-www-form-urlencoded'' then padFormBody n r
        else if mediaType = ''multipart/form-data'' then padMultipartBody n (case params ''boundary'' of Some b \<Rightarrow> b | None \<Rightarrow> []) r
        else Inl (PadUnsupported ct))"

definition padQuery :: "nat \<Rightarrow> str \<Rightarrow> str" where
  "padQuery n q = (if q = [] then padParams n else padParams n @ ''&'' @ q)"

definition padHeaderMap :: "nat \<Rightarrow> (str \<rightharpoonup> str list) \<Rightarrow> str \<rightharpoonup> str list" where
  "padHeaderMap n m = fold (\<lambda>i m. m(''X-Pad-'' @ natDigits (i + 1) \<mapsto> [''x''])) [0..<n] m"

definition padTarget :: "RequestPadding \<Rightarrow> padReq \<Rightarrow> padReq" where
  "padTarget pad orig =
     (let r = (if 0 < URLParams pad then orig\<lparr>RawQuery := padQuery (nat (URLParams pad)) (RawQuery orig)\<rparr> else orig) in
      if 0 < padHeaders pad then r\<lparr>hdr := padHeaderMap (nat (padHeaders pad)) (hdr r)\<rparr> else r)"

definition padRequest :: "(str \<Rightarrow> str \<times> (str \<rightharpoonup> str)) \<Rightarrow> padReq \<Rightarrow> RequestPadding \<Rightarrow> padErr + padReq" where
  "padRequest parseMediaType orig pad = (case validatePad pad of Some e \<Rightarrow> Inl e | None \<Rightarrow>
     if isZero pad then Inr orig
     else if 0 < BodyParams pad then padBody parseMediaType (nat (BodyParams pad)) (padTarget pad orig) else Inr (padTarget pad orig))"

fun applyFrom :: "(str \<Rightarrow> str \<times> (str \<rightharpoonup> str)) \<Rightarrow> nat \<Rightarrow> RequestPadding list \<Rightarrow> padReq list \<Rightarrow> padErr + padReq list" where
  "applyFrom pm i pads [] = Inr []"
| "applyFrom pm i pads (r # rs) =
     (if length pads \<le> i \<or> isZero (pads ! i) then map_sum id ((#) r) (applyFrom pm (i + 1) pads rs)
      else case padRequest pm r (pads ! i) of
        Inl e \<Rightarrow> Inl (PadAt i e)
      | Inr r' \<Rightarrow> map_sum id ((#) r') (applyFrom pm (i + 1) pads rs))"

definition applyPadding :: "(str \<Rightarrow> str \<times> (str \<rightharpoonup> str)) \<Rightarrow> padReq list \<Rightarrow> RequestPadding list \<Rightarrow> padErr + padReq list" where
  "applyPadding pm reqs pads = (if pads = [] then Inr reqs else applyFrom pm 0 pads reqs)"

subsection \<open>Padding goes in front and keeps what was there\<close>

lemma SplitChar_Join_more:
  "ps \<noteq> [] \<Longrightarrow> list_all (\<lambda>p. sep \<notin> set p) ps \<Longrightarrow> SplitChar sep (Join ps [sep] @ sep # s) = ps @ SplitChar sep s"
proof (induction ps "[sep]" rule: Join.induct)
  case (3 p t ts)
  then show ?case using SplitChar_append [of sep p "Join (t # ts) [sep] @ sep # s"] by simp
qed (simp_all add: SplitChar_append)

lemma natDigits_chars: "c \<in> set (natDigits n) \<Longrightarrow> 48 \<le> code c \<and> code c \<le> 57"
proof (induction n rule: natDigits.induct)
  case (1 n)
  then show ?case by (subst (asm) natDigits.simps) (auto split: if_splits)
qed

lemma padParam_no_amp: "CHR ''&'' \<notin> set (padParam i)"
  using natDigits_chars [of "CHR ''&''" "i + 1"] by (auto simp: padParam_def code_def)

lemma padParams_split:
  assumes "0 < n"
  shows "SplitChar (CHR ''&'') (padParams n) = map padParam [0..<n]"
    and "SplitChar (CHR ''&'') (padParams n @ CHR ''&'' # s) = map padParam [0..<n] @ SplitChar (CHR ''&'') s"
  using assms SplitChar_Join [of "map padParam [0..<n]" "CHR ''&''"] SplitChar_Join_more [of "map padParam [0..<n]" "CHR ''&''" s]
  by (auto simp: padParams_def list_all_iff padParam_no_amp)

definition padHeaderName :: "nat \<Rightarrow> str" where
  "padHeaderName i = ''X-Pad-'' @ natDigits (i + 1)"

lemma padHeaderMap_at: "padHeaderMap n m k = (if k \<in> padHeaderName ` {..<n} then Some [''x''] else m k)"
  by (induction n) (auto simp: padHeaderMap_def padHeaderName_def lessThan_Suc)

lemma headerGet_padded: "headerGet (r\<lparr>hdr := padHeaderMap n (hdr r)\<rparr>) ''Content-Type'' = headerGet r ''Content-Type''"
proof -
  have "''Content-Type'' \<notin> padHeaderName ` {..<n}" by (auto simp: padHeaderName_def)
  then show ?thesis by (simp add: headerGet_def padHeaderMap_at)
qed

lemma padBody_keeps: "padBody pm n r = Inr r' \<Longrightarrow> RawQuery r' = RawQuery r \<and> hdr r' = hdr r"
  by (auto simp: padBody_def padJSONBody_def padFormBody_def padMultipartBody_def setBody_def Let_def
      split: if_splits prod.splits sum.splits option.splits list.splits)

text \<open>Padding is prepended and nothing real is lost: the parameters of a padded query are the synthetic ones in order
  followed by the original ones, every synthetic header is present and every other header is unchanged, and an
  unpadded body is untouched.\<close>

theorem padding_prepends:
  assumes "padRequest pm orig pad = Inr r"
  shows "SplitChar (CHR ''&'') (RawQuery r) = map padParam [0..<nat (URLParams pad)] @
      (if 0 < URLParams pad \<and> RawQuery orig = [] then [] else SplitChar (CHR ''&'') (RawQuery orig)) \<and>
    (\<forall>k. hdr r k = (if k \<in> padHeaderName ` {..<nat (padHeaders pad)} then Some [''x''] else hdr orig k)) \<and>
    (if BodyParams pad = 0 then GetBody r = GetBody orig else 0 < BodyParams pad)"
proof -
  let ?r = "padTarget pad orig"
  have pos: "0 \<le> URLParams pad" "0 \<le> padHeaders pad" "0 \<le> BodyParams pad"
    using assms by (auto simp: padRequest_def validatePad_def split: if_splits)
  have "GetBody ?r = GetBody orig" by (simp add: padTarget_def Let_def)
  then have keep: "RawQuery r = RawQuery ?r \<and> hdr r = hdr ?r \<and> (BodyParams pad = 0 \<longrightarrow> GetBody r = GetBody orig)"
    using assms padBody_keeps [of pm "nat (BodyParams pad)" ?r r]
    by (auto simp: padRequest_def isZero_def padTarget_def Let_def split: option.splits if_splits)
  have "SplitChar (CHR ''&'') (RawQuery ?r) = map padParam [0..<nat (URLParams pad)] @
      (if 0 < URLParams pad \<and> RawQuery orig = [] then [] else SplitChar (CHR ''&'') (RawQuery orig))"
    using padParams_split [of "nat (URLParams pad)"] pos by (simp add: padQuery_def padTarget_def Let_def)
  moreover have "hdr ?r k = (if k \<in> padHeaderName ` {..<nat (padHeaders pad)} then Some [''x''] else hdr orig k)" for k
    using padHeaderMap_at [of "nat (padHeaders pad)" "hdr orig" k] pos by (simp add: padTarget_def Let_def)
  ultimately show ?thesis using keep pos by auto
qed

theorem padding_prepends_witness:
  "padRequest (\<lambda>_. ([], \<lambda>_. None)) \<lparr>RawQuery = ''q'', hdr = (\<lambda>_. None), bodySet = False, GetBody = None, ContentLength = 0\<rparr>
      \<lparr>URLParams = 2, padHeaders = 0, BodyParams = 0\<rparr> =
     Inr \<lparr>RawQuery = ''_pad1=x&_pad2=x&q'', hdr = (\<lambda>_. None), bodySet = False, GetBody = None, ContentLength = 0\<rparr> \<and>
   SplitChar (CHR ''&'') ''_pad1=x&_pad2=x&q'' = map padParam [0, 1] @ [''q'']"
proof -
  have j: "padParams 2 = ''_pad1=x&_pad2=x''" by code_simp
  have p: "padRequest (\<lambda>_. ([], \<lambda>_. None)) \<lparr>RawQuery = ''q'', hdr = (\<lambda>_. None), bodySet = False, GetBody = None, ContentLength = 0\<rparr>
      \<lparr>URLParams = 2, padHeaders = 0, BodyParams = 0\<rparr> =
     Inr \<lparr>RawQuery = ''_pad1=x&_pad2=x&q'', hdr = (\<lambda>_. None), bodySet = False, GetBody = None, ContentLength = 0\<rparr>"
    by (simp add: padRequest_def validatePad_def isZero_def padQuery_def padTarget_def j)
  from padding_prepends [OF p] have "SplitChar (CHR ''&'') ''_pad1=x&_pad2=x&q'' = map padParam [0..<2] @ SplitChar (CHR ''&'') ''q''" by simp
  with p show ?thesis by (simp add: upt_rec)
qed

subsection \<open>Padding a multipart form\<close>

text \<open>The synthetic parts are literal form fields: padding an encoded form is encoding the form with them in front.\<close>

definition padField :: "nat \<Rightarrow> formPart" where
  "padField i = \<lparr>fName = ''_pad'' @ natDigits (i + 1), fkind = formLiteral, fValue = ''x'', fFileName = [], fType = []\<rparr>"

definition padText :: "nat \<Rightarrow> str" where
  "padText i = ''Content-Disposition: form-data; name='' @ [chr 34] @ ''_pad'' @ natDigits (i + 1) @ [chr 34] @ crlf @ crlf @ ''x''"

lemma writeParts_padded:
  "ts \<noteq> [] \<Longrightarrow> concat (map (padPart b) is) @ writeParts b True ts = writeParts b True (map padText is @ ts)"
proof (induction "is")
  case (Cons i "is")
  have ne: "map padText is @ ts \<noteq> []" using Cons.prems by simp
  have first: "writeParts b False us = crlf @ writeParts b True us" if "us \<noteq> []" for us
    using that by (cases us) simp_all
  have "padPart b i @ us = ''--'' @ b @ crlf @ padText i @ crlf @ us" for us
    by (simp add: padPart_def padText_def crlf_def)
  with Cons.IH [OF Cons.prems] first [OF ne] show ?case by simp
qed simp

lemma escape_padField: "formEscapeName (''_pad'' @ natDigits n) escape = ''_pad'' @ natDigits n"
proof -
  have "c \<noteq> chr 92 \<and> c \<noteq> chr 34 \<and> c \<noteq> chr 13 \<and> c \<noteq> chr 10" if "c \<in> set (''_pad'' @ natDigits n)" for c
  proof (cases "c \<in> set (natDigits n)")
    case True
    then have "48 \<le> code c" "code c \<le> 57" using natDigits_chars by auto
    moreover have "code (chr 92) = 92" "code (chr 34) = 34" "code (chr 13) = 13" "code (chr 10) = 10" by simp_all
    ultimately show ?thesis by auto
  next
    case False
    then have "c \<in> set ''_pad''" using that by simp
    moreover have "\<forall>c \<in> set ''_pad''. c \<noteq> chr 92 \<and> c \<noteq> chr 34 \<and> c \<noteq> chr 13 \<and> c \<noteq> chr 10" by code_simp
    ultimately show ?thesis by blast
  qed
  then have "\<not> Contains (''_pad'' @ natDigits n) [d]" if "d \<in> {chr 92, chr 34, chr 13, chr 10}" for d
    using that IndexByte_None [of "''_pad'' @ natDigits n" d] by (auto simp: Contains_def IndexByte_def)
  then have "list_all (\<lambda>r. \<not> Contains (''_pad'' @ natDigits n) (fst r)) [([chr 92], [chr 92, chr 92]), ([chr 34], [chr 92, chr 34])]"
    "list_all (\<lambda>r. \<not> Contains (''_pad'' @ natDigits n) (fst r)) [([chr 34], ''%22''), ([chr 13], ''%0D''), ([chr 10], ''%0A'')]"
    by simp_all
  from this [THEN Replace_absent] show ?thesis by (simp only: formEscapeName_def if_cancel)
qed

lemma partBytes_padField: "partBytes te escape (padField i, ''x'') = padText i"
  using escape_padField [of "i + 1" escape]
  by (simp add: partBytes_def partHeader_def padField_def padText_def contentType_def Let_def)

lemma collect_append: "collect xs = Inr as \<Longrightarrow> collect ys = Inr bs \<Longrightarrow> collect (xs @ ys) = Inr (as @ bs)"
  by (induction xs arbitrary: as rule: collect.induct) (auto simp: map_sum_def split: sum.splits)

lemma collect_padFields: "collect (map (formContent rf) (map padField is)) = Inr (map (\<lambda>_. ''x'') is)"
  by (induction "is") (simp_all add: formContent_def formFileRef_def padField_def)

text \<open>C23. Padding an encoded multipart form yields exactly the encoding of the form with the synthetic fields in front, so the
  padded body is a well-formed form with the same boundary whose real parts are unchanged.\<close>

theorem padded_form_is_a_form:
  assumes "formBody te fresh rf boundary escape parts = Inr (body, ct)" and "boundary \<noteq> []" and "parts \<noteq> []"
    and "GetBody r = Some (BodyBytes body)"
  shows "\<exists>r' body'. padMultipartBody n boundary r = Inr r' \<and> GetBody r' = Some (BodyBytes body') \<and> ContentLength r' = int (length body') \<and>
    formBody te fresh rf boundary escape (map padField [0..<n] @ parts) = Inr (body', ct)"
proof -
  obtain contents where v: "validBoundary boundary" and c: "collect (map (formContent rf) parts) = Inr contents"
    and body: "body = writeParts boundary True (map (partBytes te escape) (zip parts contents))" and ct: "ct = FormDataContentType boundary"
    using assms(1,2) by (auto simp: formBody_def Let_def split: if_splits sum.splits)
  let ?ts = "map (partBytes te escape) (zip parts contents)"
  have "length contents = length parts" using c by (metis collect_InrD length_map)
  then have ne: "?ts \<noteq> []" using assms(3) by (cases parts; cases contents) auto
  then obtain t ts where "?ts = t # ts" by (cases ?ts) auto
  then have idx: "Index body (''--'' @ boundary @ [chr 13, chr 10]) = Some 0"
    using HasPrefix_append [of "''--'' @ boundary @ [chr 13, chr 10]"] by (simp add: body crlf_def)
  let ?new = "concat (map (padPart boundary) [0..<n]) @ body"
  have pads: "map (partBytes te escape) (zip (map padField [0..<n]) (map (\<lambda>_. ''x'') [0..<n])) = map padText [0..<n]"
    by (simp add: zip_map1 zip_map2 zip_same_conv_map comp_def partBytes_padField)
  have "collect (map (formContent rf) (map padField [0..<n] @ parts)) = Inr (map (\<lambda>_. ''x'') [0..<n] @ contents)"
    unfolding map_append by (rule collect_append [OF collect_padFields c])
  then have "formBody te fresh rf boundary escape (map padField [0..<n] @ parts) =
      Inr (writeParts boundary True (map padText [0..<n] @ ?ts), ct)"
    using v assms(2) pads ct by (simp add: formBody_def zip_append)
  then have f: "formBody te fresh rf boundary escape (map padField [0..<n] @ parts) = Inr (?new, ct)"
    by (simp add: body writeParts_padded [OF ne])
  have "padMultipartBody n boundary r = Inr (setBody ?new r)"
    using assms(2,4) idx by (simp add: padMultipartBody_def readBodyBytes_def)
  with f show ?thesis by (auto simp: setBody_def)
qed

theorem padded_form_is_a_form_witness:
  "\<exists>body. formBody (\<lambda>_. []) [] (\<lambda>_. None) ''B'' False demo_parts = Inr (body, FormDataContentType ''B'') \<and>
    (\<exists>body'. formBody (\<lambda>_. []) [] (\<lambda>_. None) ''B'' False (padField 0 # demo_parts) = Inr (body', FormDataContentType ''B'') \<and>
      map_sum id GetBody (padMultipartBody 1 ''B'' \<lparr>RawQuery = [], hdr = (\<lambda>_. None), bodySet = True, GetBody = Some (BodyBytes body), ContentLength = 0\<rparr>) =
        Inr (Some (BodyBytes body')))"
proof -
  have v: "validBoundary ''B''" by code_simp
  have c: "collect (map (formContent (\<lambda>_. None)) demo_parts) = Inr [''1'']" by code_simp
  obtain body where f: "formBody (\<lambda>_. []) [] (\<lambda>_. None) ''B'' False demo_parts = Inr (body, FormDataContentType ''B'')"
    using v c by (simp add: formBody_def Let_def)
  have ne: "demo_parts \<noteq> []" by (simp add: demo_parts_def)
  from padded_form_is_a_form [OF f _ ne, of "\<lparr>RawQuery = [], hdr = (\<lambda>_. None), bodySet = True, GetBody = Some (BodyBytes body), ContentLength = 0\<rparr>" 1]
  show ?thesis using f by force
qed

end
