(* ===== verification/Comparator.thy ===== *)
theory Comparator
  imports Prelude "HOL-Library.Word"
begin

text \<open>
  The comparison channel every solver goes through (\<open>internal/ranking/comparator.go\<close>): item identifiers that pack a
  control's kind and index into one signed 64-bit number, the checks an arrangement must pass, and the validation of
  the ranks a channel returns, done with a bit mask up to width 64 and a table beyond. What waiting for admission and
  for the two rate limiters yields, and the channel itself, are arguments. A panic is \<open>None\<close>.
\<close>

unbundle bit_operations_syntax

type_synonym ItemID = "64 word"

record ControlSupply =
  bound :: int
  unbounded :: bool

definition BoundedControls :: "int \<Rightarrow> ControlSupply" where
  "BoundedControls n = \<lparr>bound = (if 0 < n then n else 0), unbounded = False\<rparr>"

definition UnboundedControls :: ControlSupply where
  "UnboundedControls = \<lparr>bound = 0, unbounded = True\<rparr>"

definition UpTo :: "ControlSupply \<Rightarrow> int \<Rightarrow> int" where
  "UpTo s want = (if want \<le> 0 then 0 else if unbounded s then want else if bound s < want then bound s else want)"

definition Control :: "nat \<Rightarrow> int \<Rightarrow> ItemID option" where
  "Control kind index =
     (if 16 \<le> kind then None
      else if index < 0 \<or> (2 ^ 63 - 1) div 16 < index then None
      else Some (- (push_bit 4 (word_of_int index) OR word_of_nat kind) - 1))"

definition IsControl :: "ItemID \<Rightarrow> bool" where "IsControl c \<longleftrightarrow> sint c < 0"
definition IsCandidate :: "ItemID \<Rightarrow> bool" where "IsCandidate c \<longleftrightarrow> 0 \<le> sint c"

definition ControlKind :: "ItemID \<Rightarrow> nat" where
  "ControlKind c = unat ((- c - 1) AND 15)"

definition ControlIndex :: "ItemID \<Rightarrow> int" where
  "ControlIndex c = uint (drop_bit 4 (- c - 1))"

record Profile =
  MaxWidth :: int
  MaxConcurrency :: int
  ratesFinite :: bool
  Controls :: "(nat \<times> ControlSupply) list"

datatype compareErr =
    NilCompare
  | BadWidth int
  | BadConcurrency int
  | BadRate
  | WidthOutside int int
  | Duplicate ItemID nat
  | NotSupplied nat int nat
  | NoCandidate
  | ContextErr
  | ChannelErr
  | NotPermutation int

text \<open>Of the two floating-point rate limits the field \<open>ratesFinite\<close> says whether both are finite and non-negative.\<close>

definition validateComparatorProfile :: "Profile \<Rightarrow> bool \<Rightarrow> compareErr option" where
  "validateComparatorProfile p hasCompare =
     (if \<not> hasCompare then Some NilCompare
      else if MaxWidth p < 2 then Some (BadWidth (MaxWidth p))
      else if MaxConcurrency p < 0 then Some (BadConcurrency (MaxConcurrency p))
      else if \<not> ratesFinite p then Some BadRate else None)"

definition supplied :: "Profile \<Rightarrow> ItemID \<Rightarrow> bool" where
  "supplied p item = (case map_of (Controls p) (ControlKind item) of
       None \<Rightarrow> False
     | Some s \<Rightarrow> \<not> UpTo s (ControlIndex item + 1) \<le> ControlIndex item)"

fun checkItems :: "Profile \<Rightarrow> nat \<Rightarrow> ItemID list \<Rightarrow> bool \<Rightarrow> ItemID list \<Rightarrow> compareErr option" where
  "checkItems p pos seen hasCandidate [] = (if hasCandidate then None else Some NoCandidate)"
| "checkItems p pos seen hasCandidate (item # items) =
     (if item \<in> set seen then Some (Duplicate item pos)
      else if IsCandidate item then checkItems p (pos + 1) (item # seen) True items
      else if \<not> supplied p item then Some (NotSupplied (ControlKind item) (ControlIndex item) pos)
      else checkItems p (pos + 1) (item # seen) hasCandidate items)"

definition validateArrangement :: "Profile \<Rightarrow> bool \<Rightarrow> ItemID list \<Rightarrow> compareErr option" where
  "validateArrangement p hasCompare items = (case validateComparatorProfile p hasCompare of
       Some e \<Rightarrow> Some e
     | None \<Rightarrow>
         let w = int (length items) in
         if w < 2 \<or> MaxWidth p < w then Some (WidthOutside w (MaxWidth p)) else checkItems p 0 [] False items)"

fun maskLoop :: "int \<Rightarrow> int list \<Rightarrow> 64 word \<Rightarrow> bool" where
  "maskLoop n [] seen \<longleftrightarrow> True"
| "maskLoop n (r # rs) seen =
     (if r < 0 \<or> n \<le> r then False
      else if seen AND push_bit (nat r) 1 \<noteq> 0 then False
      else maskLoop n rs (seen OR push_bit (nat r) 1))"

fun tableLoop :: "int \<Rightarrow> int list \<Rightarrow> bool list \<Rightarrow> bool" where
  "tableLoop n [] seen \<longleftrightarrow> True"
| "tableLoop n (r # rs) seen = (if r < 0 \<or> n \<le> r \<or> seen ! nat r then False else tableLoop n rs (seen[nat r := True]))"

definition isRankPermutation :: "int list \<Rightarrow> nat \<Rightarrow> bool" where
  "isRankPermutation ranks n =
     (if length ranks \<noteq> n then False
      else if n \<le> 64 then maskLoop (int n) ranks 0
      else tableLoop (int n) ranks (replicate n False))"

text \<open>One comparison: validation, admission, the two limiters, the channel, and its postcondition.\<close>

definition compareAt :: "Profile \<Rightarrow> bool \<Rightarrow> bool \<Rightarrow> bool \<Rightarrow> bool \<Rightarrow> (ItemID list \<Rightarrow> int list option) \<Rightarrow> ItemID list \<Rightarrow> compareErr + int list" where
  "compareAt p hasCompare admitted participationsOk comparisonsOk channel items =
     (case validateArrangement p hasCompare items of
        Some e \<Rightarrow> Inl e
      | None \<Rightarrow>
          if \<not> admitted \<or> \<not> participationsOk \<or> \<not> comparisonsOk then Inl ContextErr
          else case channel items of
            None \<Rightarrow> Inl ChannelErr
          | Some ranks \<Rightarrow> if \<not> isRankPermutation ranks (length items) then Inl (NotPermutation (int (length items))) else Inr ranks)"

subsection \<open>Control identifiers\<close>

definition payload :: "nat \<Rightarrow> int \<Rightarrow> 64 word" where
  "payload kind index = push_bit 4 (word_of_int index) OR word_of_nat kind"

lemma pack_int:
  assumes "0 \<le> k" and "k < 16"
  shows "push_bit 4 i OR k = i * 16 + (k :: int)"
proof -
  have "\<not> bit k n" if "4 \<le> n" for n
  proof -
    have "take_bit 4 k = k" using assms by (simp add: take_bit_int_eq_self)
    then show ?thesis using that by (metis bit_take_bit_iff not_le)
  qed
  then have "push_bit 4 i AND k = 0" by (intro bit_eqI) (auto simp: bit_and_iff bit_push_bit_iff_int)
  then have "push_bit 4 i OR k = push_bit 4 i + k" by (simp add: disjunctive_add_eq_or)
  then show ?thesis by (simp add: push_bit_eq_mult)
qed

lemma uint_payload:
  assumes "kind < 16" and "0 \<le> index" and "index \<le> (2 ^ 63 - 1) div 16"
  shows "uint (payload kind index) = index * 16 + int kind"
proof -
  have i: "take_bit 60 index = index" using assms by (simp add: take_bit_int_eq_self)
  have k: "take_bit 64 kind = kind" using assms by (simp add: take_bit_nat_eq_self)
  have "take_bit 64 (push_bit 4 index) = push_bit 4 index" using i by (simp add: take_bit_push_bit)
  then have "uint (payload kind index) = push_bit 4 index OR int kind"
    using k by (simp add: payload_def unsigned_or_eq unsigned_push_bit_eq unsigned_of_int unsigned_of_nat push_bit_take_bit)
  then show ?thesis using pack_int [of "int kind" index] assms(1) by simp
qed

lemma payload_parts:
  assumes "kind < 16" and "0 \<le> index" and "index \<le> (2 ^ 63 - 1) div 16"
  shows "unat (payload kind index AND 15) = kind" and "uint (drop_bit 4 (payload kind index)) = index"
    and "uint (payload kind index) < 2 ^ 63"
proof -
  note u = uint_payload [OF assms]
  have "uint (payload kind index AND 15) = uint (payload kind index) AND 15" by (simp add: unsigned_and_eq)
  also have "\<dots> = uint (payload kind index) mod 16"
    using take_bit_eq_mask [of 4 "uint (payload kind index)"] by (simp add: take_bit_eq_mod mask_eq_exp_minus_1)
  finally have "uint (payload kind index AND 15) = int kind" using u assms(1) by simp
  then show "unat (payload kind index AND 15) = kind" by (metis nat_int nat_uint_eq)
  show "uint (drop_bit 4 (payload kind index)) = index"
    using assms(1) by (simp add: drop_bit_eq_div uint_div_distrib u)
  have "index \<le> 576460752303423487" using assms(3) by simp
  then show "uint (payload kind index) < 2 ^ 63" using u assms(1) by simp
qed

lemma sint_complement:
  assumes "uint (x :: 64 word) < 2 ^ 63"
  shows "sint (- x - 1) < 0"
proof -
  have "\<not> bit (uint x) 63" using assms by (simp add: bit_iff_odd_drop_bit drop_bit_eq_div)
  then have "bit (NOT x) 63" by (simp add: bit_not_iff bit_uint_iff)
  moreover have "- x - 1 = NOT x" by (simp add: not_eq_complement)
  ultimately show ?thesis using bit_last_iff [of "NOT x"] by simp
qed

text \<open>C25. A control identifier is a negative number that gives back exactly the kind and the index it was built from, for
  every kind and index it can represent, so distinct controls have distinct identifiers and none is a candidate.\<close>

theorem control_id_roundtrip:
  assumes "Control kind index = Some c"
  shows "ControlKind c = kind \<and> ControlIndex c = index \<and> IsControl c \<and> \<not> IsCandidate c"
proof -
  have b: "kind < 16" "0 \<le> index" "index \<le> (2 ^ 63 - 1) div 16" and c: "c = - payload kind index - 1"
    using assms by (auto simp: Control_def payload_def split: if_splits)
  have "- c - 1 = payload kind index" by (simp add: c)
  then show ?thesis
    using payload_parts [OF b] sint_complement [of "payload kind index"] c
    by (simp add: ControlKind_def ControlIndex_def IsControl_def IsCandidate_def)
qed

theorem control_id_roundtrip_witness: "Control 1 5 = Some (word_of_int (- 82)) \<and> ControlKind (word_of_int (- 82)) = 1"
proof -
  have c: "Control 1 5 = Some (word_of_int (- 82))" by (simp add: Control_def)
  from c control_id_roundtrip [OF c] show ?thesis by simp
qed

subsection \<open>Rank permutations\<close>

lemma mask_step:
  assumes "k < 64"
  shows "seen AND push_bit k 1 = (0 :: 64 word) \<longleftrightarrow> \<not> bit seen k"
    and "bit (seen OR push_bit k (1 :: 64 word)) j \<longleftrightarrow> bit seen j \<or> j = k"
  using assms by (auto simp: push_bit_of_1 and_exp_eq_0_iff_not_bit bit_or_iff bit_exp_iff)

lemma maskLoop_spec:
  "n \<le> 64 \<Longrightarrow> maskLoop n rs seen \<longleftrightarrow> (\<forall>r\<in>set rs. 0 \<le> r \<and> r < n \<and> \<not> bit seen (nat r)) \<and> distinct rs"
proof (induction rs arbitrary: seen)
  case (Cons r rs)
  show ?case
  proof (cases "r < 0 \<or> n \<le> r")
    case False
    then have k: "nat r < 64" and r: "0 \<le> r" "r < n" using Cons.prems by auto
    have "(nat q = nat r) = (q = r)" if "0 \<le> q" for q using that r by auto
    then show ?thesis
      using False Cons.IH [OF Cons.prems, of "seen OR push_bit (nat r) 1"] mask_step [OF k, of seen] r by auto
  qed auto
qed simp

lemma tableLoop_spec:
  "length seen = nat n \<Longrightarrow> tableLoop n rs seen \<longleftrightarrow> (\<forall>r\<in>set rs. 0 \<le> r \<and> r < n \<and> \<not> seen ! nat r) \<and> distinct rs"
proof (induction rs arbitrary: seen)
  case (Cons r rs)
  show ?case
  proof (cases "r < 0 \<or> n \<le> r")
    case False
    then have r: "0 \<le> r" "r < n" "nat r < length seen" using Cons.prems by auto
    have at: "seen[nat r := True] ! nat q = (seen ! nat q \<or> q = r)" if "0 \<le> q" "q < n" for q
      using that r by (cases "q = r") (auto simp: nth_list_update)
    have "tableLoop n rs (seen[nat r := True]) \<longleftrightarrow> (\<forall>q\<in>set rs. 0 \<le> q \<and> q < n \<and> \<not> (seen ! nat q \<or> q = r)) \<and> distinct rs"
      using Cons.IH [of "seen[nat r := True]"] Cons.prems at by auto
    then show ?thesis using False r by auto
  qed auto
qed simp

lemma isRankPermutation_distinct:
  "isRankPermutation ranks n \<longleftrightarrow> length ranks = n \<and> distinct ranks \<and> (\<forall>r\<in>set ranks. 0 \<le> r \<and> r < int n)"
  using maskLoop_spec [of "int n" ranks 0] tableLoop_spec [of "replicate n False" "int n" ranks]
  by (auto simp: isRankPermutation_def nat_less_iff)

lemma isRankPermutation_mset: "isRankPermutation ranks n \<longleftrightarrow> mset ranks = mset (map int [0..<n])"
proof
  assume "isRankPermutation ranks n"
  then have l: "length ranks = n" and d: "distinct ranks" and r: "set ranks \<subseteq> int ` {0..<n}"
    by (auto simp: isRankPermutation_distinct image_iff) (metis atLeastLessThan_iff le0 nat_less_iff int_nat_eq)
  have "set ranks = int ` {0..<n}"
    by (rule card_subset_eq) (use l d r in \<open>auto simp: card_image distinct_card\<close>)
  then show "mset ranks = mset (map int [0..<n])"
    using d by (intro set_eq_iff_mset_eq_distinct [THEN iffD1]) (auto simp: distinct_map)
next
  assume m: "mset ranks = mset (map int [0..<n])"
  then have "length ranks = n" by (metis length_map length_upt minus_nat.diff_0 size_mset)
  moreover have "distinct ranks" using m by (metis distinct_map distinct_upt inj_on_of_nat mset_eq_imp_distinct_iff)
  moreover have "set ranks = int ` {0..<n}" using m by (metis mset_eq_setD set_map set_upt)
  ultimately show "isRankPermutation ranks n" by (auto simp: isRankPermutation_distinct)
qed

text \<open>C24. The rank check is exact: whichever of its two representations is used, it accepts a list of ranks precisely when
  the list is a permutation of 0 up to the width.\<close>

theorem rank_check_exact: "isRankPermutation ranks n \<longleftrightarrow> mset ranks = mset (map int [0..<n])"
  by (rule isRankPermutation_mset)

subsection \<open>Comparisons\<close>

lemma checkItems_spec:
  "checkItems p pos seen hc items = None \<Longrightarrow>
     distinct items \<and> set items \<inter> set seen = {} \<and> (\<forall>i\<in>set items. IsCandidate i \<or> supplied p i) \<and> (hc \<or> list_ex IsCandidate items)"
  by (induction p pos seen hc items rule: checkItems.induct) (auto split: if_splits)

text \<open>C26. A comparison that succeeds was a legal one: between two and the profile's width of distinct items, a candidate among
  them and every control within the profile's supply, and its ranks are a permutation of the positions.\<close>

theorem comparison_validated:
  assumes "compareAt p hasCompare admitted participationsOk comparisonsOk channel items = Inr ranks"
  shows "2 \<le> length items \<and> int (length items) \<le> MaxWidth p \<and> distinct items \<and> list_ex IsCandidate items \<and>
     list_all (\<lambda>i. IsCandidate i \<or> supplied p i) items \<and> channel items = Some ranks \<and> mset ranks = mset (map int [0..<length items])"
proof -
  have v: "validateArrangement p hasCompare items = None" and c: "channel items = Some ranks"
    and r: "isRankPermutation ranks (length items)"
    using assms by (auto simp: compareAt_def split: option.splits if_splits)
  from v have "checkItems p 0 [] False items = None" "2 \<le> int (length items)" "int (length items) \<le> MaxWidth p"
    by (auto simp: validateArrangement_def Let_def split: option.splits if_splits)
  with checkItems_spec [of p 0 "[]" False items] c r show ?thesis
    using isRankPermutation_mset [of ranks "length items"] by (auto simp: list_all_iff)
qed

definition demo_profile :: Profile where
  "demo_profile = \<lparr>MaxWidth = 2, MaxConcurrency = 1, ratesFinite = True, Controls = [(0, BoundedControls 1)]\<rparr>"

theorem comparison_validated_witness:
  "compareAt demo_profile True True True True (\<lambda>_. Some [1, 0]) [7, - 1] = Inr [1, 0] \<and> supplied demo_profile (- 1)"
proof -
  have c: "compareAt demo_profile True True True True (\<lambda>_. Some [1, 0]) [7, - 1] = Inr [1, 0]" by code_simp
  have "\<not> IsCandidate (- 1)" by (simp add: IsCandidate_def)
  with comparison_validated [OF c] c show ?thesis by simp
qed

end
