(* ===== verification/Spec2Isabelle.thy ===== *)
theory Spec2Isabelle
  imports BatchResult Arrangement TrialStream FlowControl Wire BodyPlan BodySend ResponseCollect Pool ConnUse Pacing
    Plan RequestBody Padding Comparator
begin

text \<open>
  Verification of tturl, a tool that measures timing differences between HTTP/2 requests: it releases a batch of
  requests at once on one connection and compares the order in which the responses arrive. Paths below are relative
  to \<open>src/\<close>.

  \<^bold>\<open>The program.\<close> A command line is split into blocks and every block is resolved into headers, cookies, a body and
  variations (\<open>internal/curlblocks\<close>). Expanding the plan gives labelled requests. The library \<open>tth2\<close> pads them, arranges
  them on streams, paces their start, takes a connection from the origin's pool, writes all headers in one TLS
  record, holds the last bytes of all bodies back and releases them in one record, collects the responses, ranks their
  arrival and tallies trials. Solvers in \<open>internal/ranking\<close> ask such a channel for comparisons of candidates and controls.

  \<^bold>\<open>Theories and what they model.\<close>

  \<^item> \<open>Prelude\<close> holds shared lemmas on lists, permutations and bounded integers, and the three locales that state the
    contract of a stateful component: \<open>event_steps\<close>, \<open>event_machine\<close> and \<open>transition_system\<close>. Every component with
    state interprets one of them on its own transitions and reaches its run-level properties through it.
    \<open>GoStrings\<close> models the parts of Go's \<open>strings\<close> and \<open>strconv\<close> the code uses, on byte strings.
  \<^item> \<open>BatchResult\<close> (\<open>tth2/result.go\<close>): ranks from arrival order. \<open>Arrangement\<close> (\<open>tth2/arrangement.go\<close>): which request goes on
    which stream position, fixed, rotated or shuffled. \<open>TrialStream\<close> (\<open>tth2/trialstream.go\<close>, \<open>trials.go\<close>): numbering and
    dispatch of trials over several workers, and the summary.
  \<^item> \<open>FlowControl\<close>, \<open>Wire\<close>, \<open>BodyPlan\<close>, \<open>BodySend\<close> (\<open>tth2/conn.go\<close>, \<open>writer.go\<close>): send credit, stream numbers, HEADERS and
    CONTINUATION framing into one record, the buffered writer with its 128 KB limit, control writes, planning records for bodies, and sending them with the last byte of every
    body withheld until one final record.
  \<^item> \<open>ResponseCollect\<close> (\<open>tth2/conn.go\<close>, \<open>result.go\<close>): projecting header blocks, accounting body bytes, gathering a batch. All
    collectors of a batch share one context; a cancellation by anyone else is an event, and the first cause wins.
  \<^item> \<open>Pool\<close>, \<open>ConnUse\<close> (\<open>tth2/transport.go\<close>, \<open>lease.go\<close>, \<open>connection_owner.go\<close>, \<open>ping.go\<close>): the connection limit and idle list
    of an origin under concurrent callers, the retry loop, and the lease state machine. A caller in \<open>ConnUse\<close> is never
    alone: its turns list what the others do to the pool between any two of its own steps (\<open>others\<close>), and
    \<open>pool_run_others\<close> shows that these actions cover every run of the transition system of \<open>Pool\<close>.
  \<^item> \<open>Pacing\<close> (\<open>tth2/pacing.go\<close>): the scheduler that spaces batch starts, driven by callers and turns of its loop.
  \<^item> \<open>Padding\<close> (\<open>tth2/padding.go\<close>): synthetic parameters, headers and body fields put before the real ones.
  \<^item> \<open>Encoding\<close>, \<open>VarySource\<close>, \<open>Naming\<close>, \<open>HeaderFold\<close>, \<open>Blocks\<close>, \<open>VaryFan\<close>, \<open>RequestBody\<close>, \<open>Plan\<close> (\<open>internal/curlblocks\<close>: \<open>varyencode.go\<close>,
    \<open>varysource.go\<close>, \<open>naming.go\<close>, \<open>header.go\<close> and \<open>cookie.go\<close>, \<open>segment.go\<close>, \<open>data.go\<close>, \<open>form.go\<close> and \<open>json.go\<close>, \<open>vary.go\<close>, \<open>body.go\<close> and
    \<open>request.go\<close>, \<open>plan.go\<close>): from the words of a command line to labelled requests and their bodies.
  \<^item> \<open>Comparator\<close> (\<open>internal/ranking/comparator.go\<close>): control identifiers, legal arrangements, rank permutations.

  \<^bold>\<open>How code corresponds to definitions.\<close> A struct is a record and an enumeration a datatype with the source's
  constructors; a function or method is a definition of the same name where Isabelle allows it. Errors are the left
  of a sum or an option; a panic, or a loop that would not end, is \<open>None\<close> of an outer option. Mutable state is
  passed explicitly. Code under a mutex is one atomic step; a function that releases its lock in between is split at
  that point and the parts interleave (\<open>Pool\<close>, \<open>TrialStream\<close>, \<open>Pacing\<close>). Integers are kept at their width where the code
  can overflow them: 32-bit windows in \<open>FlowControl\<close>, 64-bit ranges in \<open>VarySource\<close>, 64-bit words in \<open>Comparator\<close>.

  \<^bold>\<open>What the lemmas show.\<close> Release: all bodies of a batch are completed by one record, and every byte sent is a byte of
  the body in order; headers of a batch leave in one record and frames never mix; credit is never overspent. Identity:
  arrangements are permutations, ranks are exact, trial numbers are unique and every bounded run is dispatched whole.
  Connections: never more than the limit, never shared, never reused after being retired, each lease returned once; the
  retry loop ends unless others feed it connections without end or hold every slot. Pacing: starts keep their distance, and each admission is granted once and in order. Command line:
  headers follow an event-level specification, labels are unique and one per copy, the search for labels ends, fans
  are the product or zip of their values within the ceiling, encodings and multipart bodies can be undone, JSON merging
  is RFC 7386. Ranking: the two representations of the rank check are exact.

  \<^bold>\<open>Bounds and termination.\<close> Loops are structural recursions or have a measure. No definition takes fuel. The
  unbounded search \<open>pickAuto\<close> of \<open>Naming\<close> is a partial function proved to return. The loops of \<open>ConnUse\<close> that retry on
  stale connections are partial functions too, since other callers may keep them going; when \<open>sendBatch\<close> returns is
  proved.

  \<^bold>\<open>Arguments.\<close> What the network, the file system and the clock do is an argument or an event; so are \<open>strconv.Quote\<close>,
  \<open>encoding/json\<close>, the media type tables, random draws, HPACK encoding and the floating-point request interval.

  \<^bold>\<open>Not modelled.\<close> Dialling, TLS and the connection preface; the flag registry, usage and completion text; floating-point
  statistics, solvers and progress rates; timing campaigns; reports and JSON documents of the commands; the demo
  server and other support code. Next in the plan: the read pump and ping correlation, request preparation, the
  campaign queue and gates, the integer rank statistics, and evidence accounting of the commands.
\<close>

end
